(* ===== verification/Otsar_Prelude.thy ===== *)
theory Otsar_Prelude
  imports Main "HOL-Library.Word" "HOL-Library.Sublist"
begin

text \<open>
  Shared vocabulary of the development: the machine types of the C sources, the bounds of
  \<open>limits.h\<close> and \<open>stdint.h\<close>, the little- and big-endian accessors that every binary format
  of the repository repeats as static helpers, and the lemmas on them that the component
  theories use.  A C pointer into a buffer is the suffix of the byte list it points to.
  Running out of memory is not modelled: every \<open>malloc\<close> succeeds.
\<close>

unbundle bit_operations_syntax

named_theorems codec \<open>round trips of the fixed-width integer codecs\<close>
named_theorems bounds \<open>bounds of machine integers read as natural numbers\<close>

section \<open>Machine types and bounds\<close>

type_synonym byte = "8 word"
type_synonym bytes = "byte list"
type_synonym u16 = "16 word"
type_synonym u32 = "32 word"
type_synonym u64 = "64 word"

definition size_max :: nat where
  "size_max = 18446744073709551615"

definition int_max :: nat where
  "int_max = 2147483647"

definition uint32_max :: nat where
  "uint32_max = 4294967295"

section \<open>Integers in byte buffers\<close>

definition put_u16_le :: "u16 \<Rightarrow> bytes" where
  "put_u16_le v = [ucast (v AND 0xff), ucast (drop_bit 8 v AND 0xff)]"

definition put_u32_le :: "u32 \<Rightarrow> bytes" where
  "put_u32_le v =
     [ucast (v AND 0xff), ucast (drop_bit 8 v AND 0xff),
      ucast (drop_bit 16 v AND 0xff), ucast (drop_bit 24 v AND 0xff)]"

definition put_u64_le :: "u64 \<Rightarrow> bytes" where
  "put_u64_le v = map (\<lambda>i. ucast (drop_bit (i * 8) v AND 0xff)) [0..<8]"

definition get_u16_le :: "bytes \<Rightarrow> u16" where
  "get_u16_le p = ucast (p ! 0) OR push_bit 8 (ucast (p ! 1))"

definition get_u32_le :: "bytes \<Rightarrow> u32" where
  "get_u32_le p =
     ucast (p ! 0) OR push_bit 8 (ucast (p ! 1)) OR
     push_bit 16 (ucast (p ! 2)) OR push_bit 24 (ucast (p ! 3))"

definition get_u64_le :: "bytes \<Rightarrow> u64" where
  "get_u64_le p = foldl (\<lambda>value i. value OR push_bit (i * 8) (ucast (p ! i))) 0 [0..<8]"

definition read_u32_be :: "bytes \<Rightarrow> u32" where
  "read_u32_be p =
     push_bit 24 (ucast (p ! 0)) OR push_bit 16 (ucast (p ! 1)) OR
     push_bit 8 (ucast (p ! 2)) OR ucast (p ! 3)"

definition put_u32_be :: "u32 \<Rightarrow> bytes" where
  "put_u32_be v =
     [ucast (drop_bit 24 v), ucast (drop_bit 16 v), ucast (drop_bit 8 v), ucast v]"

definition put_u64_be :: "u64 \<Rightarrow> bytes" where
  "put_u64_be v =
     [ucast (drop_bit 56 v), ucast (drop_bit 48 v), ucast (drop_bit 40 v),
      ucast (drop_bit 32 v), ucast (drop_bit 24 v), ucast (drop_bit 16 v),
      ucast (drop_bit 8 v), ucast v]"

section \<open>Page sizes\<close>

text \<open>SQLite's page sizes: the powers of two from 512 to 65536.\<close>

definition valid_page_size :: "u32 \<Rightarrow> bool" where
  "valid_page_size page_size \<longleftrightarrow>
     page_size \<ge> 512 \<and> page_size \<le> 65536 \<and> page_size AND (page_size - 1) = 0"

section \<open>Slices of buffers\<close>

text \<open>The bytes \<open>p[off .. off + n)\<close> of a buffer, the argument of a \<open>memcpy\<close>.\<close>

definition mem_slice :: "'a list \<Rightarrow> nat \<Rightarrow> nat \<Rightarrow> 'a list" where
  "mem_slice p off n = take n (drop off p)"

text \<open>Overwriting part of a buffer, the destination of a \<open>memcpy\<close>.\<close>

definition mem_write :: "'a list \<Rightarrow> nat \<Rightarrow> 'a list \<Rightarrow> 'a list" where
  "mem_write buf off xs = take off buf @ xs @ drop (off + length xs) buf"

section \<open>Characters and bytes\<close>

definition bytes_of_string :: "string \<Rightarrow> bytes" where
  "bytes_of_string s = map of_char s"

definition string_of_bytes :: "bytes \<Rightarrow> string" where
  "string_of_bytes b = map (\<lambda>x. char_of (unat x)) b"

section \<open>Lemmas\<close>

lemma of_char_of_nat: "(of_char c :: byte) = of_nat (of_char c :: nat)"
  by (rule of_nat_of_char [symmetric])

lemma unat_of_char [simp]: "unat (of_char c :: byte) = of_char c"
  unfolding of_char_of_nat unsigned_of_nat by (simp add: take_bit_eq_mod of_char_mod_256)

lemma of_char_byte [simp]: "(of_char (char_of (unat b)) :: byte) = b"
proof -
  have "unat b < 256" using unsigned_less [where ?'a = nat, of b] by simp
  then show ?thesis unfolding of_char_of_nat by (simp only: of_char_of) simp
qed

lemma string_of_bytes_of_string [simp]: "string_of_bytes (bytes_of_string s) = s"
  by (simp add: string_of_bytes_def bytes_of_string_def o_def)

lemma bytes_of_string_of_bytes [simp]: "bytes_of_string (string_of_bytes b) = b"
  by (simp add: string_of_bytes_def bytes_of_string_def o_def)

lemma length_bytes_of_string [simp]: "length (bytes_of_string s) = length s"
  by (simp add: bytes_of_string_def)

lemma length_string_of_bytes [simp]: "length (string_of_bytes b) = length b"
  by (simp add: string_of_bytes_def)

lemma unat_u32_le [bounds]: "unat (w :: u32) \<le> uint32_max"
  using unsigned_less [where ?'a = nat, of w] by (simp add: uint32_max_def)

lemma unat_u32_not_gt [simp]: "\<not> uint32_max < unat (w :: u32)"
  using unat_u32_le [of w] by simp

lemma unat_u64_le [bounds]: "unat (w :: u64) \<le> size_max"
  using unsigned_less [where ?'a = nat, of w] by (simp add: size_max_def)

lemma valid_page_size_bounds:
  assumes "valid_page_size page_size"
  shows "512 \<le> unat page_size" "unat page_size \<le> 65536"
  using assms by (simp_all add: valid_page_size_def word_le_nat_alt)

lemma length_put_u16_le [simp]: "length (put_u16_le v) = 2"
  by (simp add: put_u16_le_def)

lemma length_put_u32_le [simp]: "length (put_u32_le v) = 4"
  by (simp add: put_u32_le_def)

lemma length_put_u64_le [simp]: "length (put_u64_le v) = 8"
  by (simp add: put_u64_le_def)

lemma length_put_u32_be [simp]: "length (put_u32_be v) = 4"
  by (simp add: put_u32_be_def)

lemma length_put_u64_be [simp]: "length (put_u64_be v) = 8"
  by (simp add: put_u64_be_def)

lemma len_of_8: "LENGTH(8) = 8"
  by simp

lemma bit_0xff_word: "bit (0xff :: 'a::len word) n \<longleftrightarrow> n < 8 \<and> n < LENGTH('a)"
proof -
  have "(0xff :: 'a word) = mask 8" by (simp add: mask_eq_exp_minus_1)
  then show ?thesis by (simp only: bit_mask_iff) auto
qed

lemma ucast_and_0xff: "(ucast (w AND 0xff) :: byte) = ucast (w :: 'a::len word)"
  by (rule bit_word_eqI)
    (simp only: bit_and_iff bit_0xff_word bit_unsigned_iff len_of_8,
     auto dest: bit_imp_le_length)

lemma ucast_up_eq_iff:
  fixes a b :: "'a::len word"
  assumes "LENGTH('a) \<le> LENGTH('b)"
  shows "(ucast a :: 'b::len word) = ucast b \<longleftrightarrow> a = b"
proof
  assume eq: "(ucast a :: 'b word) = ucast b"
  show "a = b"
  proof (rule bit_word_eqI)
    fix n assume "n < LENGTH('a)"
    then show "bit a n = bit b n"
      using arg_cong [OF eq, of "\<lambda>w. bit w n"] assms by (simp add: bit_unsigned_iff)
  qed
qed simp

lemma get_put_u16_le [simp, codec]: "get_u16_le (put_u16_le v @ r) = v"
proof (rule bit_word_eqI)
  fix n assume "n < LENGTH(16)"
  then show "bit (get_u16_le (put_u16_le v @ r)) n = bit v n"
    by (cases "n < 8")
      (auto simp: get_u16_le_def put_u16_le_def ucast_and_0xff bit_simps less_diff_conv2)
qed

lemma get_put_u32_le [simp, codec]: "get_u32_le (put_u32_le v @ r) = v"
proof (rule bit_word_eqI)
  fix n assume "n < LENGTH(32)"
  then show "bit (get_u32_le (put_u32_le v @ r)) n = bit v n"
    by (cases "n < 8"; cases "n < 16"; cases "n < 24")
      (auto simp: get_u32_le_def put_u32_le_def ucast_and_0xff bit_simps less_diff_conv2)
qed

lemma read_put_u32_be [simp, codec]: "read_u32_be (put_u32_be v @ r) = v"
proof (rule bit_word_eqI)
  fix n assume "n < LENGTH(32)"
  then show "bit (read_u32_be (put_u32_be v @ r)) n = bit v n"
    by (cases "n < 8"; cases "n < 16"; cases "n < 24")
      (auto simp: read_u32_be_def put_u32_be_def bit_simps less_diff_conv2)
qed

lemma upt_8: "[0..<8] = [0, 1, 2, 3, 4, 5, 6, 7 :: nat]"
  by (simp add: upt_rec)

lemma bytes_of_u64:
  "(ucast (ucast v :: byte) OR push_bit 8 (ucast (ucast (drop_bit 8 v) :: byte)) OR
    push_bit 16 (ucast (ucast (drop_bit 16 v) :: byte)) OR
    push_bit 24 (ucast (ucast (drop_bit 24 v) :: byte)) OR
    push_bit 32 (ucast (ucast (drop_bit 32 v) :: byte)) OR
    push_bit 40 (ucast (ucast (drop_bit 40 v) :: byte)) OR
    push_bit 48 (ucast (ucast (drop_bit 48 v) :: byte)) OR
    push_bit 56 (ucast (ucast (drop_bit 56 v) :: byte)) :: u64) = v" (is "?l = v")
proof (rule bit_word_eqI)
  fix n assume n: "n < LENGTH(64)"
  consider "n < 8" | "8 \<le> n \<and> n < 16" | "16 \<le> n \<and> n < 24" | "24 \<le> n \<and> n < 32"
    | "32 \<le> n \<and> n < 40" | "40 \<le> n \<and> n < 48" | "48 \<le> n \<and> n < 56" | "56 \<le> n"
    by linarith
  then show "bit ?l n = bit v n"
    using n by cases (auto simp: bit_simps less_diff_conv2)
qed

lemma get_put_u64_le [simp, codec]: "get_u64_le (put_u64_le v @ r) = v"
  by (simp add: get_u64_le_def put_u64_le_def upt_8 ucast_and_0xff or.assoc bytes_of_u64)

lemma inj_put_u32_le [simp]: "put_u32_le v = put_u32_le w \<longleftrightarrow> v = w"
  by (metis get_put_u32_le)

lemma inj_put_u64_le [simp]: "put_u64_le v = put_u64_le w \<longleftrightarrow> v = w"
  by (metis get_put_u64_le)

lemma mem_slice_append_exact [simp]:
  "off = length a \<Longrightarrow> n = length b \<Longrightarrow> mem_slice (a @ b @ c) off n = b"
  by (simp add: mem_slice_def)

text \<open>Records of equal size laid out one after the other are found at multiples of it.\<close>

lemma drop_concat_records:
  assumes "\<forall>p\<in>set ps. length p = n" "i < length ps"
  shows "drop (i * n) (concat ps) = ps ! i @ concat (drop (Suc i) ps)"
  using assms
proof (induction ps arbitrary: i)
  case (Cons p ps)
  then show ?case by (cases i) auto
qed simp

lemma mem_slice_concat:
  assumes "\<forall>p\<in>set ps. length p = n" "i < length ps"
  shows "mem_slice (concat ps) (i * n) n = ps ! i"
  using drop_concat_records [OF assms] assms by (simp add: mem_slice_def)

lemma length_concat_records:
  "\<forall>p\<in>set ps. length p = n \<Longrightarrow> length (concat ps) = length ps * n"
  by (induction ps) auto

lemma length_mem_slice: "off + n \<le> length p \<Longrightarrow> length (mem_slice p off n) = n"
  by (simp add: mem_slice_def)

lemma length_mem_write: "off + length xs \<le> length buf \<Longrightarrow> length (mem_write buf off xs) = length buf"
  by (simp add: mem_write_def)

lemma take_mem_write:
  "off + length xs \<le> length buf \<Longrightarrow> take (off + length xs) (mem_write buf off xs) = take off buf @ xs"
  by (simp add: mem_write_def)

lemma mem_write_end:
  "off + length xs = length buf \<Longrightarrow> mem_write buf off xs = take off buf @ xs"
  by (simp add: mem_write_def)

lemma unat_of_nat_u16 [simp]: "n \<le> 65535 \<Longrightarrow> unat (of_nat n :: u16) = n"
  by (simp add: unsigned_of_nat take_bit_nat_eq_self_iff)

lemma unat_of_nat_u32 [simp]: "n \<le> uint32_max \<Longrightarrow> unat (of_nat n :: u32) = n"
  by (simp add: unsigned_of_nat take_bit_nat_eq_self_iff uint32_max_def)

lemma unat_of_nat_u64 [simp]: "n \<le> size_max \<Longrightarrow> unat (of_nat n :: u64) = n"
  by (simp add: unsigned_of_nat take_bit_nat_eq_self_iff size_max_def)

lemma sint_of_nat_u32: "n \<le> int_max \<Longrightarrow> sint (of_nat n :: u32) = int n"
  by (simp add: int_max_def signed_of_nat signed_take_bit_int_eq_self)

lemma sint_u32: "unat (w :: u32) \<le> int_max \<Longrightarrow> sint w = int (unat w)"
  using sint_of_nat_u32 [of "unat w"] by simp

lemma of_nat_unat_ucast: "(of_nat (unat (w :: 'a::len word)) :: 'b::len word) = ucast w"
  by transfer simp

text \<open>A 32-bit number widened to 64 bits and narrowed again.\<close>

lemma unat_widen [simp]: "unat (ucast (w :: u32) :: u64) = unat w"
  using unsigned_less [where ?'a = nat, of w]
  by (simp add: unsigned_ucast_eq take_bit_nat_eq_self_iff)

lemma narrow_widen [simp]: "(ucast (ucast (w :: u32) :: u64) :: u32) = w"
  by (simp add: ucast_up_ucast_id is_up_def source_size_def target_size_def word_size)

lemma widen_eq_0 [simp]: "(ucast (w :: u32) :: u64) = 0 \<longleftrightarrow> w = 0"
  using ucast_up_eq_iff [where ?'b = 64, of w 0] by simp

end
