(* ===== verification/Checksum.thy ===== *)
theory Checksum
  imports Otsar_Prelude
begin

text \<open>
  The rolling database checksum of \<open>src/storage/checksum.c\<close>: CRC-64/ISO of each page prefixed
  by its big-endian page number, combined by exclusive or, and its hexadecimal form.  Besides
  the operations the theory shows that a checksum can be maintained page by page, that one
  corrupted byte is always noticed, and that the hexadecimal form is read back.
\<close>

section \<open>CRC-64/ISO\<close>

definition crc64_bit :: "u64 \<Rightarrow> u64" where
  "crc64_bit crc = drop_bit 1 crc XOR (if crc AND 1 \<noteq> 0 then 0xD800000000000000 else 0)"

definition crc64_byte :: "u64 \<Rightarrow> byte \<Rightarrow> u64" where
  "crc64_byte crc b = (crc64_bit ^^ 8) (crc XOR ucast b)"

definition crc64_iso :: "bytes \<Rightarrow> u64" where
  "crc64_iso data = NOT (foldl crc64_byte 0xFFFFFFFFFFFFFFFF data)"

section \<open>The checksum of a database\<close>

definition checksum_max_page :: nat where
  "checksum_max_page = 65536"

text \<open>\<open>page\<close> is \<open>None\<close> for the null pointer; otherwise it is the memory it points to.\<close>

definition otsardb_checksum_accumulate :: "u64 \<Rightarrow> u32 \<Rightarrow> bytes option \<Rightarrow> nat \<Rightarrow> u64" where
  "otsardb_checksum_accumulate current page_no page page_size =
     (case page of
        None \<Rightarrow> current
      | Some p \<Rightarrow>
          if page_size > checksum_max_page then current
          else current XOR crc64_iso (put_u64_be (ucast page_no) @ take page_size p))"

definition otsardb_checksum_compute :: "bytes option \<Rightarrow> nat \<Rightarrow> u32 \<Rightarrow> u64" where
  "otsardb_checksum_compute pages page_size count =
     (case pages of
        None \<Rightarrow> 0
      | Some p \<Rightarrow>
          foldl (\<lambda>c i. otsardb_checksum_accumulate c (of_nat i + 1)
                         (Some (drop (i * page_size) p)) page_size)
            0 [0..<unat count])"

text \<open>
  The file is its contents; a read past the end is filled up with zero bytes, as the
  \<open>memset\<close> after \<open>fread\<close> does.
\<close>

definition read_page_padded :: "bytes \<Rightarrow> nat \<Rightarrow> nat \<Rightarrow> bytes" where
  "read_page_padded file off n =
     (let got = mem_slice file off n in got @ replicate (n - length got) 0)"

definition otsardb_checksum_file :: "bytes option \<Rightarrow> u32 \<Rightarrow> u64 \<Rightarrow> u64" where
  "otsardb_checksum_file file page_size page_count =
     (case file of
        None \<Rightarrow> 0
      | Some f \<Rightarrow>
          foldl (\<lambda>c i. otsardb_checksum_accumulate c (of_nat (i + 1))
                         (Some (read_page_padded f (i * unat page_size) (unat page_size)))
                         (unat page_size))
            0 [0..<unat page_count])"

section \<open>Hexadecimal form\<close>

definition checksum_hex_size :: nat where
  "checksum_hex_size = 16"

definition hex_digits :: string where
  "hex_digits = ''0123456789abcdef''"

text \<open>The loop of \<open>otsardb_checksum_hex\<close> fills the buffer from its end.\<close>

fun checksum_hex_loop :: "nat \<Rightarrow> u64 \<Rightarrow> string \<Rightarrow> string" where
  "checksum_hex_loop 0 checksum out = out"
| "checksum_hex_loop (Suc n) checksum out =
     checksum_hex_loop n (drop_bit 4 checksum) (hex_digits ! unat (checksum AND 0xF) # out)"

definition otsardb_checksum_hex :: "u64 \<Rightarrow> string" where
  "otsardb_checksum_hex checksum = checksum_hex_loop checksum_hex_size checksum []"

definition checksum_hex_value :: "char \<Rightarrow> u64 option" where
  "checksum_hex_value c =
     (let n = of_char c :: nat in
      if 48 \<le> n \<and> n \<le> 57 then Some (of_nat (n - 48))
      else if 97 \<le> n \<and> n \<le> 102 then Some (of_nat (n - 97 + 10))
      else if 65 \<le> n \<and> n \<le> 70 then Some (of_nat (n - 65 + 10))
      else None)"

text \<open>The end of the list is the terminating NUL, which is no hexadecimal digit.\<close>

fun checksum_parse_loop :: "nat \<Rightarrow> string \<Rightarrow> u64 \<Rightarrow> u64 option" where
  "checksum_parse_loop 0 hex v = (if hex = [] \<or> hd hex = CHR 0x00 then Some v else None)"
| "checksum_parse_loop (Suc n) [] v = None"
| "checksum_parse_loop (Suc n) (c # hex) v =
     (case checksum_hex_value c of
        None \<Rightarrow> None
      | Some d \<Rightarrow> checksum_parse_loop n hex (push_bit 4 v OR d))"

definition otsardb_checksum_parse :: "string option \<Rightarrow> u64 option" where
  "otsardb_checksum_parse hex =
     (case hex of None \<Rightarrow> None | Some h \<Rightarrow> checksum_parse_loop checksum_hex_size h 0)"

text \<open>What the page with index \<open>i\<close> contributes to the checksum of a database.\<close>

definition page_crc :: "nat \<Rightarrow> nat \<Rightarrow> bytes \<Rightarrow> u64" where
  "page_crc page_size i p =
     crc64_iso (put_u64_be (ucast (of_nat i + 1 :: u32)) @ take page_size p)"

section \<open>One corrupted byte changes the CRC\<close>

lemma word_xor_cancel: "(a XOR c = b XOR c) = (a = (b :: 'a::len word))"
  by (metis xor.assoc xor_self_eq xor.right_neutral)

lemma word_xor_cancel_left: "(c XOR a = c XOR b) = (a = (b :: 'a::len word))"
  by (metis word_xor_cancel xor.commute)

lemma crc64_bit_cases:
  "crc64_bit crc = drop_bit 1 crc XOR (if bit crc 0 then 0xD800000000000000 else 0)"
  by (simp add: crc64_bit_def bit_0 odd_iff_mod_2_eq_one and_one_eq)

lemma bit_crc64_bit_63: "bit (crc64_bit z) 63 = bit z 0"
proof -
  have "\<not> bit z 64" using bit_imp_le_length [of z 64] by auto
  then show ?thesis
    by (auto simp: crc64_bit_cases bit_simps)
qed

lemma inj_crc64_bit: "inj crc64_bit"
proof (rule injI)
  fix x y :: u64
  assume eq: "crc64_bit x = crc64_bit y"
  then have low: "bit x 0 = bit y 0"
    by (metis bit_crc64_bit_63)
  then have high: "drop_bit 1 x = drop_bit 1 y"
    using eq by (simp add: crc64_bit_cases word_xor_cancel)
  show "x = y"
  proof (rule bit_word_eqI)
    fix n
    show "bit x n = bit y n"
    proof (cases n)
      case (Suc m)
      then show ?thesis using arg_cong [OF high, of "\<lambda>w. bit w m"] by (simp add: bit_simps)
    qed (simp add: low)
  qed
qed

lemma inj_crc64_bits: "inj (crc64_bit ^^ n)"
  by (induction n) (simp_all add: inj_compose inj_crc64_bit del: o_apply)

lemma crc64_byte_inj_state: "crc64_byte x b = crc64_byte y b \<longleftrightarrow> x = y"
  by (simp add: crc64_byte_def inj_eq [OF inj_crc64_bits] word_xor_cancel)

lemma crc64_byte_inj_byte: "crc64_byte x a = crc64_byte x b \<longleftrightarrow> a = b"
  by (simp add: crc64_byte_def inj_eq [OF inj_crc64_bits] word_xor_cancel_left ucast_up_eq_iff)

lemma foldl_crc64_inj: "foldl crc64_byte x data = foldl crc64_byte y data \<longleftrightarrow> x = y"
  by (induction data arbitrary: x y) (simp_all add: crc64_byte_inj_state)

lemma crc64_iso_one_byte:
  "crc64_iso (pre @ a # post) = crc64_iso (pre @ b # post) \<longleftrightarrow> a = b"
  by (simp add: crc64_iso_def foldl_crc64_inj crc64_byte_inj_byte)

section \<open>Maintaining the checksum page by page\<close>

lemma foldl_xor_shift:
  "foldl (\<lambda>c i. c XOR f i) (d XOR c) xs = d XOR foldl (\<lambda>c i. c XOR f i) (c :: u64) xs"
  by (induction xs arbitrary: c) (simp_all add: xor.assoc)

lemma foldl_xor_start:
  "foldl (\<lambda>c i. c XOR f i) d xs = d XOR foldl (\<lambda>c i. c XOR f i) (0 :: u64) xs"
  using foldl_xor_shift [of f d 0 xs] by simp

lemma foldl_xor_cong:
  "\<forall>i\<in>set xs. f i = g i \<Longrightarrow>
   foldl (\<lambda>c i. c XOR f i) (d :: u64) xs = foldl (\<lambda>c i. c XOR g i) d xs"
  by (induction xs arbitrary: d) auto

lemma foldl_xor_replace:
  assumes "distinct xs" "k \<in> set xs" "\<forall>i\<in>set xs. i \<noteq> k \<longrightarrow> f i = g i"
  shows "foldl (\<lambda>c i. c XOR g i) 0 xs = foldl (\<lambda>c i. c XOR f i) (0 :: u64) xs XOR f k XOR g k"
  using assms
proof (induction xs)
  case (Cons x xs)
  show ?case
  proof (cases "x = k")
    case True
    then have "foldl (\<lambda>c i. c XOR g i) 0 xs = foldl (\<lambda>c i. c XOR f i) (0 :: u64) xs"
      using Cons.prems by (intro foldl_xor_cong) auto
    then show ?thesis
      using True by (simp add: foldl_xor_start [of _ "f k"] foldl_xor_start [of _ "g k"]
          xor.assoc xor.left_commute xor.commute)
  next
    case False
    then show ?thesis
      using Cons by (simp add: foldl_xor_start [of _ "f x"] foldl_xor_start [of _ "g x"] xor.assoc)
  qed
qed simp

lemma accumulate_page_crc:
  "page_size \<le> checksum_max_page \<Longrightarrow>
   otsardb_checksum_accumulate c (of_nat i + 1) (Some p) page_size = c XOR page_crc page_size i p"
  by (simp add: otsardb_checksum_accumulate_def page_crc_def)

lemma compute_page_crc:
  assumes "page_size \<le> checksum_max_page" "\<forall>p\<in>set pages. length p = page_size"
    "unat count = length pages"
  shows "otsardb_checksum_compute (Some (concat pages)) page_size count =
         foldl (\<lambda>c i. c XOR page_crc page_size i (pages ! i)) 0 [0..<length pages]"
proof -
  have "page_crc page_size i (drop (i * page_size) (concat pages)) = page_crc page_size i (pages ! i)"
    if "i < length pages" for i
    using mem_slice_concat [OF assms(2) that] that assms(2)
    by (simp add: page_crc_def mem_slice_def)
  then show ?thesis
    using assms(1,3)
    by (simp add: otsardb_checksum_compute_def accumulate_page_crc)
      (rule foldl_xor_cong, simp)
qed

lemma compute_replace:
  assumes "page_size \<le> checksum_max_page" "\<forall>p\<in>set pages. length p = page_size"
    "unat count = length pages" "k < length pages" "length new = page_size"
  shows "otsardb_checksum_compute (Some (concat (pages[k := new]))) page_size count =
         otsardb_checksum_compute (Some (concat pages)) page_size count
           XOR page_crc page_size k (pages ! k) XOR page_crc page_size k new"
proof -
  have new: "\<forall>p\<in>set (pages[k := new]). length p = page_size"
    using assms(2,5) set_update_subset_insert [of pages k new] by auto
  show ?thesis
    using foldl_xor_replace [of "[0..<length pages]" k "\<lambda>i. page_crc page_size i (pages ! i)"
        "\<lambda>i. page_crc page_size i (pages[k := new] ! i)"] assms(3,4)
    by (simp add: compute_page_crc [OF assms(1,2,3)] compute_page_crc [OF assms(1) new])
qed

lemma accumulate_replace_page:
  assumes "page_size \<le> checksum_max_page" "\<forall>p\<in>set pages. length p = page_size"
    "unat count = length pages" "k < length pages" "length new = page_size"
  shows "otsardb_checksum_accumulate
           (otsardb_checksum_accumulate
              (otsardb_checksum_compute (Some (concat pages)) page_size count)
              (of_nat k + 1) (Some (pages ! k)) page_size)
           (of_nat k + 1) (Some new) page_size =
         otsardb_checksum_compute (Some (concat (pages[k := new]))) page_size count"
  using compute_replace [OF assms] by (simp add: accumulate_page_crc [OF assms(1)] xor.assoc)

lemma file_page_crc:
  assumes "unat page_size \<le> checksum_max_page" "\<forall>p\<in>set pages. length p = unat page_size"
    "unat count = length pages"
  shows "otsardb_checksum_file (Some (concat pages)) page_size count =
         foldl (\<lambda>c i. c XOR page_crc (unat page_size) i (pages ! i)) 0 [0..<length pages]"
proof -
  have "otsardb_checksum_accumulate c (of_nat (i + 1))
          (Some (read_page_padded (concat pages) (i * unat page_size) (unat page_size)))
          (unat page_size) = c XOR page_crc (unat page_size) i (pages ! i)"
    if "i < length pages" for c i
    using mem_slice_concat [OF assms(2) that] that assms(2)
      accumulate_page_crc [OF assms(1), of c i "pages ! i"]
    by (simp add: read_page_padded_def add.commute)
  then show ?thesis
    using assms(3)
    by (simp add: otsardb_checksum_file_def) (rule foldl_cong, simp_all)
qed

section \<open>The hexadecimal form is read back\<close>

text \<open>The \<open>n\<close> low nibbles of a word, most significant first.\<close>

fun nibbles :: "nat \<Rightarrow> u64 \<Rightarrow> string" where
  "nibbles 0 v = []"
| "nibbles (Suc n) v = hex_digits ! unat (drop_bit (4 * n) v AND 0xF) # nibbles n v"

lemma nibbles_snoc: "nibbles (Suc n) v = nibbles n (drop_bit 4 v) @ [hex_digits ! unat (v AND 0xF)]"
proof (induction n)
  case (Suc n)
  have "nibbles (Suc (Suc n)) v = hex_digits ! unat (drop_bit (4 * Suc n) v AND 0xF) # nibbles (Suc n) v"
    by simp
  then show ?case
    unfolding Suc.IH by (simp add: drop_bit_drop_bit add.commute)
qed simp

lemma checksum_hex_loop_nibbles: "checksum_hex_loop n v out = nibbles n v @ out"
  by (induction n v out rule: checksum_hex_loop.induct) (simp_all add: nibbles_snoc del: nibbles.simps(2))

lemma checksum_hex_value_digit:
  assumes "n < 16"
  shows "checksum_hex_value (hex_digits ! n) = Some (of_nat n)"
proof -
  have "n \<in> {0, 1, 2, 3, 4, 5, 6, 7, 8, 9, 10, 11, 12, 13, 14, 15}" using assms by (simp; presburger)
  then show ?thesis by (auto simp: checksum_hex_value_def hex_digits_def)
qed

lemma unat_nibble: "unat (w AND 0xF :: u64) < 16"
proof -
  have "w AND 0xF = take_bit 4 w" by (simp add: take_bit_eq_mask mask_eq_exp_minus_1)
  then show ?thesis using take_bit_nat_less_exp [of 4 "unat w"] by (simp add: unsigned_take_bit_eq)
qed

lemma join_nibble: "push_bit 4 (drop_bit 4 w) OR (w AND 0xF) = (w :: u64)"
proof -
  have "w AND 0xF = take_bit 4 w" by (simp add: take_bit_eq_mask mask_eq_exp_minus_1)
  then show ?thesis by (auto intro!: bit_word_eqI simp: bit_simps)
qed

lemma parse_nibbles:
  "checksum_parse_loop n (nibbles n v) (drop_bit (4 * n) v) = Some v"
proof (induction n)
  case (Suc n)
  have "push_bit 4 (drop_bit (4 * Suc n) v) OR (drop_bit (4 * n) v AND 0xF) = drop_bit (4 * n) v"
    using join_nibble [of "drop_bit (4 * n) v"] by (simp add: drop_bit_drop_bit)
  then show ?case
    using Suc by (simp add: checksum_hex_value_digit unat_nibble)
qed simp

lemma parse_checksum_hex: "otsardb_checksum_parse (Some (otsardb_checksum_hex v)) = Some v"
proof -
  have "drop_bit (4 * 16) v = 0"
    by (rule bit_word_eqI) (simp add: bit_simps)
  then show ?thesis
    using parse_nibbles [of 16 v]
    by (simp add: otsardb_checksum_parse_def otsardb_checksum_hex_def checksum_hex_size_def
        checksum_hex_loop_nibbles)
qed

lemma length_nibbles [simp]: "length (nibbles n v) = n"
  by (induction n) simp_all

lemma length_checksum_hex [simp]: "length (otsardb_checksum_hex v) = 16"
  by (simp add: otsardb_checksum_hex_def checksum_hex_size_def checksum_hex_loop_nibbles del: nibbles.simps)

section \<open>Properties\<close>

text \<open>
  (C27) The checksum is maintained incrementally: folding a page's old image out of the checksum of
  a database and its new image in, as the publisher does for every page of a commit, gives the
  checksum computed from scratch on the database with that page replaced.
\<close>

theorem checksum_incremental:
  assumes "page_size \<le> checksum_max_page" "\<forall>p\<in>set pages. length p = page_size"
    "unat count = length pages" "k < length pages" "length new = page_size"
  shows "otsardb_checksum_accumulate
           (otsardb_checksum_accumulate
              (otsardb_checksum_compute (Some (concat pages)) page_size count)
              (of_nat k + 1) (Some (pages ! k)) page_size)
           (of_nat k + 1) (Some new) page_size =
         otsardb_checksum_compute (Some (concat (pages[k := new]))) page_size count"
  by (rule accumulate_replace_page [OF assms])

theorem checksum_incremental_witness:
  "otsardb_checksum_accumulate
     (otsardb_checksum_accumulate
        (otsardb_checksum_compute (Some [1, 2, 3, 4]) 2 2) (of_nat 1 + 1) (Some [3, 4]) 2)
     (of_nat 1 + 1) (Some [7, 8]) 2 =
   otsardb_checksum_compute (Some [1, 2, 7, 8]) 2 2"
  using checksum_incremental [of 2 "[[1, 2], [3, 4]]" 2 1 "[7, 8]"]
  by (simp add: checksum_max_page_def)

text \<open>
  (C28) The checksum notices every corruption of a single byte: two databases that differ in one byte
  of one page have different checksums, wherever the byte is and whatever its two values are.
\<close>

theorem checksum_detects_one_byte:
  assumes "page_size \<le> checksum_max_page" "\<forall>p\<in>set pages. length p = page_size"
    "unat count = length pages" "k < length pages" "pages ! k = pre @ a # post" "a \<noteq> b"
  shows "otsardb_checksum_compute (Some (concat (pages[k := pre @ b # post]))) page_size count \<noteq>
         otsardb_checksum_compute (Some (concat pages)) page_size count"
proof -
  have len: "length (pre @ a # post) = page_size"
    using assms(2,4,5) nth_mem by metis
  then have "page_crc page_size k (pre @ a # post) \<noteq> page_crc page_size k (pre @ b # post)"
    using crc64_iso_one_byte [of "put_u64_be (ucast (of_nat k + 1 :: u32)) @ pre" a post b] assms(6)
    by (simp add: page_crc_def)
  then have "page_crc page_size k (pages ! k) XOR page_crc page_size k (pre @ b # post) \<noteq> 0"
    using assms(5) word_xor_cancel [of _ "page_crc page_size k (pre @ b # post)"]
    by (metis xor_self_eq)
  then show ?thesis
    using compute_replace [OF assms(1-4), of "pre @ b # post"] len
      word_xor_cancel_left [of "otsardb_checksum_compute (Some (concat pages)) page_size count" _ 0]
    by simp
qed

theorem checksum_detects_one_byte_witness:
  "otsardb_checksum_compute (Some [1, 2, 3, 9]) 2 2 \<noteq>
   otsardb_checksum_compute (Some [1, 2, 3, 4]) 2 2"
  using checksum_detects_one_byte [of 2 "[[1, 2], [3, 4]]" 2 1 "[3]" 4 "[]" 9]
  by (simp add: checksum_max_page_def)

text \<open>
  Every checksum survives being printed and parsed: the sixteen hexadecimal digits stored in a
  commit manifest are read back as the same 64-bit value.
\<close>

theorem checksum_hex_parse:
  "otsardb_checksum_parse (Some (otsardb_checksum_hex v)) = Some v"
  by (rule parse_checksum_hex)

text \<open>
  The checksum of a database file read page by page equals the checksum of the same pages in
  memory, for a file that holds exactly the pages.
\<close>

theorem checksum_file_compute:
  assumes "unat page_size \<le> checksum_max_page" "\<forall>p\<in>set pages. length p = unat page_size"
    "unat file_count = length pages" "unat count = length pages"
  shows "otsardb_checksum_file (Some (concat pages)) page_size file_count =
         otsardb_checksum_compute (Some (concat pages)) (unat page_size) count"
  using file_page_crc [OF assms(1-3)] compute_page_crc [OF assms(1,2,4)] by simp

theorem checksum_file_compute_witness:
  "otsardb_checksum_file (Some [1, 2, 3, 4]) 2 2 = otsardb_checksum_compute (Some [1, 2, 3, 4]) 2 2"
  using checksum_file_compute [of 2 "[[1, 2], [3, 4]]" 2 2]
  by (simp add: checksum_max_page_def)

text \<open>The check value that the comment above \<open>crc64_iso\<close> gives for the string 123456789.\<close>

lemma crc64_byte_unroll:
  "crc64_byte crc b =
   crc64_bit (crc64_bit (crc64_bit (crc64_bit (crc64_bit (crc64_bit (crc64_bit (crc64_bit
     (crc XOR ucast b))))))))"
  by (simp add: crc64_byte_def eval_nat_numeral)

lemma crc64_iso_check_value:
  "crc64_iso (map of_char ''123456789'') = 0xb90956c775a41001"
  by (simp add: crc64_iso_def crc64_byte_unroll crc64_bit_def)

end
