(* ===== verification/Wal_Batch.thy ===== *)
theory Wal_Batch
  imports Otsar_Prelude
begin

text \<open>
  The WAL batch of \<open>src/storage/wal_batch.c\<close>: the page images of one commit, the payload of a
  segment.  Encoding, decoding and access to one frame, the round trip between them, and that
  an accepted batch keeps every frame access inside its buffer.
\<close>

section \<open>Operations\<close>

definition wal_batch_magic :: bytes where
  "wal_batch_magic = map of_char ''OTSWAL01''"

definition wal_batch_version :: u32 where
  "wal_batch_version = 1"

definition wal_batch_header_size :: nat where
  "wal_batch_header_size = 32"

definition wal_batch_frame_header_size :: nat where
  "wal_batch_frame_header_size = 8"

record wal_batch_view =
  wb_format_version :: u32
  wb_page_size :: u32
  wb_database_size_pages :: u64
  wb_frame_count :: u32
  wb_data :: bytes
  wb_size :: nat

definition wal_batch_header :: "u32 \<Rightarrow> u64 \<Rightarrow> u32 \<Rightarrow> bytes" where
  "wal_batch_header page_size database_size_pages frame_count =
     wal_batch_magic @ put_u32_le wal_batch_version @ put_u32_le page_size @
     put_u64_le database_size_pages @ put_u32_le frame_count @ put_u32_le 0"

definition wal_batch_record :: "nat \<Rightarrow> u32 list \<Rightarrow> bytes \<Rightarrow> nat \<Rightarrow> bytes" where
  "wal_batch_record page_size page_nos pages i =
     put_u32_le (page_nos ! i) @ put_u32_le 0 @ mem_slice pages (i * page_size) page_size"

text \<open>The loop over the frames: it stops at a page number 0.\<close>

fun wal_batch_records :: "nat \<Rightarrow> u32 list \<Rightarrow> bytes \<Rightarrow> nat list \<Rightarrow> bytes option" where
  "wal_batch_records page_size page_nos pages [] = Some []"
| "wal_batch_records page_size page_nos pages (i # is) =
     (if page_nos ! i = 0 then None
      else map_option (\<lambda>rest. wal_batch_record page_size page_nos pages i @ rest)
             (wal_batch_records page_size page_nos pages is))"

definition otsardb_wal_batch_encode ::
  "u32 \<Rightarrow> u64 \<Rightarrow> u32 list \<Rightarrow> bytes \<Rightarrow> u32 \<Rightarrow> bytes option" where
  "otsardb_wal_batch_encode page_size database_size_pages page_nos pages frame_count =
     (if \<not> valid_page_size page_size \<or> database_size_pages = 0 \<or> frame_count = 0 then None
      else let record_size = wal_batch_frame_header_size + unat page_size in
        if unat frame_count > (size_max - wal_batch_header_size) div record_size then None
        else map_option
               (\<lambda>records. wal_batch_header page_size database_size_pages frame_count @ records)
               (wal_batch_records (unat page_size) page_nos pages [0..<unat frame_count]))"

definition otsardb_wal_batch_decode :: "bytes \<Rightarrow> wal_batch_view option" where
  "otsardb_wal_batch_decode encoded =
     (if length encoded < wal_batch_header_size then None
      else if take 8 encoded \<noteq> wal_batch_magic then None
      else let version = get_u32_le (drop 8 encoded);
               page_size = get_u32_le (drop 12 encoded);
               database_size_pages = get_u64_le (drop 16 encoded);
               frame_count = get_u32_le (drop 24 encoded) in
        if version \<noteq> wal_batch_version \<or> \<not> valid_page_size page_size \<or> database_size_pages = 0 \<or> frame_count = 0
        then None
        else let record_size = wal_batch_frame_header_size + unat page_size in
          if unat frame_count > (size_max - wal_batch_header_size) div record_size \<or>
             wal_batch_header_size + unat frame_count * record_size \<noteq> length encoded
          then None
          else Some \<lparr>wb_format_version = version, wb_page_size = page_size,
                     wb_database_size_pages = database_size_pages, wb_frame_count = frame_count,
                     wb_data = encoded, wb_size = length encoded\<rparr>)"

definition otsardb_wal_batch_frame :: "wal_batch_view \<Rightarrow> u32 \<Rightarrow> (u32 \<times> bytes) option" where
  "otsardb_wal_batch_frame batch index =
     (if index \<ge> wb_frame_count batch then None
      else let record_size = wal_batch_frame_header_size + unat (wb_page_size batch);
               off = wal_batch_header_size + unat index * record_size;
               page_no = get_u32_le (drop off (wb_data batch)) in
        if page_no = 0 then None
        else Some (page_no,
                   mem_slice (wb_data batch) (off + wal_batch_frame_header_size) (unat (wb_page_size batch))))"

section \<open>Records and header\<close>

lemma wal_batch_records_concat:
  "wal_batch_records page_size page_nos pages is =
     (if \<exists>i\<in>set is. page_nos ! i = 0 then None
      else Some (concat (map (wal_batch_record page_size page_nos pages) is)))"
  by (induction "is") auto

lemma length_wal_batch_magic [simp]: "length wal_batch_magic = 8"
  by (simp add: wal_batch_magic_def)

lemma length_wal_batch_header [simp]: "length (wal_batch_header p d f) = 32"
  by (simp add: wal_batch_header_def)

lemma wal_batch_header_fields [simp]:
  "take 8 (wal_batch_header p d f) = wal_batch_magic"
  "get_u32_le (drop 8 (wal_batch_header p d f) @ r) = wal_batch_version"
  "get_u32_le (drop 12 (wal_batch_header p d f) @ r) = p"
  "get_u64_le (drop 16 (wal_batch_header p d f) @ r) = d"
  "get_u32_le (drop 24 (wal_batch_header p d f) @ r) = f"
  by (simp_all add: wal_batch_header_def)

lemma wal_batch_encode_eq:
  "otsardb_wal_batch_encode p d page_nos pages f = Some out \<longleftrightarrow>
     valid_page_size p \<and> d \<noteq> 0 \<and> f \<noteq> 0 \<and>
     unat f \<le> (size_max - wal_batch_header_size) div (wal_batch_frame_header_size + unat p) \<and>
     (\<forall>i < unat f. page_nos ! i \<noteq> 0) \<and>
     out = wal_batch_header p d f @
           concat (map (wal_batch_record (unat p) page_nos pages) [0..<unat f])"
  by (auto simp: otsardb_wal_batch_encode_def wal_batch_records_concat Let_def
      not_less)

lemma length_wal_batch_record:
  "(i + 1) * n \<le> length pages \<Longrightarrow> length (wal_batch_record n page_nos pages i) = 8 + n"
  by (simp add: wal_batch_record_def length_mem_slice algebra_simps)

section \<open>Round trip and bounds\<close>

lemma wal_batch_decode_eq:
  "otsardb_wal_batch_decode encoded = Some v \<longleftrightarrow>
     wal_batch_header_size \<le> length encoded \<and> take 8 encoded = wal_batch_magic \<and>
     get_u32_le (drop 8 encoded) = wal_batch_version \<and>
     valid_page_size (get_u32_le (drop 12 encoded)) \<and>
     get_u64_le (drop 16 encoded) \<noteq> 0 \<and> get_u32_le (drop 24 encoded) \<noteq> 0 \<and>
     unat (get_u32_le (drop 24 encoded)) \<le> (size_max - wal_batch_header_size) div
        (wal_batch_frame_header_size + unat (get_u32_le (drop 12 encoded))) \<and>
     wal_batch_header_size + unat (get_u32_le (drop 24 encoded)) *
        (wal_batch_frame_header_size + unat (get_u32_le (drop 12 encoded))) = length encoded \<and>
     v = \<lparr>wb_format_version = wal_batch_version, wb_page_size = get_u32_le (drop 12 encoded),
          wb_database_size_pages = get_u64_le (drop 16 encoded),
          wb_frame_count = get_u32_le (drop 24 encoded), wb_data = encoded, wb_size = length encoded\<rparr>"
  by (auto simp: otsardb_wal_batch_decode_def Let_def)

text \<open>What a reader of an encoded batch sees: the header fields and every frame.\<close>

lemma wal_batch_record_lengths:
  assumes "length pages = n * m"
  shows "\<forall>r\<in>set (map (wal_batch_record m page_nos pages) [0..<n]). length r = 8 + m"
proof
  fix r assume "r \<in> set (map (wal_batch_record m page_nos pages) [0..<n])"
  then obtain i where i: "i < n" "r = wal_batch_record m page_nos pages i" by auto
  then have "(i + 1) * m \<le> length pages" unfolding assms by (intro mult_le_mono1) simp
  then show "length r = 8 + m" using i length_wal_batch_record by blast
qed

lemma wal_batch_encode_size:
  assumes "otsardb_wal_batch_encode p d page_nos pages f = Some out" "length pages = unat f * unat p"
  shows "length out = wal_batch_header_size + unat f * (wal_batch_frame_header_size + unat p)"
  using assms(1) length_concat_records [OF wal_batch_record_lengths [OF assms(2)]]
  by (simp add: wal_batch_encode_eq wal_batch_header_size_def wal_batch_frame_header_size_def)

lemma wal_batch_encode_view:
  assumes "otsardb_wal_batch_encode p d page_nos pages f = Some out" "length pages = unat f * unat p"
  shows "otsardb_wal_batch_decode out =
           Some \<lparr>wb_format_version = wal_batch_version, wb_page_size = p, wb_database_size_pages = d,
                 wb_frame_count = f, wb_data = out, wb_size = length out\<rparr>"
  unfolding wal_batch_decode_eq wal_batch_encode_size [OF assms]
  using assms(1) by (simp add: wal_batch_encode_eq wal_batch_header_size_def)

lemma wal_batch_encode_frame:
  assumes enc: "otsardb_wal_batch_encode p d page_nos pages f = Some out"
    and len: "length pages = unat f * unat p" and i: "i < f"
  shows "otsardb_wal_batch_frame
           \<lparr>wb_format_version = v, wb_page_size = p, wb_database_size_pages = d,
            wb_frame_count = f, wb_data = out, wb_size = s\<rparr> i =
         Some (page_nos ! unat i, mem_slice pages (unat i * unat p) (unat p))"
proof -
  let ?recs = "map (wal_batch_record (unat p) page_nos pages) [0..<unat f]"
  have less: "unat i < unat f" using i by (simp add: word_less_nat_alt)
  have out: "out = wal_batch_header p d f @ concat ?recs" and nz: "page_nos ! unat i \<noteq> 0"
    using enc less by (auto simp: wal_batch_encode_eq)
  have "drop (32 + unat i * (8 + unat p)) out = drop (unat i * (8 + unat p)) (concat ?recs)"
    by (simp add: out)
  also have "\<dots> = wal_batch_record (unat p) page_nos pages (unat i) @ concat (drop (Suc (unat i)) ?recs)"
    using drop_concat_records [OF wal_batch_record_lengths [OF len], of "unat i" page_nos] less by simp
  finally have rec: "drop (32 + unat i * (8 + unat p)) out =
      wal_batch_record (unat p) page_nos pages (unat i) @ concat (drop (Suc (unat i)) ?recs)" .
  have "(unat i + 1) * unat p \<le> length pages" unfolding len using less by (intro mult_le_mono1) simp
  then have "length (mem_slice pages (unat i * unat p) (unat p)) = unat p"
    by (simp add: length_mem_slice algebra_simps)
  moreover have "drop (40 + unat i * (8 + unat p)) out = drop 8 (drop (32 + unat i * (8 + unat p)) out)"
    by (simp add: add.commute)
  ultimately have "mem_slice out (40 + unat i * (8 + unat p)) (unat p) =
      mem_slice pages (unat i * unat p) (unat p)"
    unfolding rec by (simp add: mem_slice_def [of out] wal_batch_record_def)
  then show ?thesis
    using rec nz i
    by (simp add: otsardb_wal_batch_frame_def wal_batch_header_size_def wal_batch_frame_header_size_def
        wal_batch_record_def Let_def not_le)
qed

lemma wal_batch_frame_offset:
  assumes "otsardb_wal_batch_decode encoded = Some v" "i < wb_frame_count v"
  shows "wal_batch_header_size + unat i * (wal_batch_frame_header_size + unat (wb_page_size v)) +
         wal_batch_frame_header_size + unat (wb_page_size v) \<le> length encoded"
proof -
  let ?r = "wal_batch_frame_header_size + unat (wb_page_size v)"
  have "length encoded = wal_batch_header_size + unat (wb_frame_count v) * ?r"
    using assms(1) by (auto simp: wal_batch_decode_eq)
  moreover have "(unat i + 1) * ?r \<le> unat (wb_frame_count v) * ?r"
    using assms(2) by (intro mult_le_mono1) (simp add: word_less_nat_alt)
  ultimately show ?thesis by (simp add: algebra_simps)
qed

section \<open>Properties\<close>

text \<open>
  (C29) A batch that was encoded is decoded to the same header, and reading its frames one by one
  gives back every page number with its page image.
\<close>

theorem wal_batch_round_trip:
  assumes "otsardb_wal_batch_encode p d page_nos pages f = Some out" "length pages = unat f * unat p"
  shows "\<exists>v. otsardb_wal_batch_decode out = Some v \<and> wb_page_size v = p \<and>
           wb_database_size_pages v = d \<and> wb_frame_count v = f \<and>
           (\<forall>i < f. otsardb_wal_batch_frame v i =
                      Some (page_nos ! unat i, mem_slice pages (unat i * unat p) (unat p)))"
  using wal_batch_encode_view [OF assms] wal_batch_encode_frame [OF assms] by simp

lemma wal_batch_sample:
  "otsardb_wal_batch_encode 512 1 [3] (replicate 512 7) 1 =
     Some (wal_batch_header 512 1 1 @ wal_batch_record 512 [3] (replicate 512 7) 0)"
  by (simp add: wal_batch_encode_eq valid_page_size_def size_max_def wal_batch_header_size_def
      wal_batch_frame_header_size_def)

theorem wal_batch_round_trip_witness:
  "\<exists>v. otsardb_wal_batch_decode
          (wal_batch_header 512 1 1 @ wal_batch_record 512 [3] (replicate 512 7) 0) = Some v \<and>
        otsardb_wal_batch_frame v 0 = Some (3, replicate 512 7)"
  using wal_batch_round_trip [OF wal_batch_sample] by (auto simp: mem_slice_def)

text \<open>
  An accepted batch can be read safely: every frame access below the frame count stays inside
  the buffer, and the page it returns has exactly the page size of the header.
\<close>

theorem wal_batch_frame_in_bounds:
  assumes "otsardb_wal_batch_decode encoded = Some v" "i < wb_frame_count v"
  shows "wal_batch_header_size + unat i * (wal_batch_frame_header_size + unat (wb_page_size v)) +
           wal_batch_frame_header_size + unat (wb_page_size v) \<le> length encoded \<and>
         (\<forall>page_no page. otsardb_wal_batch_frame v i = Some (page_no, page) \<longrightarrow>
            page_no \<noteq> 0 \<and> length page = unat (wb_page_size v))"
  using wal_batch_frame_offset [OF assms] assms
  by (auto simp: otsardb_wal_batch_frame_def wal_batch_decode_eq Let_def length_mem_slice
      split: if_splits)

theorem wal_batch_frame_in_bounds_witness:
  "wal_batch_header_size + 0 * (wal_batch_frame_header_size + 512) + wal_batch_frame_header_size + 512
     \<le> length (wal_batch_header 512 1 1 @ wal_batch_record 512 [3] (replicate 512 7) 0)"
  using wal_batch_frame_in_bounds [OF wal_batch_encode_view [OF wal_batch_sample], of 0] by simp

end
