(* ===== verification/Sqlite_Wal.thy ===== *)
theory Sqlite_Wal
  imports Otsar_Prelude
begin

text \<open>
  The reader of SQLite's write-ahead log, \<open>src/storage/sqlite_wal.c\<close>: header validation, the
  cumulative frame checksum, and the incremental scan that hands each complete commit to a
  callback.  The WAL file is a reader \<open>read_at\<close> (offset and size to the bytes, or \<open>None\<close> when the
  read fails); the callback threads its own context \<open>'s\<close>.  Offsets and byte counts are natural
  numbers: the guards of the code keep them below the WAL size, a 64-bit number.  Frame counters
  are 32-bit words and wrap.
\<close>

section \<open>State\<close>

type_synonym wal_read_at = "nat \<Rightarrow> nat \<Rightarrow> bytes option"

record sqlite_wal_header =
  wh_page_size :: u32
  wh_salt1 :: u32
  wh_salt2 :: u32
  wh_checksum0 :: u32
  wh_checksum1 :: u32
  wh_checksum_big_endian :: bool

record sqlite_wal_cursor =
  wc_header :: sqlite_wal_header
  wc_frame_count :: u32
  wc_checksum0 :: u32
  wc_checksum1 :: u32

record sqlite_wal_frame_ref =
  fr_page_no :: u32
  fr_frame_offset :: nat

record sqlite_wal_scan_result =
  sr_page_size :: u32
  sr_salt1 :: u32
  sr_salt2 :: u32
  sr_valid_frames :: u32
  sr_committed_frames :: u32
  sr_commit_count :: u32
  sr_bytes_read :: nat

text \<open>The commit callback; \<open>True\<close> is the return value 0.\<close>

type_synonym 's wal_commit_callback =
  "u32 \<Rightarrow> u64 \<Rightarrow> sqlite_wal_frame_ref list \<Rightarrow> wal_read_at \<Rightarrow> 's \<Rightarrow> bool \<times> 's"

definition sqlite_wal_header_size :: nat where
  "sqlite_wal_header_size = 32"

definition sqlite_wal_frame_header_size :: nat where
  "sqlite_wal_frame_header_size = 24"

definition sqlite_wal_magic_le :: u32 where
  "sqlite_wal_magic_le = 0x377f0682"

definition sqlite_wal_magic_be :: u32 where
  "sqlite_wal_magic_be = 0x377f0683"

section \<open>Checksums and header\<close>

definition read_checksum_word :: "bytes \<Rightarrow> bool \<Rightarrow> u32" where
  "read_checksum_word p big_endian = (if big_endian then read_u32_be p else get_u32_le p)"

text \<open>The loop takes eight bytes at a time; every caller passes a multiple of eight.\<close>

fun checksum_bytes :: "bytes \<Rightarrow> bool \<Rightarrow> u32 \<Rightarrow> u32 \<Rightarrow> u32 \<times> u32" where
  "checksum_bytes (a # b # c # d # e # f # g # h # rest) big_endian s0 s1 =
     (let first = read_checksum_word [a, b, c, d] big_endian;
          second = read_checksum_word [e, f, g, h] big_endian;
          s0' = s0 + (first + s1);
          s1' = s1 + (second + s0')
      in checksum_bytes rest big_endian s0' s1')"
| "checksum_bytes _ big_endian s0 s1 = (s0, s1)"

definition otsardb_sqlite_wal_read_header ::
  "wal_read_at \<Rightarrow> nat \<Rightarrow> sqlite_wal_header option" where
  "otsardb_sqlite_wal_read_header read_at wal_size =
     (if wal_size < sqlite_wal_header_size then None
      else case read_at 0 sqlite_wal_header_size of
        None \<Rightarrow> None
      | Some wal \<Rightarrow>
          let magic = read_u32_be wal in
          if magic \<noteq> sqlite_wal_magic_le \<and> magic \<noteq> sqlite_wal_magic_be then None
          else let big_endian = (magic = sqlite_wal_magic_be);
                   page_size = read_u32_be (drop 8 wal) in
            if \<not> valid_page_size page_size then None
            else let (checksum0, checksum1) = checksum_bytes (take 24 wal) big_endian 0 0 in
              if checksum0 \<noteq> read_u32_be (drop 24 wal) \<or> checksum1 \<noteq> read_u32_be (drop 28 wal)
              then None
              else Some \<lparr>wh_page_size = page_size, wh_salt1 = read_u32_be (drop 16 wal),
                         wh_salt2 = read_u32_be (drop 20 wal), wh_checksum0 = checksum0,
                         wh_checksum1 = checksum1, wh_checksum_big_endian = big_endian\<rparr>)"

definition otsardb_sqlite_wal_cursor_reset :: "sqlite_wal_header \<Rightarrow> sqlite_wal_cursor" where
  "otsardb_sqlite_wal_cursor_reset header =
     \<lparr>wc_header = header, wc_frame_count = 0, wc_checksum0 = wh_checksum0 header,
      wc_checksum1 = wh_checksum1 header\<rparr>"

section \<open>The scan\<close>

text \<open>The local variables of \<open>otsardb_sqlite_wal_scan_reader\<close>, the cursor and the callback's context.\<close>

record 's wal_scan =
  ws_offset :: nat
  ws_refs :: "sqlite_wal_frame_ref list"
  ws_checksum0 :: u32
  ws_checksum1 :: u32
  ws_absolute_frame_count :: u32
  ws_valid_frames :: u32
  ws_committed_frames :: u32
  ws_commit_count :: u32
  ws_bytes_read :: nat
  ws_cursor :: sqlite_wal_cursor
  ws_ctx :: 's

datatype 's wal_scan_step = Scan_next "'s wal_scan" | Scan_break "'s wal_scan" | Scan_fail "'s wal_scan"

definition wal_frame_size :: "u32 \<Rightarrow> nat" where
  "wal_frame_size page_size = sqlite_wal_frame_header_size + unat page_size"

text \<open>The validation of one frame: its page number, database size and the checksums after it.\<close>

definition wal_check_frame ::
  "sqlite_wal_header \<Rightarrow> bytes \<Rightarrow> u32 \<Rightarrow> u32 \<Rightarrow> (u32 \<times> u32 \<times> u32 \<times> u32) option" where
  "wal_check_frame header frame checksum0 checksum1 =
     (let page_no = read_u32_be frame;
          database_size_pages = read_u32_be (drop 4 frame) in
      if page_no = 0 \<or> read_u32_be (drop 8 frame) \<noteq> wh_salt1 header \<or>
         read_u32_be (drop 12 frame) \<noteq> wh_salt2 header then None
      else let (c0, c1) = checksum_bytes (take 8 frame) (wh_checksum_big_endian header) checksum0 checksum1;
               (c0', c1') = checksum_bytes
                  (mem_slice frame sqlite_wal_frame_header_size (unat (wh_page_size header)))
                  (wh_checksum_big_endian header) c0 c1 in
        if c0' \<noteq> read_u32_be (drop 16 frame) \<or> c1' \<noteq> read_u32_be (drop 20 frame) then None
        else Some (page_no, database_size_pages, c0', c1'))"

text \<open>A valid frame is remembered; a commit frame calls the callback and moves the cursor.\<close>

definition wal_note_frame :: "u32 \<Rightarrow> u32 \<Rightarrow> u32 \<Rightarrow> u32 \<Rightarrow> 's wal_scan \<Rightarrow> 's wal_scan" where
  "wal_note_frame page_size page_no c0 c1 st =
     st\<lparr>ws_refs := ws_refs st @ [\<lparr>fr_page_no = page_no, fr_frame_offset = ws_offset st\<rparr>],
        ws_absolute_frame_count := ws_absolute_frame_count st + 1,
        ws_valid_frames := ws_valid_frames st + 1,
        ws_checksum0 := c0, ws_checksum1 := c1,
        ws_offset := ws_offset st + wal_frame_size page_size\<rparr>"

definition wal_note_commit :: "'s \<Rightarrow> 's wal_scan \<Rightarrow> 's wal_scan" where
  "wal_note_commit ctx st =
     st\<lparr>ws_ctx := ctx,
        ws_cursor := (ws_cursor st)\<lparr>wc_frame_count := ws_absolute_frame_count st,
           wc_checksum0 := ws_checksum0 st, wc_checksum1 := ws_checksum1 st\<rparr>,
        ws_committed_frames := ws_absolute_frame_count st,
        ws_commit_count := ws_commit_count st + 1,
        ws_refs := []\<rparr>"

definition wal_accept_frame ::
  "wal_read_at \<Rightarrow> u32 \<Rightarrow> 's wal_commit_callback option \<Rightarrow> u32 \<Rightarrow> u32 \<times> u32 \<times> u32 \<times> u32 \<Rightarrow>
   's wal_scan \<Rightarrow> 's wal_scan_step" where
  "wal_accept_frame read_at commit_limit callback page_size fr st =
     (case fr of (page_no, database_size_pages, c0, c1) \<Rightarrow>
      let st' = wal_note_frame page_size page_no c0 c1 st in
      if database_size_pages = 0 then Scan_next st'
      else let (ok, ctx) = (case callback of
                 None \<Rightarrow> (True, ws_ctx st')
               | Some cb \<Rightarrow> cb page_size (ucast database_size_pages) (ws_refs st') read_at (ws_ctx st')) in
        if \<not> ok then Scan_fail (st'\<lparr>ws_ctx := ctx\<rparr>)
        else let st'' = wal_note_commit ctx st' in
          if commit_limit \<noteq> 0 \<and> ws_commit_count st'' \<ge> commit_limit then Scan_break st''
          else Scan_next st'')"

definition wal_scan_body ::
  "wal_read_at \<Rightarrow> u32 \<Rightarrow> 's wal_commit_callback option \<Rightarrow> u32 \<Rightarrow> 's wal_scan \<Rightarrow> 's wal_scan_step" where
  "wal_scan_body read_at commit_limit callback page_size st =
     (case read_at (ws_offset st) (wal_frame_size page_size) of
        None \<Rightarrow> Scan_fail st
      | Some frame \<Rightarrow>
          let st' = st\<lparr>ws_bytes_read := ws_bytes_read st + wal_frame_size page_size\<rparr> in
          (case wal_check_frame (wc_header (ws_cursor st)) frame (ws_checksum0 st) (ws_checksum1 st) of
             None \<Rightarrow> Scan_break st'
           | Some fr \<Rightarrow> wal_accept_frame read_at commit_limit callback page_size fr st'))"

lemma wal_accept_next_offset:
  "wal_accept_frame r l cb p fr st = Scan_next st' \<Longrightarrow> ws_offset st' = ws_offset st + wal_frame_size p"
  by (cases fr) (auto simp: wal_accept_frame_def wal_note_frame_def wal_note_commit_def Let_def
      split: if_splits prod.splits)

lemma wal_scan_next_offset:
  "wal_scan_body r l cb p st = Scan_next st' \<Longrightarrow> ws_offset st' = ws_offset st + wal_frame_size p"
  by (auto simp: wal_scan_body_def Let_def dest!: wal_accept_next_offset split: option.splits)

function wal_scan_loop ::
  "wal_read_at \<Rightarrow> nat \<Rightarrow> u32 \<Rightarrow> 's wal_commit_callback option \<Rightarrow> u32 \<Rightarrow> 's wal_scan \<Rightarrow>
   bool \<times> 's wal_scan" where
  "wal_scan_loop read_at wal_size commit_limit callback page_size st =
     (if ws_offset st \<le> wal_size \<and> wal_size - ws_offset st \<ge> wal_frame_size page_size then
        (case wal_scan_body read_at commit_limit callback page_size st of
           Scan_fail st' \<Rightarrow> (False, st')
         | Scan_break st' \<Rightarrow> (True, st')
         | Scan_next st' \<Rightarrow> wal_scan_loop read_at wal_size commit_limit callback page_size st')
      else (True, st))"
  by pat_completeness auto
termination
  by (relation "measure (\<lambda>(r, n, l, cb, p, st). n - ws_offset st)")
    (auto dest!: wal_scan_next_offset simp: wal_frame_size_def sqlite_wal_frame_header_size_def)

text \<open>The local variables before the first iteration.\<close>

definition wal_scan_start :: "sqlite_wal_cursor \<Rightarrow> 's \<Rightarrow> 's wal_scan" where
  "wal_scan_start cursor ctx =
     \<lparr>ws_offset = sqlite_wal_header_size +
        unat (wc_frame_count cursor) * wal_frame_size (wh_page_size (wc_header cursor)),
      ws_refs = [], ws_checksum0 = wc_checksum0 cursor, ws_checksum1 = wc_checksum1 cursor,
      ws_absolute_frame_count = wc_frame_count cursor, ws_valid_frames = 0,
      ws_committed_frames = wc_frame_count cursor, ws_commit_count = 0, ws_bytes_read = 0,
      ws_cursor = cursor, ws_ctx = ctx\<rparr>"

definition wal_scan_zero :: sqlite_wal_scan_result where
  "wal_scan_zero = \<lparr>sr_page_size = 0, sr_salt1 = 0, sr_salt2 = 0, sr_valid_frames = 0,
     sr_committed_frames = 0, sr_commit_count = 0, sr_bytes_read = 0\<rparr>"

text \<open>
  Success, the cursor, the callback's context and the result; the cursor keeps the commits that
  were processed before a failure.
\<close>

definition otsardb_sqlite_wal_scan_reader ::
  "wal_read_at \<Rightarrow> nat \<Rightarrow> sqlite_wal_cursor \<Rightarrow> u32 \<Rightarrow> 's wal_commit_callback option \<Rightarrow> 's \<Rightarrow>
   bool \<times> sqlite_wal_cursor \<times> 's \<times> sqlite_wal_scan_result" where
  "otsardb_sqlite_wal_scan_reader read_at wal_size cursor commit_limit callback ctx =
     (let page_size = wh_page_size (wc_header cursor);
          frame_size = wal_frame_size page_size in
      if page_size = 0 then (False, cursor, ctx, wal_scan_zero)
      else if unat (wc_frame_count cursor) > (size_max - sqlite_wal_header_size) div frame_size
      then (False, cursor, ctx, wal_scan_zero)
      else if sqlite_wal_header_size + unat (wc_frame_count cursor) * frame_size > wal_size
      then (False, cursor, ctx, wal_scan_zero)
      else let (ok, st) = wal_scan_loop read_at wal_size commit_limit callback page_size
                            (wal_scan_start cursor ctx) in
        (ok, ws_cursor st, ws_ctx st,
         if ok then \<lparr>sr_page_size = page_size, sr_salt1 = wh_salt1 (wc_header (ws_cursor st)),
                      sr_salt2 = wh_salt2 (wc_header (ws_cursor st)),
                      sr_valid_frames = ws_valid_frames st,
                      sr_committed_frames = ws_committed_frames st,
                      sr_commit_count = ws_commit_count st, sr_bytes_read = ws_bytes_read st\<rparr>
         else wal_scan_zero))"

definition memory_read_at :: "bytes \<Rightarrow> wal_read_at" where
  "memory_read_at data offset n =
     (if offset > length data \<or> n > length data - offset then None
      else Some (mem_slice data offset n))"

definition otsardb_sqlite_wal_scan ::
  "bytes \<Rightarrow> 's wal_commit_callback option \<Rightarrow> 's \<Rightarrow> bool \<times> 's \<times> sqlite_wal_scan_result" where
  "otsardb_sqlite_wal_scan wal_data callback ctx =
     (if length wal_data < sqlite_wal_header_size then (False, ctx, wal_scan_zero)
      else case otsardb_sqlite_wal_read_header (memory_read_at wal_data) (length wal_data) of
        None \<Rightarrow> (False, ctx, wal_scan_zero)
      | Some header \<Rightarrow>
          let (ok, cursor, ctx', scan) =
                otsardb_sqlite_wal_scan_reader (memory_read_at wal_data) (length wal_data)
                  (otsardb_sqlite_wal_cursor_reset header) 0 callback ctx in
          if \<not> ok then (False, ctx', wal_scan_zero)
          else (True, ctx', scan\<lparr>sr_bytes_read := sr_bytes_read scan + sqlite_wal_header_size\<rparr>))"

section \<open>Invariant of the scan\<close>

text \<open>
  Where a cursor stands in the WAL, and what the scan keeps: the frames seen since the last commit
  lie between the cursor and the offset, and with none pending the running checksum is the cursor's.
\<close>

definition cursor_offset :: "sqlite_wal_cursor \<Rightarrow> nat" where
  "cursor_offset cursor = sqlite_wal_header_size +
     unat (wc_frame_count cursor) * wal_frame_size (wh_page_size (wc_header cursor))"

definition wal_scan_inv :: "nat \<Rightarrow> u32 \<Rightarrow> 's wal_scan \<Rightarrow> bool" where
  "wal_scan_inv wal_size page_size st \<longleftrightarrow>
     wh_page_size (wc_header (ws_cursor st)) = page_size \<and>
     ws_offset st = sqlite_wal_header_size +
        unat (ws_absolute_frame_count st) * wal_frame_size page_size \<and>
     ws_offset st \<le> wal_size \<and>
     unat (ws_absolute_frame_count st) =
        unat (wc_frame_count (ws_cursor st)) + length (ws_refs st) \<and>
     (ws_refs st = [] \<longrightarrow> ws_checksum0 st = wc_checksum0 (ws_cursor st) \<and>
                           ws_checksum1 st = wc_checksum1 (ws_cursor st)) \<and>
     (\<forall>f\<in>set (ws_refs st). fr_frame_offset f + wal_frame_size page_size \<le> ws_offset st \<and>
                            fr_page_no f \<noteq> 0)"

text \<open>A WAL of fewer than \<open>2 ^ 32\<close> frames, so that no frame counter wraps.\<close>

definition wal_fits :: "nat \<Rightarrow> u32 \<Rightarrow> bool" where
  "wal_fits wal_size page_size \<longleftrightarrow>
     wal_size < sqlite_wal_header_size + 2 ^ 32 * wal_frame_size page_size"

lemma wal_frame_size_pos: "0 < wal_frame_size page_size"
  by (simp add: wal_frame_size_def sqlite_wal_frame_header_size_def)

lemma wal_scan_start_inv:
  assumes "wh_page_size (wc_header cursor) = page_size" "cursor_offset cursor \<le> wal_size"
  shows "wal_scan_inv wal_size page_size (wal_scan_start cursor ctx)"
  using assms by (simp add: wal_scan_inv_def wal_scan_start_def cursor_offset_def)

lemma wal_scan_inv_cursor:
  assumes "wal_scan_inv n p st"
  shows "cursor_offset (ws_cursor st) \<le> ws_offset st" "ws_offset st \<le> n"
  using assms by (auto simp: wal_scan_inv_def cursor_offset_def)

lemma unat_frame_count_Suc:
  assumes "wal_fits wal_size page_size"
    "sqlite_wal_header_size + unat (c :: u32) * wal_frame_size page_size + wal_frame_size page_size \<le> wal_size"
  shows "unat (c + 1) = unat c + 1"
proof -
  have "(unat c + 1) * wal_frame_size page_size < 2 ^ 32 * wal_frame_size page_size"
    using assms unfolding wal_fits_def distrib_right by linarith
  then have "unat c + 1 < 2 ^ 32"
    unfolding mult_less_cancel2 by blast
  then have "unat c + 1 < 2 ^ LENGTH(32)" by simp
  then show ?thesis
    by (simp add: unat_word_ariths)
qed

text \<open>One iteration either leaves the cursor alone or moves it just behind the frame.\<close>

definition wal_moved :: "u32 \<Rightarrow> 's wal_scan \<Rightarrow> 's wal_scan \<Rightarrow> bool" where
  "wal_moved page_size st st' \<longleftrightarrow>
     wc_header (ws_cursor st') = wc_header (ws_cursor st) \<and>
     (ws_cursor st' = ws_cursor st \<and> ws_ctx st' = ws_ctx st \<or>
      cursor_offset (ws_cursor st') = ws_offset st + wal_frame_size page_size \<and> ws_refs st' = [] \<and>
      ws_offset st' = ws_offset st + wal_frame_size page_size)"

lemma wal_note_frame_inv:
  assumes inv: "wal_scan_inv wal_size page_size st" and fits: "wal_fits wal_size page_size"
    and room: "ws_offset st + wal_frame_size page_size \<le> wal_size" and nz: "page_no \<noteq> 0"
  shows "wal_scan_inv wal_size page_size (wal_note_frame page_size page_no c0 c1 st)"
proof -
  have cnt: "unat (ws_absolute_frame_count st + 1) = unat (ws_absolute_frame_count st) + 1"
    using unat_frame_count_Suc [OF fits, of "ws_absolute_frame_count st"] inv room
    by (simp add: wal_scan_inv_def)
  have refs: "fr_frame_offset f + wal_frame_size page_size \<le> ws_offset st + wal_frame_size page_size"
    if "f \<in> set (ws_refs st)" for f
    using inv that by (auto simp: wal_scan_inv_def dest!: bspec)
  have cons: "wh_page_size (wc_header (ws_cursor st)) = page_size"
    "ws_offset st + wal_frame_size page_size =
       sqlite_wal_header_size + (unat (ws_absolute_frame_count st) + 1) * wal_frame_size page_size"
    "unat (ws_absolute_frame_count st) + 1 =
       unat (wc_frame_count (ws_cursor st)) + (length (ws_refs st) + 1)"
    "\<forall>f\<in>set (ws_refs st). fr_page_no f \<noteq> 0"
    using inv by (auto simp: wal_scan_inv_def)
  show ?thesis
    using cons room refs nz unfolding wal_scan_inv_def wal_note_frame_def
    by (simp add: cnt)
qed

lemma wal_note_commit_inv:
  assumes "wal_scan_inv wal_size page_size st"
  shows "wal_scan_inv wal_size page_size (wal_note_commit ctx st)"
    "cursor_offset (ws_cursor (wal_note_commit ctx st)) = ws_offset st"
  using assms by (auto simp: wal_scan_inv_def wal_note_commit_def cursor_offset_def)

lemma wal_note_simps [simp]:
  "ws_offset (wal_note_frame p n c0 c1 st) = ws_offset st + wal_frame_size p"
  "ws_cursor (wal_note_frame p n c0 c1 st) = ws_cursor st"
  "ws_ctx (wal_note_frame p n c0 c1 st) = ws_ctx st"
  "ws_refs (wal_note_frame p n c0 c1 st) = ws_refs st @ [\<lparr>fr_page_no = n, fr_frame_offset = ws_offset st\<rparr>]"
  "ws_offset (wal_note_commit ctx st) = ws_offset st"
  "ws_refs (wal_note_commit ctx st) = []"
  "ws_ctx (wal_note_commit ctx st) = ctx"
  "wc_header (ws_cursor (wal_note_commit ctx st)) = wc_header (ws_cursor st)"
  by (simp_all add: wal_note_frame_def wal_note_commit_def)

lemma wal_accept_inv:
  assumes inv: "wal_scan_inv wal_size page_size st" and fits: "wal_fits wal_size page_size"
    and room: "ws_offset st + wal_frame_size page_size \<le> wal_size" and nz: "fst fr \<noteq> 0"
    and step: "wal_accept_frame r l cb page_size fr st = Scan_next st' \<or>
               wal_accept_frame r l cb page_size fr st = Scan_break st'"
  shows "wal_scan_inv wal_size page_size st' \<and> wal_moved page_size st st'"
proof -
  obtain page_no db c0 c1 where fr: "fr = (page_no, db, c0, c1)" by (cases fr)
  let ?st = "wal_note_frame page_size page_no c0 c1 st"
  have inv': "wal_scan_inv wal_size page_size ?st"
    using wal_note_frame_inv [OF inv fits room] nz by (simp add: fr)
  from step consider "st' = ?st" | ctx where "st' = wal_note_commit ctx ?st"
    by (auto simp: fr wal_accept_frame_def Let_def split: if_splits prod.splits)
  then show ?thesis
    using inv' wal_note_commit_inv [OF inv'] by cases (simp_all add: wal_moved_def)
qed

lemma wal_accept_fail_cursor:
  "wal_accept_frame r l cb page_size fr st = Scan_fail st' \<Longrightarrow> ws_cursor st' = ws_cursor st"
  by (cases fr) (auto simp: wal_accept_frame_def wal_note_frame_def Let_def split: if_splits prod.splits)

lemma wal_check_frame_page_no: "wal_check_frame h f c0 c1 = Some fr \<Longrightarrow> fst fr \<noteq> 0"
  by (auto simp: wal_check_frame_def Let_def split: if_splits prod.splits)

lemma wal_scan_body_inv:
  assumes inv: "wal_scan_inv wal_size page_size st" and fits: "wal_fits wal_size page_size"
    and room: "ws_offset st + wal_frame_size page_size \<le> wal_size"
    and step: "wal_scan_body r l cb page_size st = Scan_next st' \<or>
               wal_scan_body r l cb page_size st = Scan_break st'"
  shows "wal_scan_inv wal_size page_size st' \<and> wal_moved page_size st st'"
proof -
  obtain frame where frame: "r (ws_offset st) (wal_frame_size page_size) = Some frame"
    using step by (auto simp: wal_scan_body_def split: option.splits)
  let ?st = "st\<lparr>ws_bytes_read := ws_bytes_read st + wal_frame_size page_size\<rparr>"
  have inv': "wal_scan_inv wal_size page_size ?st" and mv: "wal_moved page_size ?st st' \<Longrightarrow> wal_moved page_size st st'"
    using inv by (auto simp: wal_scan_inv_def wal_moved_def)
  show ?thesis
  proof (cases "wal_check_frame (wc_header (ws_cursor st)) frame (ws_checksum0 st) (ws_checksum1 st)")
    case None
    then show ?thesis using step inv frame
      by (auto simp: wal_scan_body_def wal_scan_inv_def wal_moved_def)
  next
    case (Some fr)
    then have "wal_accept_frame r l cb page_size fr ?st = Scan_next st' \<or>
               wal_accept_frame r l cb page_size fr ?st = Scan_break st'"
      using step frame by (simp add: wal_scan_body_def)
    then show ?thesis
      using wal_accept_inv [OF inv' fits _ wal_check_frame_page_no [OF Some]] room mv by simp
  qed
qed

lemma wal_scan_body_fail_cursor:
  "wal_scan_body r l cb page_size st = Scan_fail st' \<Longrightarrow> ws_cursor st' = ws_cursor st"
  by (auto simp: wal_scan_body_def Let_def dest: wal_accept_fail_cursor split: option.splits)

lemma wal_scan_loop_inv:
  assumes "wal_scan_inv wal_size page_size st" "wal_fits wal_size page_size"
    "wal_scan_loop r wal_size l cb page_size st = (True, st1)"
  shows "wal_scan_inv wal_size page_size st1 \<and> wc_header (ws_cursor st1) = wc_header (ws_cursor st) \<and>
         (ws_cursor st1 = ws_cursor st \<and> ws_ctx st1 = ws_ctx st \<or>
          ws_offset st + wal_frame_size page_size \<le> cursor_offset (ws_cursor st1))"
  using assms
proof (induction r wal_size l cb page_size st rule: wal_scan_loop.induct)
  case (1 r wal_size l cb page_size st)
  show ?case
  proof (cases "ws_offset st \<le> wal_size \<and> wal_size - ws_offset st \<ge> wal_frame_size page_size")
    case True
    then have room: "ws_offset st + wal_frame_size page_size \<le> wal_size" by linarith
    note body = wal_scan_body_inv [OF 1(2,3) room]
    show ?thesis
    proof (cases "wal_scan_body r l cb page_size st")
      case (Scan_next st')
      then have inv: "wal_scan_inv wal_size page_size st'" "wal_moved page_size st st'"
        using body by blast+
      have loop: "wal_scan_loop r wal_size l cb page_size st' = (True, st1)"
        using 1(4) True Scan_next by (simp add: wal_scan_loop.simps [of r wal_size l cb page_size st])
      show ?thesis
        using 1(1) [OF True Scan_next inv(1) 1(3) loop] inv(2) wal_scan_next_offset [OF Scan_next]
        by (auto simp: wal_moved_def)
    next
      case (Scan_break st')
      then have "st1 = st'" using 1(4) True by simp
      then show ?thesis using body [of r l cb st'] Scan_break by (auto simp: wal_moved_def)
    next
      case (Scan_fail st')
      then show ?thesis using 1(4) True by simp
    qed
  next
    case False
    then show ?thesis using 1(2,4) by (auto simp: not_le)
  qed
qed

section \<open>Resuming a scan\<close>

text \<open>The counters reported to the caller play no role for the cursor and the callbacks.\<close>

definition wal_core :: "'s wal_scan \<Rightarrow> 's wal_scan" where
  "wal_core st = st\<lparr>ws_valid_frames := 0, ws_committed_frames := 0, ws_commit_count := 0, ws_bytes_read := 0\<rparr>"

fun wal_core_step :: "'s wal_scan_step \<Rightarrow> 's wal_scan_step" where
  "wal_core_step (Scan_next st) = Scan_next (wal_core st)"
| "wal_core_step (Scan_break st) = Scan_break (wal_core st)"
| "wal_core_step (Scan_fail st) = Scan_fail (wal_core st)"

lemma wal_core_eq:
  "wal_core st = wal_core st' \<longleftrightarrow>
     ws_offset st = ws_offset st' \<and> ws_refs st = ws_refs st' \<and> ws_checksum0 st = ws_checksum0 st' \<and>
     ws_checksum1 st = ws_checksum1 st' \<and>
     ws_absolute_frame_count st = ws_absolute_frame_count st' \<and> ws_cursor st = ws_cursor st' \<and>
     ws_ctx st = ws_ctx st'"
  by (cases st; cases st') (auto simp: wal_core_def)

lemma wal_note_core:
  "wal_core st = wal_core st' \<Longrightarrow>
   wal_core (wal_note_frame p n c0 c1 st) = wal_core (wal_note_frame p n c0 c1 st')"
  "wal_core st = wal_core st' \<Longrightarrow> wal_core (wal_note_commit ctx st) = wal_core (wal_note_commit ctx st')"
  "wal_core st = wal_core st' \<Longrightarrow> wal_core (st\<lparr>ws_ctx := ctx\<rparr>) = wal_core (st'\<lparr>ws_ctx := ctx\<rparr>)"
  "wal_core st = wal_core st' \<Longrightarrow>
   wal_core (st\<lparr>ws_bytes_read := n1\<rparr>) = wal_core (st'\<lparr>ws_bytes_read := n2\<rparr>)"
  unfolding wal_core_eq by (simp_all add: wal_note_frame_def wal_note_commit_def)

text \<open>A callback that reads the WAL only at the frames it is given.\<close>

definition reads_refs :: "'s wal_commit_callback option \<Rightarrow> bool" where
  "reads_refs callback \<longleftrightarrow>
     (\<forall>cb. callback = Some cb \<longrightarrow>
        (\<forall>ps db refs r r' ctx.
           (\<forall>f\<in>set refs. r (fr_frame_offset f) (wal_frame_size ps) = r' (fr_frame_offset f) (wal_frame_size ps)) \<longrightarrow>
           cb ps db refs r ctx = cb ps db refs r' ctx))"

lemma reads_refsD:
  assumes "reads_refs callback" "callback = Some cb"
    "\<forall>f\<in>set refs. r (fr_frame_offset f) (wal_frame_size ps) = r' (fr_frame_offset f) (wal_frame_size ps)"
  shows "cb ps db refs r ctx = cb ps db refs r' ctx"
  using assms unfolding reads_refs_def by blast

lemma wal_accept_core:
  assumes core: "wal_core st = wal_core st'" and cb: "reads_refs cb"
    and refs: "\<forall>f\<in>set (ws_refs st). r (fr_frame_offset f) (wal_frame_size p) = r' (fr_frame_offset f) (wal_frame_size p)"
    and this_frame: "r (ws_offset st) (wal_frame_size p) = r' (ws_offset st) (wal_frame_size p)"
  shows "wal_core_step (wal_accept_frame r 0 cb p fr st) = wal_core_step (wal_accept_frame r' 0 cb p fr st')"
proof -
  obtain page_no db c0 c1 where fr: "fr = (page_no, db, c0, c1)" by (cases fr)
  have eqs: "ws_ctx st = ws_ctx st'" "ws_refs st = ws_refs st'" "ws_offset st = ws_offset st'"
    using core by (simp_all add: wal_core_eq)
  have call: "c p (ucast db) (ws_refs st @ [\<lparr>fr_page_no = page_no, fr_frame_offset = ws_offset st\<rparr>]) r (ws_ctx st) =
      c p (ucast db) (ws_refs st @ [\<lparr>fr_page_no = page_no, fr_frame_offset = ws_offset st\<rparr>]) r' (ws_ctx st)"
    if "cb = Some c" for c
    using refs this_frame by (intro reads_refsD [OF cb that]) auto
  show ?thesis
    using wal_note_core [OF core] wal_note_core [OF wal_note_core(1) [OF core]] call
    by (cases cb) (auto simp: fr wal_accept_frame_def Let_def eqs split: prod.splits)
qed

lemma wal_body_core:
  assumes core: "wal_core st = wal_core st'" and cb: "reads_refs cb"
    and refs: "\<forall>f\<in>set (ws_refs st). r (fr_frame_offset f) (wal_frame_size p) = r' (fr_frame_offset f) (wal_frame_size p)"
    and this_frame: "r (ws_offset st) (wal_frame_size p) = r' (ws_offset st) (wal_frame_size p)"
  shows "wal_core_step (wal_scan_body r 0 cb p st) = wal_core_step (wal_scan_body r' 0 cb p st')"
proof -
  let ?b = "\<lambda>st. st\<lparr>ws_bytes_read := ws_bytes_read st + wal_frame_size p\<rparr>"
  have eqs: "ws_offset st = ws_offset st'" "ws_cursor st = ws_cursor st'"
    "ws_checksum0 st = ws_checksum0 st'" "ws_checksum1 st = ws_checksum1 st'"
    using core by (simp_all add: wal_core_eq)
  have core': "wal_core (?b st) = wal_core (?b st')" by (rule wal_note_core(4) [OF core])
  have "wal_core_step (wal_accept_frame r 0 cb p fr (?b st)) = wal_core_step (wal_accept_frame r' 0 cb p fr (?b st'))" for fr
    by (rule wal_accept_core [OF core' cb]) (use refs this_frame in simp_all)
  then show ?thesis
    using this_frame core core' eqs by (simp add: wal_scan_body_def Let_def split: option.split)
qed

lemma wal_core_step_cases:
  "wal_core_step a = wal_core_step b \<Longrightarrow>
   (\<exists>x y. a = Scan_next x \<and> b = Scan_next y \<and> wal_core x = wal_core y) \<or>
   (\<exists>x y. a = Scan_break x \<and> b = Scan_break y \<and> wal_core x = wal_core y) \<or>
   (\<exists>x y. a = Scan_fail x \<and> b = Scan_fail y \<and> wal_core x = wal_core y)"
  by (cases a; cases b) simp_all

lemma wal_loop_core:
  assumes "wal_core st = wal_core st'" "reads_refs cb"
  shows "map_prod id wal_core (wal_scan_loop r n 0 cb p st) = map_prod id wal_core (wal_scan_loop r n 0 cb p st')"
  using assms
proof (induction r n "0 :: u32" cb p st arbitrary: st' rule: wal_scan_loop.induct)
  case (1 r n cb p st)
  have off: "ws_offset st' = ws_offset st" using 1(2) by (simp add: wal_core_eq)
  show ?case
  proof (cases "ws_offset st \<le> n \<and> n - ws_offset st \<ge> wal_frame_size p")
    case True
    have "wal_core_step (wal_scan_body r 0 cb p st) = wal_core_step (wal_scan_body r 0 cb p st')"
      by (rule wal_body_core [OF 1(2,3)]) simp_all
    then show ?thesis
      using wal_core_step_cases 1(1) [OF True _ _ 1(3)] True off
      by (auto simp: wal_scan_loop.simps [of r n 0 cb p st] wal_scan_loop.simps [of r n 0 cb p st']
          dest!: wal_core_step_cases simp del: wal_scan_loop.simps)
  next
    case False
    then show ?thesis using 1(2) off by auto
  qed
qed

lemma wal_core_restart:
  assumes "wal_scan_inv n p st" "ws_refs st = []"
  shows "wal_core (wal_scan_start (ws_cursor st) (ws_ctx st)) = wal_core st"
proof -
  have "unat (ws_absolute_frame_count st) = unat (wc_frame_count (ws_cursor st))"
    using assms by (auto simp: wal_scan_inv_def)
  then have "ws_absolute_frame_count st = wc_frame_count (ws_cursor st)"
    by (rule unsigned_word_eqI)
  then show ?thesis
    using assms by (auto simp: wal_core_eq wal_scan_start_def wal_scan_inv_def)
qed

lemma wal_scan_break_cursor:
  "wal_scan_body r 0 cb p st = Scan_break st' \<Longrightarrow> ws_cursor st' = ws_cursor st"
  by (auto simp: wal_scan_body_def wal_accept_frame_def Let_def split: option.splits prod.splits if_splits)

text \<open>
  The heart of resuming: when a scan got as far as a further commit, a second scan over the same
  frames up to there, whatever comes after them, passes through the state of the new cursor.
\<close>

lemma wal_resume_loop:
  assumes "wal_scan_inv n1 p st" "wal_fits n1 p" "n1 \<le> n2" "reads_refs cb"
    "wal_scan_loop r1 n1 0 cb p st = (True, st1)"
    "ws_offset st + wal_frame_size p \<le> cursor_offset (ws_cursor st1)"
    "\<forall>off. off + wal_frame_size p \<le> cursor_offset (ws_cursor st1) \<longrightarrow>
           r1 off (wal_frame_size p) = r2 off (wal_frame_size p)"
  shows "map_prod id wal_core (wal_scan_loop r2 n2 0 cb p st) =
         map_prod id wal_core (wal_scan_loop r2 n2 0 cb p (wal_scan_start (ws_cursor st1) (ws_ctx st1)))"
  using assms
proof (induction r1 n1 "0 :: u32" cb p st rule: wal_scan_loop.induct)
  case (1 r1 n1 cb p st)
  let ?fs = "wal_frame_size p"
  note fs = wal_frame_size_pos [of p]
  have old: "cursor_offset (ws_cursor st) \<le> ws_offset st"
    by (rule wal_scan_inv_cursor [OF 1(2)])
  have room: "ws_offset st \<le> n1 \<and> n1 - ws_offset st \<ge> ?fs"
  proof (rule ccontr)
    assume "\<not> (ws_offset st \<le> n1 \<and> n1 - ws_offset st \<ge> ?fs)"
    then have "st1 = st" using 1(6) by auto
    then show False using 1(7) old fs by simp
  qed
  then have room': "ws_offset st + ?fs \<le> n1" by linarith
  have refs: "\<forall>f\<in>set (ws_refs st). r1 (fr_frame_offset f) ?fs = r2 (fr_frame_offset f) ?fs"
    using 1(2,7,8) by (auto simp: wal_scan_inv_def)
  have same: "wal_core_step (wal_scan_body r1 0 cb p st) = wal_core_step (wal_scan_body r2 0 cb p st)"
    by (rule wal_body_core) (use 1(5,7,8) refs in auto)
  show ?case
  proof (cases "wal_scan_body r1 0 cb p st")
    case (Scan_next st')
    then obtain st2 where next2: "wal_scan_body r2 0 cb p st = Scan_next st2" and core2: "wal_core st' = wal_core st2"
      using wal_core_step_cases [OF same] by auto
    have unfold2: "wal_scan_loop r2 n2 0 cb p st = wal_scan_loop r2 n2 0 cb p st2"
      using next2 room' 1(4) by (subst wal_scan_loop.simps) auto
    have inv': "wal_scan_inv n1 p st'" and mv: "wal_moved p st st'"
      using wal_scan_body_inv [OF 1(2,3) room'] Scan_next by blast+
    have loop': "wal_scan_loop r1 n1 0 cb p st' = (True, st1)"
      using 1(6) room Scan_next by (simp add: wal_scan_loop.simps [of r1 n1 0 cb p st])
    have off': "ws_offset st' = ws_offset st + ?fs" by (rule wal_scan_next_offset [OF Scan_next])
    have step: "map_prod id wal_core (wal_scan_loop r2 n2 0 cb p st) =
        map_prod id wal_core (wal_scan_loop r2 n2 0 cb p st')"
      unfolding unfold2 by (rule wal_loop_core [OF core2 [symmetric] 1(5)])
    show ?thesis
    proof (cases "ws_offset st' + ?fs \<le> cursor_offset (ws_cursor st1)")
      case True
      then show ?thesis
        using step 1(1) [OF room Scan_next inv' 1(3,4,5) loop' True 1(8)] by simp
    next
      case False
      then have same1: "ws_cursor st1 = ws_cursor st'" "ws_ctx st1 = ws_ctx st'"
        using wal_scan_loop_inv [OF inv' 1(3) loop'] by auto
      then have "ws_refs st' = []"
        using mv 1(7) old fs by (auto simp: wal_moved_def)
      then show ?thesis
        using step wal_loop_core [OF wal_core_restart [OF inv'] 1(5)] same1 by simp
    qed
  next
    case (Scan_break st')
    then have "st1 = st'" using 1(6) room by simp
    then have "ws_cursor st1 = ws_cursor st" using wal_scan_break_cursor [OF Scan_break] by simp
    then show ?thesis using 1(7) old fs by simp
  next
    case (Scan_fail st')
    then show ?thesis using 1(6) room by simp
  qed
qed

lemma wal_scan_reader_eq:
  assumes "wh_page_size (wc_header cursor) = p" "p \<noteq> 0" "cursor_offset cursor \<le> n" "n \<le> size_max"
  shows "otsardb_sqlite_wal_scan_reader r n cursor l cb ctx =
     (let (ok, st) = wal_scan_loop r n l cb p (wal_scan_start cursor ctx) in
        (ok, ws_cursor st, ws_ctx st,
         if ok then \<lparr>sr_page_size = p, sr_salt1 = wh_salt1 (wc_header (ws_cursor st)),
                      sr_salt2 = wh_salt2 (wc_header (ws_cursor st)),
                      sr_valid_frames = ws_valid_frames st,
                      sr_committed_frames = ws_committed_frames st,
                      sr_commit_count = ws_commit_count st, sr_bytes_read = ws_bytes_read st\<rparr>
         else wal_scan_zero))"
proof -
  have "unat (wc_frame_count cursor) * wal_frame_size p \<le> size_max - sqlite_wal_header_size"
    using assms by (simp add: cursor_offset_def)
  then have "unat (wc_frame_count cursor) \<le> (size_max - sqlite_wal_header_size) div wal_frame_size p"
    by (simp add: less_eq_div_iff_mult_less_eq wal_frame_size_pos)
  then show ?thesis
    using assms by (simp add: otsardb_sqlite_wal_scan_reader_def cursor_offset_def)
qed

lemma wal_scan_reader_ok:
  assumes "otsardb_sqlite_wal_scan_reader r n cursor l cb ctx = (True, cursor1, ctx1, res)"
  obtains st1 where "wh_page_size (wc_header cursor) \<noteq> 0" "cursor_offset cursor \<le> n"
    "wal_scan_loop r n l cb (wh_page_size (wc_header cursor)) (wal_scan_start cursor ctx) = (True, st1)"
    "cursor1 = ws_cursor st1" "ctx1 = ws_ctx st1"
  using assms
  by (auto simp: otsardb_sqlite_wal_scan_reader_def cursor_offset_def Let_def
      split: if_splits prod.splits)

lemma memory_read_at_append:
  "off + n \<le> length a \<Longrightarrow> memory_read_at (a @ b) off n = memory_read_at a off n"
  by (auto simp: memory_read_at_def mem_slice_def)

section \<open>Properties\<close>

text \<open>
  (C14) Scanning the WAL in several sittings equals scanning it at once: after a successful scan,
  scanning on from the cursor it left gives the same success, cursor and callback context as
  scanning everything from the start, for every later WAL that agrees up to the last commit.
  What follows the last commit, the uncommitted tail, may have changed in the meantime.
\<close>

theorem wal_scan_resume:
  assumes scan: "otsardb_sqlite_wal_scan_reader r1 n1 cursor 0 cb ctx = (True, cursor1, ctx1, res)"
    and sizes: "wal_fits n1 (wh_page_size (wc_header cursor))" "n1 \<le> n2" "n2 \<le> size_max"
    and cb: "reads_refs cb"
    and agree: "\<forall>off. off + wal_frame_size (wh_page_size (wc_header cursor)) \<le> cursor_offset cursor1 \<longrightarrow>
           r1 off (wal_frame_size (wh_page_size (wc_header cursor))) =
           r2 off (wal_frame_size (wh_page_size (wc_header cursor)))"
  shows "\<exists>ok cursor2 ctx2 res2 res2'.
           otsardb_sqlite_wal_scan_reader r2 n2 cursor 0 cb ctx = (ok, cursor2, ctx2, res2) \<and>
           otsardb_sqlite_wal_scan_reader r2 n2 cursor1 0 cb ctx1 = (ok, cursor2, ctx2, res2')"
proof -
  let ?p = "wh_page_size (wc_header cursor)"
  obtain st1 where st1: "?p \<noteq> 0" "cursor_offset cursor \<le> n1"
      "wal_scan_loop r1 n1 0 cb ?p (wal_scan_start cursor ctx) = (True, st1)"
      "cursor1 = ws_cursor st1" "ctx1 = ws_ctx st1"
    by (rule wal_scan_reader_ok [OF scan])
  have inv: "wal_scan_inv n1 ?p (wal_scan_start cursor ctx)"
    by (rule wal_scan_start_inv [OF refl st1(2)])
  note run = wal_scan_loop_inv [OF inv sizes(1) st1(3)]
  obtain oka sta okb stb where
    a: "wal_scan_loop r2 n2 0 cb ?p (wal_scan_start cursor ctx) = (oka, sta)" and
    b: "wal_scan_loop r2 n2 0 cb ?p (wal_scan_start cursor1 ctx1) = (okb, stb)"
    by fastforce
  have "map_prod id wal_core (oka, sta) = map_prod id wal_core (okb, stb)"
  proof (cases "ws_cursor st1 = cursor \<and> ws_ctx st1 = ctx")
    case True
    then show ?thesis using a b by (simp add: st1(4,5) del: wal_scan_loop.simps)
  next
    case False
    then have "ws_offset (wal_scan_start cursor ctx) + wal_frame_size ?p \<le> cursor_offset (ws_cursor st1)"
      using run by (auto simp: wal_scan_start_def)
    then show ?thesis
      using wal_resume_loop [OF inv sizes(1,2) cb st1(3), of r2] agree st1(4,5) a b by (simp del: wal_scan_loop.simps)
  qed
  then have same: "oka = okb" "ws_cursor sta = ws_cursor stb" "ws_ctx sta = ws_ctx stb"
    by (auto simp: wal_core_eq)
  have off: "cursor_offset cursor1 \<le> n2"
    using wal_scan_inv_cursor [OF conjunct1 [OF run]] st1(4) sizes(2) by (meson order_trans)
  have hdr: "wh_page_size (wc_header cursor1) = ?p"
    using run st1(4) by (simp add: wal_scan_start_def)
  show ?thesis
    using wal_scan_reader_eq [OF refl st1(1) _ sizes(3), of r2 0 cb ctx] st1(2) sizes(2)
      wal_scan_reader_eq [OF hdr st1(1) off sizes(3), of r2 0 cb ctx1]
    by (simp add: a b same del: wal_scan_loop.simps)
qed

text \<open>Two frames with page size 8: the first is in the WAL from the start, the second is appended.\<close>

definition sample_cursor :: sqlite_wal_cursor where
  "sample_cursor = \<lparr>wc_header = \<lparr>wh_page_size = 8, wh_salt1 = 1, wh_salt2 = 2, wh_checksum0 = 0,
     wh_checksum1 = 0, wh_checksum_big_endian = True\<rparr>, wc_frame_count = 0, wc_checksum0 = 0, wc_checksum1 = 0\<rparr>"

definition sample_wal :: bytes where
  "sample_wal = replicate 32 0 @
     [0,0,0,1, 0,0,0,1, 0,0,0,1, 0,0,0,2, 0,0,0,3, 0,0,0,5, 0,0,0,0, 0,0,0,0]"

definition sample_tail :: bytes where
  "sample_tail = [0,0,0,2, 0,0,0,2, 0,0,0,1, 0,0,0,2, 0,0,0,27, 0,0,0,44, 0,0,0,0, 0,0,0,0]"

definition sample_callback :: "nat list wal_commit_callback" where
  "sample_callback page_size db refs read_at ctx = (True, ctx @ [unat db])"

lemma length_sample_wal: "length sample_wal = 64"
  by (simp add: sample_wal_def)

lemma sample_scan:
  "otsardb_sqlite_wal_scan_reader (memory_read_at sample_wal) 64 sample_cursor 0 (Some sample_callback) [] =
     (True, sample_cursor\<lparr>wc_frame_count := 1, wc_checksum0 := 3, wc_checksum1 := 5\<rparr>, [1],
      \<lparr>sr_page_size = 8, sr_salt1 = 1, sr_salt2 = 2, sr_valid_frames = 1, sr_committed_frames = 1,
       sr_commit_count = 1, sr_bytes_read = 32\<rparr>)"
proof -
  have "wal_check_frame (wc_header sample_cursor)
     [0,0,0,1, 0,0,0,1, 0,0,0,1, 0,0,0,2, 0,0,0,3, 0,0,0,5, 0,0,0,0, 0,0,0,0] 0 0 = Some (1, 1, 3, 5)"
    by (simp add: wal_check_frame_def sample_cursor_def read_u32_be_def read_checksum_word_def mem_slice_def
      sqlite_wal_frame_header_size_def)
  moreover have "memory_read_at sample_wal 32 32 =
     Some [0,0,0,1, 0,0,0,1, 0,0,0,1, 0,0,0,2, 0,0,0,3, 0,0,0,5, 0,0,0,0, 0,0,0,0]"
    by (simp add: memory_read_at_def sample_wal_def mem_slice_def)
  ultimately show ?thesis
    by (simp add: otsardb_sqlite_wal_scan_reader_def sample_cursor_def wal_frame_size_def sqlite_wal_header_size_def
        sqlite_wal_frame_header_size_def size_max_def wal_scan_start_def wal_scan_body_def
        wal_accept_frame_def wal_note_frame_def wal_note_commit_def sample_callback_def)
qed

theorem wal_scan_resume_witness:
  "\<exists>ok cursor2 ctx2 res2 res2'.
     otsardb_sqlite_wal_scan_reader (memory_read_at (sample_wal @ sample_tail)) 96 sample_cursor 0
       (Some sample_callback) [] = (ok, cursor2, ctx2, res2) \<and>
     otsardb_sqlite_wal_scan_reader (memory_read_at (sample_wal @ sample_tail)) 96
       (sample_cursor\<lparr>wc_frame_count := 1, wc_checksum0 := 3, wc_checksum1 := 5\<rparr>) 0
       (Some sample_callback) [1] = (ok, cursor2, ctx2, res2')"
proof (rule wal_scan_resume [OF sample_scan])
  show "\<forall>off. off + wal_frame_size (wh_page_size (wc_header sample_cursor)) \<le>
        cursor_offset (sample_cursor\<lparr>wc_frame_count := 1, wc_checksum0 := 3, wc_checksum1 := 5\<rparr>) \<longrightarrow>
      memory_read_at sample_wal off (wal_frame_size (wh_page_size (wc_header sample_cursor))) =
      memory_read_at (sample_wal @ sample_tail) off (wal_frame_size (wh_page_size (wc_header sample_cursor)))"
    by (auto simp: memory_read_at_append cursor_offset_def sample_cursor_def wal_frame_size_def
        sqlite_wal_header_size_def sqlite_wal_frame_header_size_def length_sample_wal)
qed (simp_all add: wal_fits_def sample_cursor_def wal_frame_size_def sqlite_wal_header_size_def
    sqlite_wal_frame_header_size_def size_max_def reads_refs_def sample_callback_def)



end
