(* ===== verification/Sha256.thy ===== *)
theory Sha256
  imports Otsar_Prelude
begin

text \<open>
  SHA-256: the C implementation of \<open>src/crypto/sha256_pure.c\<close>, which the WebAssembly build uses, and
  the hexadecimal form of \<open>src/crypto/sha256.c\<close>.  The native build calls OpenSSL instead, so the
  other components take the digest as a parameter; the interface they rely on is the locale
  \<open>sha256_provider\<close>, interpreted here on the C implementation.  The context's block buffer is a
  list of 64 bytes that is overwritten in place and never cleared, as in the code.
\<close>

section \<open>Context and block function\<close>

record sha256_pure_ctx =
  sha_h :: "u32 list"
  sha_total_bits :: u64
  sha_block :: bytes
  sha_block_used :: nat

text \<open>The round constants, in the rows of the source.\<close>

definition sha256_K :: "u32 list" where
  "sha256_K = concat
     [[0x428a2f98, 0x71374491, 0xb5c0fbcf, 0xe9b5dba5, 0x3956c25b],
      [0x59f111f1, 0x923f82a4, 0xab1c5ed5, 0xd807aa98, 0x12835b01],
      [0x243185be, 0x550c7dc3, 0x72be5d74, 0x80deb1fe, 0x9bdc06a7],
      [0xc19bf174, 0xe49b69c1, 0xefbe4786, 0x0fc19dc6, 0x240ca1cc],
      [0x2de92c6f, 0x4a7484aa, 0x5cb0a9dc, 0x76f988da, 0x983e5152],
      [0xa831c66d, 0xb00327c8, 0xbf597fc7, 0xc6e00bf3, 0xd5a79147],
      [0x06ca6351, 0x14292967, 0x27b70a85, 0x2e1b2138, 0x4d2c6dfc],
      [0x53380d13, 0x650a7354, 0x766a0abb, 0x81c2c92e, 0x92722c85],
      [0xa2bfe8a1, 0xa81a664b, 0xc24b8b70, 0xc76c51a3, 0xd192e819],
      [0xd6990624, 0xf40e3585, 0x106aa070, 0x19a4c116, 0x1e376c08],
      [0x2748774c, 0x34b0bcb5, 0x391c0cb3, 0x4ed8aa4a, 0x5b9cca4f],
      [0x682e6ff3, 0x748f82ee, 0x78a5636f, 0x84c87814, 0x8cc70208],
      [0x90befffa, 0xa4506ceb, 0xbef9a3f7, 0xc67178f2]]"

definition rotr :: "u32 \<Rightarrow> nat \<Rightarrow> u32" where
  "rotr x n = drop_bit n x OR push_bit (32 - n) x"

definition load_be32 :: "bytes \<Rightarrow> u32" where
  "load_be32 p = read_u32_be p"

definition store_be32 :: "u32 \<Rightarrow> bytes" where
  "store_be32 v = put_u32_be v"

definition otsardb_sha256_pure_init :: "sha256_pure_ctx \<Rightarrow> sha256_pure_ctx" where
  "otsardb_sha256_pure_init ctx =
     ctx\<lparr>sha_h := [0x6a09e667, 0xbb67ae85, 0x3c6ef372, 0xa54ff53a,
                   0x510e527f, 0x9b05688c, 0x1f83d9ab, 0x5be0cd19],
         sha_total_bits := 0, sha_block_used := 0\<rparr>"

definition sha256_schedule_word :: "u32 list \<Rightarrow> nat \<Rightarrow> u32" where
  "sha256_schedule_word w i =
     (let s0 = rotr (w ! (i - 15)) 7 XOR rotr (w ! (i - 15)) 18 XOR drop_bit 3 (w ! (i - 15));
          s1 = rotr (w ! (i - 2)) 17 XOR rotr (w ! (i - 2)) 19 XOR drop_bit 10 (w ! (i - 2))
      in w ! (i - 16) + s0 + w ! (i - 7) + s1)"

definition sha256_schedule :: "bytes \<Rightarrow> u32 list" where
  "sha256_schedule block =
     foldl (\<lambda>w i. w @ [sha256_schedule_word w i])
       (map (\<lambda>i. load_be32 (drop (i * 4) block)) [0..<16]) [16..<64]"

type_synonym sha256_vars = "u32 \<times> u32 \<times> u32 \<times> u32 \<times> u32 \<times> u32 \<times> u32 \<times> u32"

definition sha256_round :: "sha256_vars \<Rightarrow> u32 \<times> u32 \<Rightarrow> sha256_vars" where
  "sha256_round vars kw =
     (case vars of (a, b, c, d, e, f, g, h) \<Rightarrow> case kw of (k, w) \<Rightarrow>
      let s1 = rotr e 6 XOR rotr e 11 XOR rotr e 25;
          ch = (e AND f) XOR (NOT e AND g);
          t1 = h + s1 + ch + k + w;
          s0 = rotr a 2 XOR rotr a 13 XOR rotr a 22;
          maj = (a AND b) XOR (a AND c) XOR (b AND c);
          t2 = s0 + maj
      in (t1 + t2, a, b, c, d + t1, e, f, g))"

definition sha256_compress :: "u32 list \<Rightarrow> bytes \<Rightarrow> u32 list" where
  "sha256_compress hs block =
     (case foldl sha256_round
             (hs ! 0, hs ! 1, hs ! 2, hs ! 3, hs ! 4, hs ! 5, hs ! 6, hs ! 7)
             (zip sha256_K (sha256_schedule block)) of
        (a, b, c, d, e, f, g, h) \<Rightarrow>
          [hs ! 0 + a, hs ! 1 + b, hs ! 2 + c, hs ! 3 + d, hs ! 4 + e, hs ! 5 + f, hs ! 6 + g, hs ! 7 + h])"

section \<open>Streaming interface\<close>

text \<open>
  The copy loop of \<open>otsardb_sha256_pure_update\<close>.  The context keeps \<open>block_used\<close> below 64, and the
  loop is not entered otherwise: a larger value would make \<open>64u - block_used\<close> wrap.
\<close>

function sha256_update_loop :: "sha256_pure_ctx \<Rightarrow> bytes \<Rightarrow> sha256_pure_ctx" where
  "sha256_update_loop ctx p =
     (if p = [] \<or> sha_block_used ctx \<ge> 64 then ctx
      else let n = min (64 - sha_block_used ctx) (length p);
               block = mem_write (sha_block ctx) (sha_block_used ctx) (take n p);
               used = sha_block_used ctx + n in
        if used = 64
        then sha256_update_loop (ctx\<lparr>sha_block := block, sha_h := sha256_compress (sha_h ctx) block,
                                     sha_block_used := 0\<rparr>) (drop n p)
        else sha256_update_loop (ctx\<lparr>sha_block := block, sha_block_used := used\<rparr>) (drop n p))"
  by pat_completeness auto
termination
  by (relation "measure (\<lambda>(ctx, p). length p)") auto

definition otsardb_sha256_pure_update :: "sha256_pure_ctx \<Rightarrow> bytes \<Rightarrow> sha256_pure_ctx" where
  "otsardb_sha256_pure_update ctx p =
     sha256_update_loop
       (ctx\<lparr>sha_total_bits := sha_total_bits ctx + of_nat (length p) * 8\<rparr>) p"

text \<open>The eight length bytes, filled from the last to the first.\<close>

fun sha256_length_loop :: "nat \<Rightarrow> u64 \<Rightarrow> bytes \<Rightarrow> bytes" where
  "sha256_length_loop 0 bitlen lenb = lenb"
| "sha256_length_loop (Suc n) bitlen lenb =
     sha256_length_loop n (drop_bit 8 bitlen) (ucast (bitlen AND 0xff) # lenb)"

definition otsardb_sha256_pure_final :: "sha256_pure_ctx \<Rightarrow> bytes" where
  "otsardb_sha256_pure_final ctx =
     (let used = sha_block_used ctx + 1;
          block = mem_write (sha_block ctx) (sha_block_used ctx) [0x80];
          (hs, block, used) =
            (if used > 56
             then let block = mem_write block used (replicate (64 - used) 0)
                  in (sha256_compress (sha_h ctx) block, block, 0)
             else (sha_h ctx, block, used));
          block = mem_write block used (replicate (56 - used) 0);
          block = mem_write block 56 (sha256_length_loop 8 (sha_total_bits ctx) []);
          hs = sha256_compress hs block
      in concat (map (\<lambda>i. store_be32 (hs ! i)) [0..<8]))"

text \<open>The context on the stack is not initialised: \<open>stack\<close> is whatever it holds.\<close>

definition otsardb_sha256_pure_digest :: "sha256_pure_ctx \<Rightarrow> bytes \<Rightarrow> bytes" where
  "otsardb_sha256_pure_digest stack data =
     otsardb_sha256_pure_final (otsardb_sha256_pure_update (otsardb_sha256_pure_init stack) data)"

section \<open>Hexadecimal form\<close>

definition sha256_hex_digits :: string where
  "sha256_hex_digits = ''0123456789abcdef''"

definition otsardb_sha256_hex :: "bytes \<Rightarrow> string" where
  "otsardb_sha256_hex digest =
     concat (map (\<lambda>b. [sha256_hex_digits ! unat (drop_bit 4 b AND 0x0f),
                       sha256_hex_digits ! unat (b AND 0x0f)]) digest)"

definition otsardb_sha256_hex_data :: "(bytes \<Rightarrow> bytes) \<Rightarrow> bytes \<Rightarrow> string" where
  "otsardb_sha256_hex_data sha data = otsardb_sha256_hex (sha data)"

section \<open>Reference definition\<close>

text \<open>FIPS 180-4: pad the message to whole blocks, fold the block function over them.\<close>

function sha256_blocks :: "bytes \<Rightarrow> bytes list" where
  "sha256_blocks m = (if length m < 64 then [] else take 64 m # sha256_blocks (drop 64 m))"
  by pat_completeness auto
termination
  by (relation "measure length") auto

declare sha256_blocks.simps [simp del]

definition sha256_initial :: "u32 list" where
  "sha256_initial = [0x6a09e667, 0xbb67ae85, 0x3c6ef372, 0xa54ff53a,
                     0x510e527f, 0x9b05688c, 0x1f83d9ab, 0x5be0cd19]"

definition sha256_pad :: "bytes \<Rightarrow> bytes" where
  "sha256_pad m = m @ [0x80] @ replicate ((119 - length m mod 64) mod 64) 0 @
     put_u64_be (of_nat (8 * length m))"

definition sha256_reference :: "bytes \<Rightarrow> bytes" where
  "sha256_reference m =
     concat (map store_be32 (foldl sha256_compress sha256_initial (sha256_blocks (sha256_pad m))))"

section \<open>The context represents the message so far\<close>

definition sha256_repr :: "sha256_pure_ctx \<Rightarrow> bytes \<Rightarrow> bytes \<Rightarrow> bool" where
  "sha256_repr ctx a b \<longleftrightarrow>
     length (sha_block ctx) = 64 \<and> 64 dvd length a \<and> length b < 64 \<and>
     sha_h ctx = foldl sha256_compress sha256_initial (sha256_blocks a) \<and>
     sha_block_used ctx = length b \<and> take (length b) (sha_block ctx) = b"

lemma sha256_blocks_short: "length m < 64 \<Longrightarrow> sha256_blocks m = []"
  by (simp add: sha256_blocks.simps [of m])

lemma sha256_blocks_one: "length m = 64 \<Longrightarrow> sha256_blocks m = [m]"
  by (simp add: sha256_blocks.simps [of m] sha256_blocks_short)

lemma sha256_blocks_append:
  "64 dvd length a \<Longrightarrow> sha256_blocks (a @ b) = sha256_blocks a @ sha256_blocks b"
proof (induction a rule: sha256_blocks.induct)
  case (1 a)
  show ?case
  proof (cases "a = []")
    case False
    then have "\<not> length a < 64" using 1(2) by (auto dest: dvd_imp_le)
    then show ?thesis
      using 1 by (simp add: sha256_blocks.simps [of a] sha256_blocks.simps [of "a @ b"])
  qed (simp add: sha256_blocks_short)
qed

lemma sha256_init_repr:
  "length (sha_block stack) = 64 \<Longrightarrow> sha256_repr (otsardb_sha256_pure_init stack) [] []"
  by (simp add: sha256_repr_def otsardb_sha256_pure_init_def sha256_initial_def sha256_blocks_short)

lemma sha256_full_block_repr:
  assumes "sha256_repr ctx a b" "length (b @ t) = 64"
  shows "sha256_repr (ctx\<lparr>sha_block := b @ t, sha_h := sha256_compress (sha_h ctx) (b @ t),
           sha_block_used := 0\<rparr>) (a @ b @ t) []"
proof -
  have "sha256_blocks (a @ b @ t) = sha256_blocks a @ [b @ t]"
    using assms sha256_blocks_append [of a "b @ t"] sha256_blocks_one [OF assms(2)]
    by (simp add: sha256_repr_def)
  moreover have "64 dvd length (a @ b @ t)"
    using assms by (simp add: sha256_repr_def)
  ultimately show ?thesis
    using assms by (simp add: sha256_repr_def)
qed

lemma sha256_loop_repr:
  assumes "sha256_repr ctx a b"
  shows "\<exists>a' b'. a' @ b' = a @ b @ p \<and> sha256_repr (sha256_update_loop ctx p) a' b'"
  using assms
proof (induction ctx p arbitrary: a b rule: sha256_update_loop.induct)
  case (1 ctx p)
  let ?n = "min (64 - sha_block_used ctx) (length p)"
  let ?block = "mem_write (sha_block ctx) (sha_block_used ctx) (take ?n p)"
  let ?used = "sha_block_used ctx + ?n"
  have used: "sha_block_used ctx = length b" "length b < 64" "length (sha_block ctx) = 64"
    using 1(3) by (simp_all add: sha256_repr_def)
  show ?case
  proof (cases "p = []")
    case True
    then show ?thesis using 1(3) by auto
  next
    case ne: False
    have go: "\<not> (p = [] \<or> sha_block_used ctx \<ge> 64)" using ne used by simp
    have blk: "length ?block = 64" "take ?used ?block = b @ take ?n p"
      using used 1(3) take_mem_write [of "length b" "take ?n p" "sha_block ctx"]
      by (auto simp: length_mem_write sha256_repr_def)
    show ?thesis
    proof (cases "?used = 64")
      case True
      let ?ctx = "ctx\<lparr>sha_block := ?block, sha_h := sha256_compress (sha_h ctx) ?block, sha_block_used := 0\<rparr>"
      have b64: "?block = b @ take ?n p" using blk True by simp
      have len: "length (b @ take ?n p) = 64" using blk(1) b64 by simp
      have "sha256_repr ?ctx (a @ b @ take ?n p) []"
        using sha256_full_block_repr [OF 1(3) len] b64 by simp
      from 1(1) [OF go refl refl refl True this]
      obtain a' b' where "a' @ b' = (a @ b @ take ?n p) @ [] @ drop ?n p"
        "sha256_repr (sha256_update_loop ?ctx (drop ?n p)) a' b'" by blast
      moreover have "sha256_update_loop ctx p = sha256_update_loop ?ctx (drop ?n p)"
        using go True by (subst sha256_update_loop.simps) (simp only: Let_def if_False if_True refl)
      ultimately show ?thesis by (intro exI [of _ a'] exI [of _ b']) simp
    next
      case False
      let ?ctx = "ctx\<lparr>sha_block := ?block, sha_block_used := ?used\<rparr>"
      have n: "?n = length p" using False used by (simp add: min_def split: if_splits)
      have "sha256_repr ?ctx a (b @ p)"
        using 1(3) blk False n used by (simp add: sha256_repr_def min_def split: if_splits)
      moreover have "sha256_update_loop ctx p = sha256_update_loop ?ctx []"
        using go False n by (subst sha256_update_loop.simps) (simp only: Let_def if_False drop_all order_refl)
      moreover have "sha256_update_loop ?ctx [] = ?ctx" by simp
      ultimately show ?thesis by (intro exI [of _ a] exI [of _ "b @ p"]) simp
    qed
  qed
qed

lemma sha256_loop_total_bits: "sha_total_bits (sha256_update_loop ctx p) = sha_total_bits ctx"
proof (induction ctx p rule: sha256_update_loop.induct)
  case (1 ctx p)
  then show ?case
    by (subst sha256_update_loop.simps) (simp add: Let_def del: sha256_update_loop.simps)
qed

declare sha256_update_loop.simps [simp del]

text \<open>A context that has absorbed the message \<open>m\<close>.\<close>

definition sha256_holds :: "sha256_pure_ctx \<Rightarrow> bytes \<Rightarrow> bool" where
  "sha256_holds ctx m \<longleftrightarrow>
     (\<exists>a b. a @ b = m \<and> sha256_repr ctx a b) \<and> sha_total_bits ctx = of_nat (8 * length m)"

lemma sha256_init_holds:
  "length (sha_block stack) = 64 \<Longrightarrow> sha256_holds (otsardb_sha256_pure_init stack) []"
  using sha256_init_repr [of stack] by (simp add: sha256_holds_def otsardb_sha256_pure_init_def)

lemma sha256_update_holds:
  assumes "sha256_holds ctx m"
  shows "sha256_holds (otsardb_sha256_pure_update ctx p) (m @ p)"
proof -
  obtain a b where ab: "a @ b = m" "sha256_repr ctx a b" using assms by (auto simp: sha256_holds_def)
  let ?ctx = "ctx\<lparr>sha_total_bits := sha_total_bits ctx + of_nat (length p) * 8\<rparr>"
  have "sha256_repr ?ctx a b" using ab(2) by (simp add: sha256_repr_def)
  from sha256_loop_repr [OF this, of p] obtain a' b'
    where "a' @ b' = a @ b @ p" "sha256_repr (sha256_update_loop ?ctx p) a' b'" by blast
  moreover have "sha_total_bits (otsardb_sha256_pure_update ctx p) = of_nat (8 * length (m @ p))"
    using assms by (simp add: sha256_holds_def otsardb_sha256_pure_update_def sha256_loop_total_bits)
  ultimately show ?thesis
    using ab(1) unfolding sha256_holds_def otsardb_sha256_pure_update_def
    by (metis append.assoc)
qed

lemma sha256_length_bytes: "sha256_length_loop 8 v [] = put_u64_be v"
  by (simp add: eval_nat_numeral put_u64_be_def ucast_and_0xff drop_bit_drop_bit)

lemma length_sha256_compress [simp]: "length (sha256_compress hs block) = 8"
  by (simp add: sha256_compress_def split: prod.split)

lemma concat_store: "length hs = 8 \<Longrightarrow> concat (map (\<lambda>i. store_be32 (hs ! i)) [0..<8]) = concat (map store_be32 hs)"
  by (metis map_nth map_map comp_apply map_cong)

lemma sha256_final_holds:
  assumes "sha256_holds ctx m"
  shows "otsardb_sha256_pure_final ctx = sha256_reference m"
proof -
  obtain a b where ab: "a @ b = m" "sha256_repr ctx a b" and bits: "sha_total_bits ctx = of_nat (8 * length m)"
    using assms by (auto simp: sha256_holds_def)
  have used: "sha_block_used ctx = length b" "length b < 64" "length (sha_block ctx) = 64" "64 dvd length a"
    and hs: "sha_h ctx = foldl sha256_compress sha256_initial (sha256_blocks a)"
    and buf: "take (length b) (sha_block ctx) = b"
    using ab(2) by (simp_all add: sha256_repr_def)
  have modlen: "length m mod 64 = length b" using ab(1) used by auto
  let ?len = "put_u64_be (of_nat (8 * length m))"
  let ?b0 = "mem_write (sha_block ctx) (length b) [0x80]"
  have b0: "length ?b0 = 64" "take (length b + 1) ?b0 = b @ [0x80]"
    using used buf take_mem_write [of "length b" "[0x80]" "sha_block ctx"] by (simp_all add: length_mem_write)
  show ?thesis
  proof (cases "length b + 1 > 56")
    case True
    let ?b1 = "mem_write ?b0 (length b + 1) (replicate (63 - length b) 0)"
    have b1: "?b1 = b @ [0x80] @ replicate (63 - length b) 0"
      using b0 used by (subst mem_write_end) auto
    let ?b2 = "mem_write (mem_write ?b1 0 (replicate 56 0)) 56 ?len"
    have b2: "?b2 = replicate 56 0 @ ?len"
      using b1 used by (subst mem_write_end) (auto simp: mem_write_def)
    have "sha256_pad m = a @ ?b1 @ ?b2"
    proof -
      have "replicate ((119 - length m mod 64) mod 64) (0 :: byte) = replicate (63 - length b) 0 @ replicate 56 0"
        using True used unfolding modlen by (simp flip: replicate_add)
      then show ?thesis
        unfolding b2 unfolding b1 ab(1) [symmetric] by (simp add: sha256_pad_def)
    qed
    then have "sha256_blocks (sha256_pad m) = sha256_blocks a @ [?b1] @ [?b2]"
      using used sha256_blocks_append [of a "?b1 @ ?b2"] sha256_blocks_append [of ?b1 ?b2]
        sha256_blocks_one [of ?b1] sha256_blocks_one [of ?b2] b1 b2 by simp
    then show ?thesis
      using True used
      by (simp add: otsardb_sha256_pure_final_def sha256_reference_def Let_def sha256_length_bytes bits
          concat_store hs)
  next
    case False
    let ?b2 = "mem_write (mem_write ?b0 (length b + 1) (replicate (55 - length b) 0)) 56 ?len"
    have b2: "?b2 = b @ [0x80] @ replicate (55 - length b) 0 @ ?len"
      using b0 used False take_mem_write [of "length b + 1" "replicate (55 - length b) 0" ?b0]
      by (subst mem_write_end) (auto simp: length_mem_write)
    have "sha256_pad m = a @ ?b2"
    proof -
      have "(119 - length m mod 64) mod 64 = 55 - length b"
        using False used unfolding modlen by (simp add: mod_if)
      then show ?thesis
        unfolding b2 unfolding ab(1) [symmetric] by (simp add: sha256_pad_def)
    qed
    then have "sha256_blocks (sha256_pad m) = sha256_blocks a @ [?b2]"
      using used sha256_blocks_append [of a ?b2] sha256_blocks_one [of ?b2] b2 False by simp
    then show ?thesis
      using False used
      by (simp add: otsardb_sha256_pure_final_def sha256_reference_def Let_def sha256_length_bytes bits
          concat_store hs)
  qed
qed

lemma sha256_chunks_holds:
  "sha256_holds ctx m \<Longrightarrow> sha256_holds (foldl otsardb_sha256_pure_update ctx chunks) (m @ concat chunks)"
proof (induction chunks arbitrary: ctx m)
  case (Cons c chunks)
  then show ?case using sha256_update_holds [of ctx m c] by fastforce
qed simp

lemma length_concat_store: "length (concat (map store_be32 hs)) = 4 * length hs"
  by (induction hs) (simp_all add: store_be32_def)

lemma length_foldl_compress: "bs \<noteq> [] \<Longrightarrow> length (foldl sha256_compress hs bs) = 8"
  by (induction bs rule: rev_induct) simp_all

lemma length_sha256_reference: "length (sha256_reference m) = 32"
proof (cases "sha256_blocks (sha256_pad m) = []")
  case True
  then show ?thesis by (simp add: sha256_reference_def store_be32_def sha256_initial_def)
next
  case False
  then show ?thesis by (simp add: sha256_reference_def length_concat_store length_foldl_compress)
qed

section \<open>The digest as an interface\<close>

text \<open>What the storage components rely on: a digest has 32 bytes.\<close>

locale sha256_provider =
  fixes sha :: "bytes \<Rightarrow> bytes"
  assumes sha_length: "length (sha data) = 32"
begin

lemma hex_length: "length (otsardb_sha256_hex_data sha data) = 64"
proof -
  have "length (otsardb_sha256_hex d) = 2 * length d" for d
    by (induction d) (simp_all add: otsardb_sha256_hex_def)
  then show ?thesis by (simp add: otsardb_sha256_hex_data_def sha_length)
qed

end

definition sha256_stack :: sha256_pure_ctx where
  "sha256_stack = \<lparr>sha_h = replicate 8 0, sha_total_bits = 0, sha_block = replicate 64 0, sha_block_used = 0\<rparr>"

interpretation pure_sha: sha256_provider "otsardb_sha256_pure_digest sha256_stack"
proof
  fix data
  have "sha256_holds (otsardb_sha256_pure_update (otsardb_sha256_pure_init sha256_stack) data) ([] @ data)"
    by (intro sha256_update_holds sha256_init_holds) (simp add: sha256_stack_def)
  then show "length (otsardb_sha256_pure_digest sha256_stack data) = 32"
    using sha256_final_holds length_sha256_reference by (simp add: otsardb_sha256_pure_digest_def)
qed

section \<open>Properties\<close>

text \<open>
  (C31) The streaming SHA-256 is correct: absorbing a message in chunks of any sizes and finishing
  gives the FIPS 180-4 digest of the whole message, whatever the uninitialised stack memory of the
  context held before.
\<close>

theorem sha256_streaming_correct:
  assumes "length (sha_block stack) = 64"
  shows "otsardb_sha256_pure_final (foldl otsardb_sha256_pure_update (otsardb_sha256_pure_init stack) chunks) =
         sha256_reference (concat chunks)"
  using sha256_final_holds [OF sha256_chunks_holds [OF sha256_init_holds [OF assms]]] by simp

theorem sha256_streaming_correct_witness:
  "otsardb_sha256_pure_final
     (otsardb_sha256_pure_update (otsardb_sha256_pure_update (otsardb_sha256_pure_init sha256_stack) [1, 2]) [3]) =
   sha256_reference [1, 2, 3]"
  using sha256_streaming_correct [of sha256_stack "[[1, 2], [3]]"] by (simp add: sha256_stack_def)

end
