(* ===== verification/Crc32.thy ===== *)
theory Crc32
  imports Otsar_Prelude
begin

text \<open>
  The CRC-32 of \<open>src/storage/segment.c\<close>: the table-driven loop and its equivalence with the
  bit-by-bit definition of the reflected polynomial \<open>0xEDB88320\<close>, and that one changed byte
  always changes the CRC.
\<close>

section \<open>Definitions\<close>

definition crc32_bit :: "u32 \<Rightarrow> u32" where
  "crc32_bit c = (if c AND 1 \<noteq> 0 then 0xEDB88320 XOR drop_bit 1 c else drop_bit 1 c)"

definition crc32_table :: "u32 list" where
  "crc32_table = map (\<lambda>i. (crc32_bit ^^ 8) (of_nat i)) [0..<256]"

definition crc32_step :: "u32 \<Rightarrow> byte \<Rightarrow> u32" where
  "crc32_step crc b = crc32_table ! unat ((crc XOR ucast b) AND 0xff) XOR drop_bit 8 crc"

definition otsardb_segment_crc32 :: "bytes \<Rightarrow> u32" where
  "otsardb_segment_crc32 data = foldl crc32_step 0xFFFFFFFF data XOR 0xFFFFFFFF"

text \<open>The definition without a table: shift the register once per bit of the message.\<close>

definition crc32_reference :: "bytes \<Rightarrow> u32" where
  "crc32_reference data =
     foldl (\<lambda>crc b. (crc32_bit ^^ 8) (crc XOR ucast b)) 0xFFFFFFFF data XOR 0xFFFFFFFF"

section \<open>The table is the bitwise register\<close>

lemma xor_cancel_right32: "(a XOR c = b XOR c) = (a = (b :: u32))"
  by (metis xor.assoc xor_self_eq xor.right_neutral)

lemma xor_cancel_left32: "(c XOR a = c XOR b) = (a = (b :: u32))"
  by (metis xor_cancel_right32 xor.commute)

lemma crc32_bit_cases:
  "crc32_bit c = drop_bit 1 c XOR (if bit c 0 then 0xEDB88320 else 0)"
  by (simp add: crc32_bit_def bit_0 odd_iff_mod_2_eq_one and_one_eq xor.commute)

lemma crc32_bit_linear: "crc32_bit (u XOR v) = crc32_bit u XOR crc32_bit v"
proof -
  have "drop_bit 1 (u XOR v) = drop_bit 1 u XOR drop_bit 1 v" by (rule drop_bit_xor)
  then show ?thesis
    unfolding crc32_bit_cases
    by (cases "bit u 0"; cases "bit v 0")
      (simp_all add: bit_simps xor.assoc xor.left_commute xor.commute)
qed

lemma crc32_bits_linear: "(crc32_bit ^^ n) (u XOR v) = (crc32_bit ^^ n) u XOR (crc32_bit ^^ n) v"
  by (induction n) (simp_all add: crc32_bit_linear)

lemma crc32_bits_shift: "take_bit n v = 0 \<Longrightarrow> (crc32_bit ^^ n) v = drop_bit n v"
proof (induction n arbitrary: v)
  case (Suc n)
  have "\<not> bit v 0"
    using Suc.prems by (metis bit_take_bit_iff bit_0_eq bot_apply bot_bool_def zero_less_Suc)
  then have one: "crc32_bit v = drop_bit 1 v" by (simp add: crc32_bit_cases)
  have "take_bit n (drop_bit 1 v) = drop_bit 1 (take_bit (Suc n) v)"
    by (simp add: drop_bit_take_bit)
  then have "take_bit n (drop_bit 1 v) = 0" using Suc.prems by simp
  then show ?case
    using Suc.IH [of "drop_bit 1 v"] one by (simp add: funpow_swap1 drop_bit_drop_bit)
qed simp

lemma unat_take_bit_8: "unat (take_bit 8 (x :: u32)) < 256"
  using take_bit_nat_less_exp [of 8 "unat x"] by (simp add: unsigned_take_bit_eq)

lemma crc32_step_bitwise: "crc32_step crc b = (crc32_bit ^^ 8) (crc XOR ucast b)"
proof -
  let ?x = "crc XOR ucast b" and ?low = "(crc XOR ucast b) AND 0xff"
  let ?high = "push_bit 8 (drop_bit 8 crc)"
  have mask: "?low = take_bit 8 ?x" by (simp add: take_bit_eq_mask mask_eq_exp_minus_1)
  have split: "?x = ?low XOR ?high"
    unfolding mask by (rule bit_word_eqI) (auto simp: bit_simps dest: bit_imp_le_length)
  have "take_bit 8 ?high = 0" by (rule bit_word_eqI) (auto simp: bit_simps)
  then have "(crc32_bit ^^ 8) ?high = drop_bit 8 ?high" by (rule crc32_bits_shift)
  moreover have "drop_bit 8 ?high = drop_bit 8 crc"
    by (rule bit_word_eqI) (auto simp: bit_simps dest: bit_imp_le_length)
  moreover have "unat ?low < 256"
    using unat_take_bit_8 [of ?x] unfolding mask .
  moreover have "(crc32_bit ^^ 8) ?x = (crc32_bit ^^ 8) ?low XOR (crc32_bit ^^ 8) ?high"
    by (subst split) (rule crc32_bits_linear)
  ultimately show ?thesis
    by (simp add: crc32_step_def crc32_table_def)
qed

lemma crc32_table_correct: "otsardb_segment_crc32 data = crc32_reference data"
  unfolding otsardb_segment_crc32_def crc32_reference_def
  by (simp add: crc32_step_bitwise [abs_def])

section \<open>One changed byte\<close>

lemma inj_crc32_bit: "inj crc32_bit"
proof (rule injI)
  fix x y :: u32
  assume eq: "crc32_bit x = crc32_bit y"
  have top: "bit (crc32_bit z) 31 = bit z 0" for z
    using bit_imp_le_length [of z 32] by (auto simp: crc32_bit_cases bit_simps)
  have low: "bit x 0 = bit y 0" using eq by (metis top)
  then have high: "drop_bit 1 x = drop_bit 1 y"
    using eq by (simp add: crc32_bit_cases xor_cancel_right32)
  show "x = y"
  proof (rule bit_word_eqI)
    fix n
    show "bit x n = bit y n"
    proof (cases n)
      case (Suc m)
      then show ?thesis using arg_cong [OF high, of "\<lambda>w. bit w m"] by (simp add: bit_simps)
    qed (simp add: low)
  qed
qed

lemma inj_crc32_bits: "inj (crc32_bit ^^ n)"
  by (induction n) (simp_all add: inj_compose inj_crc32_bit del: o_apply)

lemma crc32_step_inj_state: "crc32_step x b = crc32_step y b \<longleftrightarrow> x = y"
  by (simp add: crc32_step_bitwise inj_eq [OF inj_crc32_bits] xor_cancel_right32)

lemma crc32_step_inj_byte: "crc32_step x a = crc32_step x b \<longleftrightarrow> a = b"
  by (simp add: crc32_step_bitwise inj_eq [OF inj_crc32_bits] xor_cancel_left32 ucast_up_eq_iff)

lemma foldl_crc32_inj: "foldl crc32_step x data = foldl crc32_step y data \<longleftrightarrow> x = y"
  by (induction data arbitrary: x y) (simp_all add: crc32_step_inj_state)

lemma crc32_one_byte:
  "otsardb_segment_crc32 (pre @ a # post) = otsardb_segment_crc32 (pre @ b # post) \<longleftrightarrow> a = b"
  by (simp add: otsardb_segment_crc32_def xor_cancel_right32 foldl_crc32_inj crc32_step_inj_byte)

section \<open>Properties\<close>

text \<open>
  (C32) The table-driven CRC-32 computes the bitwise CRC of the reflected IEEE polynomial on every
  input, and any change of a single byte of the input changes the result.
\<close>

theorem crc32_correct:
  "otsardb_segment_crc32 data = crc32_reference data \<and>
   (otsardb_segment_crc32 (pre @ a # post) = otsardb_segment_crc32 (pre @ b # post)) = (a = b)"
  using crc32_table_correct crc32_one_byte by blast

end
