(* ===== verification/Segment.thy ===== *)
theory Segment
  imports Wal_Batch Crc32 Sha256 "HOL-Library.Multiset"
begin

text \<open>
  Segments, \<open>src/storage/segment.c\<close>: the immutable objects that carry the page images of a commit.
  Version 2 stores one payload, compressed as a whole; version 3 stores one block per page of a
  WAL batch, sorted by page number, the last frame of a page winning.  The digest \<open>sha\<close> and the
  vendored LZ4 are parameters: \<open>lz4c x cap\<close> is the output of \<open>LZ4_compress_default\<close> on \<open>x\<close> with the
  capacity \<open>cap\<close> (\<open>None\<close> for the return value 0), \<open>lz4d src n cap\<close> the output of \<open>LZ4_decompress_safe\<close>
  on the first \<open>n\<close> bytes at \<open>src\<close> (\<open>None\<close> for a negative return value).
\<close>

section \<open>Constants, view and parameters\<close>

type_synonym lz4_compress = "bytes \<Rightarrow> nat \<Rightarrow> bytes option"
type_synonym lz4_decompress = "bytes \<Rightarrow> int \<Rightarrow> int \<Rightarrow> bytes option"

definition segment_magic :: bytes where
  "segment_magic = map of_char ''ARKSEG01''"

definition segment_header_size :: nat where
  "segment_header_size = 60"

definition segment_max_decompressed :: nat where
  "segment_max_decompressed = 1073741824"

definition segment_format_version :: u32 where
  "segment_format_version = 3"

definition segment_commit_id_max :: nat where
  "segment_commit_id_max = 63"

definition segment_wal_frames :: u32 where
  "segment_wal_frames = 1"

definition segment_block_header_size :: nat where
  "segment_block_header_size = 13"

definition segment_batch_header_copy_size :: nat where
  "segment_batch_header_copy_size = 32"

definition wal_batch_page_size_min :: nat where
  "wal_batch_page_size_min = 512"

record segment_view =
  sv_format_version :: u32
  sv_kind :: u32
  sv_commit_id :: string
  sv_payload :: bytes
  sv_compressed :: bool
  sv_payload_sha256 :: string

record segment_frame_info =
  fi_offsets :: "nat list"
  fi_page_nos :: "u32 list"

definition LZ4_compressBound :: "nat \<Rightarrow> nat" where
  "LZ4_compressBound isize = (if isize > 0x7E000000 then 0 else isize + isize div 255 + 16)"

section \<open>One block\<close>

text \<open>The position after the block, the frame record and its page number.\<close>

definition otsardb_segment_frame_decode ::
  "lz4_decompress \<Rightarrow> bytes \<Rightarrow> nat \<Rightarrow> (nat \<times> bytes \<times> u32) option" where
  "otsardb_segment_frame_decode lz4d data pos =
     (if pos > length data \<or> length data - pos < segment_block_header_size then None
      else let orig_len = get_u32_le (drop pos data);
               data_len = get_u32_le (drop (pos + 4) data);
               flags = data ! (pos + 8);
               frame_crc = get_u32_le (drop (pos + 9) data) in
        if unat orig_len < wal_batch_frame_header_size + wal_batch_page_size_min \<or>
           unat orig_len > segment_max_decompressed \<or> flags AND NOT 1 \<noteq> 0 then None
        else if unat data_len > length data - pos - segment_block_header_size then None
        else let stored = drop (pos + segment_block_header_size) data in
          (case (if flags AND 1 \<noteq> 0
                 then (case lz4d stored (sint data_len) (sint orig_len) of
                         None \<Rightarrow> None
                       | Some out \<Rightarrow> if length out = unat orig_len then Some out else None)
                 else if data_len = orig_len then Some (take (unat orig_len) stored) else None) of
             None \<Rightarrow> None
           | Some frame \<Rightarrow>
               if otsardb_segment_crc32 frame \<noteq> frame_crc then None
               else let page_no = get_u32_le frame in
                 if page_no = 0 \<or> get_u32_le (drop 4 frame) \<noteq> 0 then None
                 else Some (pos + segment_block_header_size + unat data_len, frame, page_no)))"

section \<open>Encoder of version 3\<close>

text \<open>The unique pages of the batch with the index of their last frame, in order of appearance.\<close>

fun segment_note_ref :: "(u32 \<times> nat) list \<Rightarrow> u32 \<Rightarrow> nat \<Rightarrow> (u32 \<times> nat) list" where
  "segment_note_ref [] page_no i = [(page_no, i)]"
| "segment_note_ref ((n, j) # refs) page_no i =
     (if n = page_no then (n, i) # refs else (n, j) # segment_note_ref refs page_no i)"

fun segment_collect_refs ::
  "wal_batch_view \<Rightarrow> nat list \<Rightarrow> (u32 \<times> nat) list \<Rightarrow> (u32 \<times> nat) list option" where
  "segment_collect_refs batch [] refs = Some refs"
| "segment_collect_refs batch (i # is) refs =
     (case otsardb_wal_batch_frame batch (of_nat i) of
        None \<Rightarrow> None
      | Some (page_no, page) \<Rightarrow> segment_collect_refs batch is (segment_note_ref refs page_no i))"

definition segment_frame_record :: "wal_batch_view \<Rightarrow> nat \<Rightarrow> bytes" where
  "segment_frame_record batch i =
     (let record_size = wal_batch_frame_header_size + unat (wb_page_size batch) in
      mem_slice (wb_data batch) (wal_batch_header_size + i * record_size) record_size)"

text \<open>First pass: the stored size and the flags of a block.\<close>

definition segment_choose_block :: "lz4_compress \<Rightarrow> bool \<Rightarrow> bytes \<Rightarrow> nat \<times> byte" where
  "segment_choose_block lz4c compress frame =
     (let orig_len = length frame in
      if compress \<and> orig_len \<ge> 64 \<and> LZ4_compressBound orig_len > 0 then
        (case lz4c frame (LZ4_compressBound orig_len) of
           None \<Rightarrow> (orig_len, 0)
         | Some c \<Rightarrow> if 0 < length c \<and> length c < orig_len then (length c, 1) else (orig_len, 0))
      else (orig_len, 0))"

text \<open>Second pass: the bytes of a block.\<close>

definition segment_emit_block :: "lz4_compress \<Rightarrow> bytes \<Rightarrow> nat \<times> byte \<Rightarrow> bytes option" where
  "segment_emit_block lz4c frame choice =
     (case choice of (data_len, flags) \<Rightarrow>
      let orig_len = length frame;
          header = put_u32_le (of_nat orig_len) @ put_u32_le (of_nat data_len) @ [flags] @
                   put_u32_le (otsardb_segment_crc32 frame) in
      if flags AND 1 \<noteq> 0 then
        (case lz4c frame (LZ4_compressBound orig_len) of
           None \<Rightarrow> None
         | Some c \<Rightarrow> if LZ4_compressBound orig_len = 0 \<or> length c \<noteq> data_len then None
                     else Some (header @ c))
      else Some (header @ frame))"

text \<open>The blocks one after the other, and the offset of each; \<open>off\<close> is where the next one starts.\<close>

fun segment_emit_blocks ::
  "lz4_compress \<Rightarrow> (bytes \<times> nat \<times> byte) list \<Rightarrow> nat \<Rightarrow> (bytes \<times> nat list) option" where
  "segment_emit_blocks lz4c [] off = Some ([], [])"
| "segment_emit_blocks lz4c ((frame, choice) # blocks) off =
     (case segment_emit_block lz4c frame choice of
        None \<Rightarrow> None
      | Some block \<Rightarrow>
          (case segment_emit_blocks lz4c blocks (off + length block) of
             None \<Rightarrow> None
           | Some (rest, offsets) \<Rightarrow> Some (block @ rest, off # offsets)))"

definition segment_batch_header :: "wal_batch_view \<Rightarrow> nat \<Rightarrow> bytes" where
  "segment_batch_header batch unique_count =
     mem_write (take wal_batch_header_size (wb_data batch)) 24 (put_u32_le (of_nat unique_count))"

text \<open>The fixed header, the commit id and the stored payload.\<close>

definition segment_object ::
  "(bytes \<Rightarrow> bytes) \<Rightarrow> u32 \<Rightarrow> u32 \<Rightarrow> string \<Rightarrow> u16 \<Rightarrow> bytes \<Rightarrow> bytes" where
  "segment_object sha version kind commit_id flags stored =
     segment_magic @ put_u32_le version @ put_u32_le kind @ put_u16_le (of_nat (length commit_id)) @
     put_u16_le flags @ put_u64_le (of_nat (length stored)) @ sha stored @
     bytes_of_string commit_id @ stored"

definition segment_encode_v3 ::
  "(bytes \<Rightarrow> bytes) \<Rightarrow> lz4_compress \<Rightarrow> string \<Rightarrow> bytes \<Rightarrow> bool \<Rightarrow>
   (bytes \<times> string \<times> segment_frame_info) option" where
  "segment_encode_v3 sha lz4c commit_id payload compress =
     (case otsardb_wal_batch_decode payload of
        None \<Rightarrow> None
      | Some batch \<Rightarrow>
          if wb_format_version batch \<noteq> wal_batch_version then None
          else case segment_collect_refs batch [0..<unat (wb_frame_count batch)] [] of
            None \<Rightarrow> None
          | Some found \<Rightarrow>
              let refs = sort_key fst found;
                  orig_len = wal_batch_frame_header_size + unat (wb_page_size batch) in
              if orig_len > uint32_max \<or> orig_len > int_max then None
              else let frames = map (\<lambda>(n, i). segment_frame_record batch i) refs;
                       choices = map (segment_choose_block lz4c compress) frames;
                       blocks_bytes = sum_list (map (\<lambda>(n, f). segment_block_header_size + n) choices);
                       stored_size = segment_batch_header_copy_size + blocks_bytes;
                       id_len = length commit_id in
                if id_len > segment_commit_id_max \<or> segment_header_size > size_max - id_len \<or>
                   segment_header_size + id_len > size_max - stored_size then None
                else case segment_emit_blocks lz4c (zip frames choices)
                            (segment_header_size + id_len + wal_batch_header_size) of
                  None \<Rightarrow> None
                | Some (blocks, offsets) \<Rightarrow>
                    let stored = segment_batch_header batch (length refs) @ blocks in
                    if segment_header_size + id_len + length stored \<noteq>
                       segment_header_size + id_len + stored_size then None
                    else let encoded = segment_object sha segment_format_version segment_wal_frames
                                         commit_id 0 stored in
                      Some (encoded, otsardb_sha256_hex_data sha encoded,
                            \<lparr>fi_offsets = offsets, fi_page_nos = map fst refs\<rparr>))"

section \<open>Encoder of version 2\<close>

definition otsardb_segment_encode ::
  "(bytes \<Rightarrow> bytes) \<Rightarrow> lz4_compress \<Rightarrow> u32 \<Rightarrow> string \<Rightarrow> bytes \<Rightarrow> bool \<Rightarrow> (bytes \<times> string) option" where
  "otsardb_segment_encode sha lz4c kind commit_id payload compress =
     (if commit_id = [] \<or> kind = 0 then None
      else if length commit_id > segment_commit_id_max then None
      else let (stored, flags) =
             (if compress \<and> length payload \<ge> 64 \<and> length payload \<le> int_max \<and>
                 LZ4_compressBound (length payload) > 0
              then (case lz4c payload (LZ4_compressBound (length payload)) of
                      None \<Rightarrow> (payload, 0)
                    | Some c \<Rightarrow>
                        if 0 < length c \<and> length c + 4 < length payload
                        then (put_u32_le (of_nat (length payload)) @ c, 1) else (payload, 0))
              else (payload, 0 :: u16)) in
        if segment_header_size > size_max - length commit_id \<or>
           segment_header_size + length commit_id > size_max - length stored then None
        else let encoded = segment_object sha 2 kind commit_id flags stored in
          Some (encoded, otsardb_sha256_hex_data sha encoded))"

definition otsardb_segment_encode_with_frames ::
  "(bytes \<Rightarrow> bytes) \<Rightarrow> lz4_compress \<Rightarrow> u32 \<Rightarrow> string \<Rightarrow> bytes \<Rightarrow> bool \<Rightarrow>
   (bytes \<times> string \<times> segment_frame_info) option" where
  "otsardb_segment_encode_with_frames sha lz4c kind commit_id payload compress =
     (let fallback = map_option (\<lambda>(d, h). (d, h, \<lparr>fi_offsets = [], fi_page_nos = []\<rparr>))
                       (otsardb_segment_encode sha lz4c kind commit_id payload compress) in
      if commit_id = [] \<or> kind = 0 then None
      else if kind = segment_wal_frames then
        (case segment_encode_v3 sha lz4c commit_id payload compress of
           Some r \<Rightarrow> Some r
         | None \<Rightarrow> fallback)
      else fallback)"

section \<open>Decoder\<close>

definition otsardb_segment_decode :: "(bytes \<Rightarrow> bytes) \<Rightarrow> bytes \<Rightarrow> segment_view option" where
  "otsardb_segment_decode sha data =
     (if length data < segment_header_size then None
      else if take 8 data \<noteq> segment_magic then None
      else let version = get_u32_le (drop 8 data);
               kind = get_u32_le (drop 12 data);
               id_len = get_u16_le (drop 16 data);
               flags = get_u16_le (drop 18 data);
               payload_size = unat (get_u64_le (drop 20 data));
               expected_digest = mem_slice data 28 32 in
        if (version \<noteq> 1 \<and> version \<noteq> 2 \<and> version \<noteq> segment_format_version) \<or> kind = 0 \<or>
           id_len = 0 \<or> unat id_len > segment_commit_id_max \<or> payload_size > size_max \<or>
           flags AND NOT 1 \<noteq> 0 \<or> (version = 1 \<and> flags \<noteq> 0) \<or> (version \<ge> 3 \<and> flags \<noteq> 0)
        then None
        else let expected_size = segment_header_size + unat id_len in
          if expected_size > size_max - payload_size then None
          else if length data \<noteq> expected_size + payload_size then None
          else let payload = mem_slice data expected_size payload_size in
            if sha payload \<noteq> expected_digest then None
            else Some \<lparr>sv_format_version = version, sv_kind = kind,
                       sv_commit_id = string_of_bytes (mem_slice data segment_header_size (unat id_len)),
                       sv_payload = payload, sv_compressed = (version \<ge> 3 \<or> flags AND 1 \<noteq> 0),
                       sv_payload_sha256 = otsardb_sha256_hex (sha payload)\<rparr>)"

text \<open>The frames of a block payload in turn, from position \<open>pos\<close>.\<close>

fun segment_decode_blocks ::
  "lz4_decompress \<Rightarrow> bytes \<Rightarrow> nat \<Rightarrow> nat \<Rightarrow> nat \<Rightarrow> (nat \<times> bytes) option" where
  "segment_decode_blocks lz4d payload record_size 0 pos = Some (pos, [])"
| "segment_decode_blocks lz4d payload record_size (Suc n) pos =
     (case otsardb_segment_frame_decode lz4d payload pos of
        None \<Rightarrow> None
      | Some (pos', frame, page_no) \<Rightarrow>
          if length frame \<noteq> record_size then None
          else map_option (\<lambda>(e, out). (e, frame @ out))
                 (segment_decode_blocks lz4d payload record_size n pos'))"

definition segment_decompress_v3 :: "lz4_decompress \<Rightarrow> bytes \<Rightarrow> bytes option" where
  "segment_decompress_v3 lz4d payload =
     (if length payload < segment_batch_header_copy_size \<or> take 8 payload \<noteq> wal_batch_magic then None
      else let page_size = get_u32_le (drop 12 payload);
               frame_count = get_u32_le (drop 24 payload) in
        if \<not> valid_page_size page_size \<or> frame_count = 0 then None
        else let record_size = wal_batch_frame_header_size + unat page_size in
          if unat frame_count > (segment_max_decompressed - wal_batch_header_size) div record_size
          then None
          else case segment_decode_blocks lz4d payload record_size (unat frame_count)
                      segment_batch_header_copy_size of
            None \<Rightarrow> None
          | Some (pos, frames) \<Rightarrow>
              let out = take wal_batch_header_size payload @ frames in
              if length out \<noteq> wal_batch_header_size + unat frame_count * record_size \<or>
                 pos \<noteq> length payload then None
              else case otsardb_wal_batch_decode out of None \<Rightarrow> None | Some _ \<Rightarrow> Some out)"

definition otsardb_segment_decompress :: "lz4_decompress \<Rightarrow> segment_view \<Rightarrow> bytes option" where
  "otsardb_segment_decompress lz4d view =
     (if sv_format_version view \<ge> 3 then segment_decompress_v3 lz4d (sv_payload view)
      else if \<not> sv_compressed view then None
      else let stored = sv_payload view in
        if length stored < 4 then None
        else let original_size = get_u32_le stored in
          if original_size = 0 \<or> unat original_size > segment_max_decompressed then None
          else case lz4d (drop 4 stored) (sint (of_nat (length stored - 4) :: u32)) (sint original_size) of
            None \<Rightarrow> None
          | Some out \<Rightarrow> if length out = unat original_size then Some out else None)"

section \<open>Specification\<close>

text \<open>The documented law of LZ4: decompression inverts compression.\<close>

definition lz4_inverse :: "lz4_compress \<Rightarrow> lz4_decompress \<Rightarrow> bool" where
  "lz4_inverse lz4c lz4d \<longleftrightarrow>
     (\<forall>x cap c rest. lz4c x cap = Some c \<longrightarrow> lz4d (c @ rest) (int (length c)) (int (length x)) = Some x)"

text \<open>A frame record as the encoder finds it in a batch, and the block it is stored in.\<close>

definition segment_frame_ok :: "nat \<Rightarrow> bytes \<Rightarrow> bool" where
  "segment_frame_ok record_size frame \<longleftrightarrow>
     length frame = record_size \<and> get_u32_le frame \<noteq> 0 \<and> get_u32_le (drop 4 frame) = 0 \<and>
     wal_batch_frame_header_size + wal_batch_page_size_min \<le> record_size \<and> record_size \<le> 65544"

definition segment_block :: "bytes \<Rightarrow> byte \<Rightarrow> bytes \<Rightarrow> bytes" where
  "segment_block frame flags d =
     put_u32_le (of_nat (length frame)) @ put_u32_le (of_nat (length d)) @ [flags] @
     put_u32_le (otsardb_segment_crc32 frame) @ d"

definition block_choices :: "lz4_compress \<Rightarrow> bool \<Rightarrow> bytes list \<Rightarrow> (bytes \<times> nat \<times> byte) list" where
  "block_choices lz4c compress frames = map (\<lambda>f. (f, segment_choose_block lz4c compress f)) frames"

definition segment_object_prefix ::
  "(bytes \<Rightarrow> bytes) \<Rightarrow> u32 \<Rightarrow> u32 \<Rightarrow> string \<Rightarrow> u16 \<Rightarrow> bytes \<Rightarrow> bytes" where
  "segment_object_prefix sha version kind commit_id flags stored =
     segment_magic @ put_u32_le version @ put_u32_le kind @ put_u16_le (of_nat (length commit_id)) @
     put_u16_le flags @ put_u64_le (of_nat (length stored)) @ sha stored @ bytes_of_string commit_id"

text \<open>All frames of a batch, and their effect on a database given as a map from page numbers.\<close>

definition wal_batch_frames :: "wal_batch_view \<Rightarrow> (u32 \<times> bytes) list" where
  "wal_batch_frames v =
     map (\<lambda>i. the (otsardb_wal_batch_frame v (of_nat i))) [0..<unat (wb_frame_count v)]"

definition apply_frames :: "(u32 \<times> bytes) list \<Rightarrow> (u32 \<rightharpoonup> bytes) \<Rightarrow> (u32 \<rightharpoonup> bytes)" where
  "apply_frames fs db = foldl (\<lambda>m (n, page). m(n \<mapsto> page)) db fs"

abbreviation batch_page :: "u32 \<Rightarrow> bytes \<Rightarrow> nat \<Rightarrow> bytes" where
  "batch_page p pages i \<equiv> mem_slice pages (i * unat p) (unat p)"

abbreviation encoded_view :: "u32 \<Rightarrow> u64 \<Rightarrow> u32 \<Rightarrow> bytes \<Rightarrow> wal_batch_view" where
  "encoded_view p d f out \<equiv> \<lparr>wb_format_version = wal_batch_version, wb_page_size = p,
     wb_database_size_pages = d, wb_frame_count = f, wb_data = out, wb_size = length out\<rparr>"

section \<open>Lemmas\<close>

lemma length_segment_magic [simp]: "length segment_magic = 8"
  by (simp add: segment_magic_def)

lemma length_segment_object:
  "length (sha stored) = 32 \<Longrightarrow>
   length (segment_object sha v k cid fl stored) = segment_header_size + length cid + length stored"
  by (simp add: segment_object_def segment_header_size_def)

lemma segment_object_fields:
  assumes "length (sha stored) = 32"
  shows "take 8 (segment_object sha v k cid fl stored) = segment_magic"
    "get_u32_le (drop 8 (segment_object sha v k cid fl stored)) = v"
    "get_u32_le (drop 12 (segment_object sha v k cid fl stored)) = k"
    "get_u16_le (drop 16 (segment_object sha v k cid fl stored)) = of_nat (length cid)"
    "get_u16_le (drop 18 (segment_object sha v k cid fl stored)) = fl"
    "get_u64_le (drop 20 (segment_object sha v k cid fl stored)) = of_nat (length stored)"
    "mem_slice (segment_object sha v k cid fl stored) 28 32 = sha stored"
    "mem_slice (segment_object sha v k cid fl stored) segment_header_size (length cid) = bytes_of_string cid"
    "mem_slice (segment_object sha v k cid fl stored) (segment_header_size + length cid) (length stored) = stored"
  using assms by (simp_all add: segment_object_def mem_slice_def segment_header_size_def)

lemma segment_decode_object:
  assumes "length (sha stored) = 32" "v = 1 \<or> v = 2 \<or> v = 3" "k \<noteq> 0" "cid \<noteq> []"
    "length cid \<le> segment_commit_id_max" "fl AND NOT 1 = 0" "v \<noteq> 2 \<longrightarrow> fl = 0"
    "segment_header_size + length cid + length stored \<le> size_max"
  shows "otsardb_segment_decode sha (segment_object sha v k cid fl stored) =
     Some \<lparr>sv_format_version = v, sv_kind = k, sv_commit_id = cid, sv_payload = stored,
           sv_compressed = (v \<ge> 3 \<or> fl AND 1 \<noteq> 0), sv_payload_sha256 = otsardb_sha256_hex (sha stored)\<rparr>"
proof -
  have cid: "unat (of_nat (length cid) :: u16) = length cid" and st: "unat (of_nat (length stored) :: u64) = length stored"
    using assms(5,8) by (simp_all add: segment_commit_id_max_def)
  have "of_nat (length cid) \<noteq> (0 :: u16)"
    using cid assms(4) by (metis length_0_conv unsigned_0)
  then show ?thesis
    unfolding otsardb_segment_decode_def segment_object_fields [of sha stored, OF assms(1)] length_segment_object [of sha stored, OF assms(1)] cid st Let_def
    using assms by (auto simp: segment_format_version_def segment_object_fields [of sha stored, OF assms(1)])
qed

lemma segment_emit_choose:
  obtains d fl where
    "segment_emit_block lz4c frame (segment_choose_block lz4c compress frame) = Some (segment_block frame fl d)"
    "fst (segment_choose_block lz4c compress frame) = length d"
    "fl = 0 \<and> d = frame \<or> fl = 1 \<and> (\<exists>cap. lz4c frame cap = Some d) \<and> length d < length frame"
proof (cases "\<exists>c. compress \<and> length frame \<ge> 64 \<and> LZ4_compressBound (length frame) > 0 \<and>
    lz4c frame (LZ4_compressBound (length frame)) = Some c \<and> 0 < length c \<and> length c < length frame")
  case True
  then obtain c where "compress" "length frame \<ge> 64" "LZ4_compressBound (length frame) > 0"
    "lz4c frame (LZ4_compressBound (length frame)) = Some c" "0 < length c" "length c < length frame" by blast
  then show ?thesis
    by (intro that [of 1 c]) (auto simp: segment_emit_block_def segment_choose_block_def segment_block_def Let_def)
next
  case False
  then have "segment_choose_block lz4c compress frame = (length frame, 0)"
    by (auto simp: segment_choose_block_def Let_def split: option.split)
  then show ?thesis
    by (intro that [of 0 frame]) (auto simp: segment_emit_block_def segment_block_def Let_def)
qed

lemma segment_frame_decode_block:
  assumes ok: "segment_frame_ok rs frame" and inv: "lz4_inverse lz4c lz4d"
    and d: "fl = 0 \<and> d = frame \<or> fl = 1 \<and> (\<exists>cap. lz4c frame cap = Some d) \<and> length d < length frame"
  shows "otsardb_segment_frame_decode lz4d (pre @ segment_block frame fl d @ post) (length pre) =
         Some (length pre + length (segment_block frame fl d), frame, get_u32_le frame)"
proof -
  have len: "length frame \<le> 65544" "length d \<le> 65544" "520 \<le> length frame"
    using ok d by (auto simp: segment_frame_ok_def wal_batch_frame_header_size_def wal_batch_page_size_min_def)
  then have u: "unat (of_nat (length frame) :: u32) = length frame" "unat (of_nat (length d) :: u32) = length d"
    "sint (of_nat (length frame) :: u32) = int (length frame)" "sint (of_nat (length d) :: u32) = int (length d)"
    by (simp_all add: uint32_max_def sint_of_nat_u32 int_max_def)
  let ?data = "pre @ segment_block frame fl d @ post"
  have f: "get_u32_le (drop (length pre) ?data) = of_nat (length frame)"
    "get_u32_le (drop (length pre + 4) ?data) = of_nat (length d)"
    "?data ! (length pre + 8) = fl"
    "get_u32_le (drop (length pre + 9) ?data) = otsardb_segment_crc32 frame"
    "drop (length pre + 13) ?data = d @ post"
    by (simp_all add: segment_block_def nth_append)
  have size: "length (segment_block frame fl d) = 13 + length d"
    by (simp add: segment_block_def)
  have stored: "(if fl AND 1 \<noteq> 0
      then (case lz4d (d @ post) (int (length d)) (int (length frame)) of
              None \<Rightarrow> None | Some out \<Rightarrow> if length out = length frame then Some out else None)
      else if (of_nat (length d) :: u32) = of_nat (length frame) then Some (take (length frame) (d @ post)) else None) = Some frame"
    using d inv by (auto simp: lz4_inverse_def)
  have fl: "fl AND NOT 1 = 0" using d by auto
  show ?thesis
    unfolding otsardb_segment_frame_decode_def Let_def segment_block_header_size_def f u stored
    using ok len fl by (simp add: size segment_frame_ok_def wal_batch_frame_header_size_def
        wal_batch_page_size_min_def segment_max_decompressed_def u stored)
qed

lemma segment_emit_blocks_ok:
  assumes "\<forall>f\<in>set frames. segment_frame_ok rs f" "lz4_inverse lz4c lz4d"
  shows "\<exists>blocks offsets.
     segment_emit_blocks lz4c (block_choices lz4c compress frames) off = Some (blocks, offsets) \<and>
     length blocks = sum_list (map (\<lambda>f. segment_block_header_size + fst (segment_choose_block lz4c compress f)) frames) \<and>
     length offsets = length frames \<and>
     (\<forall>pre post. segment_decode_blocks lz4d (pre @ blocks @ post) rs (length frames) (length pre) =
        Some (length pre + length blocks, concat frames)) \<and>
     (\<forall>i < length frames. \<forall>pre post. length pre = off \<longrightarrow>
        (\<exists>e. otsardb_segment_frame_decode lz4d (pre @ blocks @ post) (offsets ! i) =
              Some (e, frames ! i, get_u32_le (frames ! i))))"
  using assms(1)
proof (induction frames arbitrary: off)
  case Nil
  then show ?case by (simp add: block_choices_def)
next
  case (Cons f frames)
  obtain d fl where emit: "segment_emit_block lz4c f (segment_choose_block lz4c compress f) = Some (segment_block f fl d)"
    and fst_d: "fst (segment_choose_block lz4c compress f) = length d"
    and dd: "fl = 0 \<and> d = f \<or> fl = 1 \<and> (\<exists>cap. lz4c f cap = Some d) \<and> length d < length f"
    by (rule segment_emit_choose)
  let ?b = "segment_block f fl d"
  have fok: "segment_frame_ok rs f" using Cons.prems by simp
  note dec = segment_frame_decode_block [OF fok assms(2) dd]
  have size: "length ?b = segment_block_header_size + length d"
    by (simp add: segment_block_def segment_block_header_size_def)
  obtain blocks offsets where IH:
    "segment_emit_blocks lz4c (block_choices lz4c compress frames) (off + length ?b) = Some (blocks, offsets)"
    "length blocks = sum_list (map (\<lambda>f. segment_block_header_size + fst (segment_choose_block lz4c compress f)) frames)"
    "length offsets = length frames"
    "\<forall>pre post. segment_decode_blocks lz4d (pre @ blocks @ post) rs (length frames) (length pre) =
        Some (length pre + length blocks, concat frames)"
    "\<forall>i < length frames. \<forall>pre post. length pre = off + length ?b \<longrightarrow>
        (\<exists>e. otsardb_segment_frame_decode lz4d (pre @ blocks @ post) (offsets ! i) =
              Some (e, frames ! i, get_u32_le (frames ! i)))"
    using Cons.IH [of "off + length ?b"] Cons.prems by auto
  have "segment_decode_blocks lz4d (pre @ (?b @ blocks) @ post) rs (Suc (length frames)) (length pre) =
      Some (length pre + length (?b @ blocks), f @ concat frames)" for pre post
    using dec [of pre "blocks @ post"] fok IH(4) [rule_format, of "pre @ ?b" post]
    by (simp add: segment_frame_ok_def)
  moreover have "\<exists>e. otsardb_segment_frame_decode lz4d (pre @ (?b @ blocks) @ post) ((off # offsets) ! i) =
              Some (e, (f # frames) ! i, get_u32_le ((f # frames) ! i))"
    if "i < Suc (length frames)" "length pre = off" for i pre post
  proof (cases i)
    case 0
    then show ?thesis using dec [of pre "blocks @ post"] that by simp
  next
    case (Suc j)
    then show ?thesis using IH(5) [rule_format, of j "pre @ ?b" post] that by simp
  qed
  ultimately show ?case
    using IH(1-3) emit fst_d size
    by (intro exI [of _ "?b @ blocks"] exI [of _ "off # offsets"])
      (simp add: block_choices_def del: segment_decode_blocks.simps)
qed

lemma apply_frames_map_of: "apply_frames fs db = db ++ map_of (rev fs)"
  unfolding apply_frames_def by (induction fs arbitrary: db) (auto simp: fun_eq_iff map_add_def split: option.split)

lemma apply_frames_distinct: "distinct (map fst fs) \<Longrightarrow> apply_frames fs db = db ++ map_of fs"
  using map_of_inject_set [of "rev fs" fs] by (simp add: apply_frames_map_of rev_map [symmetric])

lemma map_of_note_ref: "map_of (segment_note_ref refs n i) = map_of refs ++ [n \<mapsto> i]"
  by (induction refs n i rule: segment_note_ref.induct) (auto simp: fun_eq_iff map_add_def)

lemma keys_note_ref: "fst ` set (segment_note_ref refs n i) = insert n (fst ` set refs)"
  by (induction refs n i rule: segment_note_ref.induct) auto

lemma distinct_note_ref:
  "distinct (map fst refs) \<Longrightarrow> distinct (map fst (segment_note_ref refs n i))"
  by (induction refs n i rule: segment_note_ref.induct) (auto simp: keys_note_ref image_iff)

lemma length_note_ref: "length (segment_note_ref refs n i) \<le> Suc (length refs)"
  by (induction refs n i rule: segment_note_ref.induct) auto

lemma collect_refs:
  assumes "\<forall>i\<in>set is. \<exists>page. otsardb_wal_batch_frame batch (of_nat i) = Some (pn i, page)"
    "distinct (map fst refs)"
  shows "\<exists>refs'. segment_collect_refs batch is refs = Some refs' \<and> distinct (map fst refs') \<and>
     map_of refs' = map_of refs ++ map_of (rev (map (\<lambda>i. (pn i, i)) is)) \<and> length refs' \<le> length is + length refs \<and>
     set (map fst refs') = set (map fst refs) \<union> pn ` set is"
  using assms
proof (induction "is" arbitrary: refs)
  case (Cons i "is")
  then obtain page where page: "otsardb_wal_batch_frame batch (of_nat i) = Some (pn i, page)" by auto
  obtain refs' where "segment_collect_refs batch is (segment_note_ref refs (pn i) i) = Some refs'"
    "distinct (map fst refs')"
    "map_of refs' = map_of (segment_note_ref refs (pn i) i) ++ map_of (rev (map (\<lambda>i. (pn i, i)) is))"
    "length refs' \<le> length is + length (segment_note_ref refs (pn i) i)"
    "set (map fst refs') = set (map fst (segment_note_ref refs (pn i) i)) \<union> pn ` set is"
    using Cons.IH [OF _ distinct_note_ref [OF Cons.prems(2)], of "pn i" i] Cons.prems(1)
    by (meson list.set_intros(2))
  then show ?case
    using page length_note_ref [of refs "pn i" i]
    by (intro exI [of _ refs']) (simp add: map_of_note_ref keys_note_ref)
qed simp

lemma last_index_apply:
  "map_of (rev (map (\<lambda>i. (pn i, img i)) is)) p = map_option img (map_of (rev (map (\<lambda>i. (pn i, i)) is)) p)"
  by (induction "is" rule: rev_induct) auto


lemma length_batch_page:
  assumes "length pages = n * unat p" "i < n"
  shows "length (batch_page p pages i) = unat p"
proof -
  have "(i + 1) * unat p \<le> length pages" unfolding assms(1) using assms(2) by (intro mult_le_mono1) simp
  then show ?thesis by (simp add: length_mem_slice algebra_simps)
qed

lemma batch_page_lengths:
  assumes "length pages = n * unat p" "\<forall>(q, i)\<in>set refs. i < n \<and> page_nos ! i = q"
  shows "\<forall>x\<in>set (map (\<lambda>(q, i). batch_page p pages i) refs). length x = unat p"
  using assms(2) length_batch_page [OF assms(1)] by fastforce

lemma segment_record_of_batch:
  assumes "otsardb_wal_batch_encode p d page_nos pages f = Some payload" "length pages = unat f * unat p"
    "i < unat f"
  shows "segment_frame_record (encoded_view p d f payload) i = wal_batch_record (unat p) page_nos pages i"
proof -
  let ?recs = "map (wal_batch_record (unat p) page_nos pages) [0..<unat f]"
  have "payload = wal_batch_header p d f @ concat ?recs" using assms(1) by (simp add: wal_batch_encode_eq)
  then have "segment_frame_record (encoded_view p d f payload) i = mem_slice (concat ?recs) (i * (8 + unat p)) (8 + unat p)"
    by (simp add: segment_frame_record_def wal_batch_frame_header_size_def wal_batch_header_size_def mem_slice_def
        Let_def)
  then show ?thesis
    using mem_slice_concat [OF wal_batch_record_lengths [OF assms(2)], of i page_nos] assms(3) by simp
qed

lemma segment_refs_of_batch:
  assumes "otsardb_wal_batch_encode p d page_nos pages f = Some payload" "length pages = unat f * unat p"
  obtains found where
    "segment_collect_refs (encoded_view p d f payload) [0..<unat f] [] = Some found"
    "distinct (map fst found)" "found \<noteq> []" "length found \<le> unat f"
    "\<forall>(q, i)\<in>set found. i < unat f \<and> page_nos ! i = q"
    "map_of found = map_of (rev (map (\<lambda>i. (page_nos ! i, i)) [0..<unat f]))"
proof -
  have small: "unat (of_nat i :: u32) = i" if "i < unat f" for i
    using that unat_u32_le [of f] by simp
  have fr: "otsardb_wal_batch_frame (encoded_view p d f payload) (of_nat i) = Some (page_nos ! i, batch_page p pages i)"
    if "i < unat f" for i
    using wal_batch_encode_frame [OF assms, of "of_nat i"] that small [OF that] by (simp add: word_less_nat_alt)
  have "unat f > 0" using assms(1) by (simp add: wal_batch_encode_eq unat_gt_0)
  obtain found where found: "segment_collect_refs (encoded_view p d f payload) [0..<unat f] [] = Some found"
    "distinct (map fst found)" "map_of found = map_of [] ++ map_of (rev (map (\<lambda>i. (page_nos ! i, i)) [0..<unat f]))"
    "length found \<le> unat f" "set (map fst found) = (\<lambda>i. page_nos ! i) ` {0..<unat f}"
    using collect_refs [of "[0..<unat f]" "encoded_view p d f payload" "\<lambda>i. page_nos ! i" "[]"] fr by auto
  have "\<forall>(q, i)\<in>set found. i < unat f \<and> page_nos ! i = q"
  proof safe
    fix q i assume "(q, i) \<in> set found"
    then have "map_of found q = Some i" using found(2) by simp
    then have "(q, i) \<in> set (rev (map (\<lambda>i. (page_nos ! i, i)) [0..<unat f]))"
      unfolding found(3) by (simp only: map_of.simps(1) empty_map_add map_of_SomeD)
    then show "i < unat f" "page_nos ! i = q" by auto
  qed
  moreover have "found \<noteq> []"
    using found(5) \<open>unat f > 0\<close> by (metis atLeastLessThan_empty_iff2 image_is_empty list.simps(8) set_empty)
  ultimately show ?thesis
    using that [OF found(1,2) _ found(4)] found(3) by simp
qed

lemma segment_reencode:
  assumes enc: "otsardb_wal_batch_encode p d page_nos pages f = Some payload" and len: "length pages = unat f * unat p"
    and refs: "refs \<noteq> []" "length refs \<le> unat f" "\<forall>(q, i)\<in>set refs. i < unat f \<and> page_nos ! i = q"
  shows "otsardb_wal_batch_encode p d (map fst refs) (concat (map (\<lambda>(q, i). batch_page p pages i) refs)) (of_nat (length refs)) =
     Some (wal_batch_header p d (of_nat (length refs)) @
           concat (map (\<lambda>(q, i). wal_batch_record (unat p) page_nos pages i) refs))"
proof -
  have cnt: "unat (of_nat (length refs) :: u32) = length refs" using refs(2) unat_u32_le [of f] by simp
  have nz: "of_nat (length refs) \<noteq> (0 :: u32)" using cnt refs(1) by (metis length_0_conv unsigned_0)
  note pages = batch_page_lengths [OF len refs(3)]
  have rec: "wal_batch_record (unat p) (map fst refs) (concat (map (\<lambda>(q, i). batch_page p pages i) refs)) k =
      (case refs ! k of (q, i) \<Rightarrow> wal_batch_record (unat p) page_nos pages i)" if "k < length refs" for k
  proof -
    obtain q i where qi: "refs ! k = (q, i)" by (cases "refs ! k")
    then have "page_nos ! i = q" using refs(3) that nth_mem by fastforce
    then show ?thesis
      using mem_slice_concat [OF pages, of k] that qi by (simp add: wal_batch_record_def)
  qed
  have recs: "map (wal_batch_record (unat p) (map fst refs) (concat (map (\<lambda>(q, i). batch_page p pages i) refs))) [0..<length refs] =
      map (\<lambda>(q, i). wal_batch_record (unat p) page_nos pages i) refs"
    by (rule nth_equalityI) (simp_all add: rec)
  have nonzero: "\<forall>k < length refs. map fst refs ! k \<noteq> 0"
  proof safe
    fix k assume k: "k < length refs" "map fst refs ! k = 0"
    obtain q i where qi: "refs ! k = (q, i)" by (cases "refs ! k")
    then have "i < unat f" "page_nos ! i = q" using refs(3) k nth_mem by fastforce+
    then show False using enc k qi by (auto simp: wal_batch_encode_eq)
  qed
  have "unat f \<le> (size_max - wal_batch_header_size) div (wal_batch_frame_header_size + unat p)"
    "valid_page_size p" "d \<noteq> 0" using enc by (simp_all add: wal_batch_encode_eq)
  then show ?thesis
    using refs(2) nz nonzero by (simp add: wal_batch_encode_eq cnt recs)
qed

lemma segment_choose_le: "fst (segment_choose_block lz4c compress frame) \<le> length frame"
  by (auto simp: segment_choose_block_def Let_def split: option.split)

lemma segment_batch_header_patched:
  assumes "otsardb_wal_batch_encode p d page_nos pages f = Some payload"
  shows "segment_batch_header (encoded_view p d f payload) n = wal_batch_header p d (of_nat n)"
proof -
  have "take 32 payload = wal_batch_header p d f" using assms by (auto simp: wal_batch_encode_eq)
  then show ?thesis
    by (simp add: segment_batch_header_def wal_batch_header_size_def mem_write_def wal_batch_header_def)
qed

lemma wal_record_frame_ok:
  assumes "otsardb_wal_batch_encode p d page_nos pages f = Some payload" "length pages = unat f * unat p" "i < unat f"
  shows "segment_frame_ok (8 + unat p) (wal_batch_record (unat p) page_nos pages i)"
    "get_u32_le (wal_batch_record (unat p) page_nos pages i) = page_nos ! i"
proof -
  have "valid_page_size p" "page_nos ! i \<noteq> 0" using assms(1,3) by (simp_all add: wal_batch_encode_eq)
  then show "segment_frame_ok (8 + unat p) (wal_batch_record (unat p) page_nos pages i)"
    using length_batch_page [OF assms(2,3)] valid_page_size_bounds [of p]
    by (simp add: segment_frame_ok_def wal_batch_record_def wal_batch_frame_header_size_def wal_batch_page_size_min_def)
  show "get_u32_le (wal_batch_record (unat p) page_nos pages i) = page_nos ! i"
    by (simp add: wal_batch_record_def)
qed

lemma sum_list_le: "\<forall>x\<in>set xs. g x \<le> (b :: nat) \<Longrightarrow> sum_list (map g xs) \<le> length xs * b"
  by (induction xs) auto

lemma zip_map_self: "zip xs (map g xs) = map (\<lambda>x. (x, g x)) xs"
  by (induction xs) simp_all

lemma segment_encode_v3_object:
  assumes enc: "otsardb_wal_batch_encode p d page_nos pages f = Some payload" and len: "length pages = unat f * unat p"
    and sha: "\<forall>x. length (sha x) = 32" and cid: "length cid \<le> segment_commit_id_max"
    and lz4: "lz4_inverse lz4c lz4d"
  obtains refs blocks offsets hex where
    "sorted (map fst refs)" "distinct (map fst refs)" "refs \<noteq> []" "length refs \<le> unat f"
    "\<forall>(q, i)\<in>set refs. i < unat f \<and> page_nos ! i = q"
    "map_of refs = map_of (rev (map (\<lambda>i. (page_nos ! i, i)) [0..<unat f]))"
    "segment_encode_v3 sha lz4c cid payload compress =
       Some (segment_object sha 3 1 cid 0 (wal_batch_header p d (of_nat (length refs)) @ blocks), hex,
             \<lparr>fi_offsets = offsets, fi_page_nos = map fst refs\<rparr>)"
    "length offsets = length refs"
    "segment_header_size + length cid + length (wal_batch_header p d (of_nat (length refs)) @ blocks) \<le> size_max"
    "\<forall>pre post. segment_decode_blocks lz4d (pre @ blocks @ post) (8 + unat p) (length refs) (length pre) =
        Some (length pre + length blocks, concat (map (\<lambda>(q, i). wal_batch_record (unat p) page_nos pages i) refs))"
    "\<forall>k < length refs. \<forall>pre post. length pre = segment_header_size + length cid + wal_batch_header_size \<longrightarrow>
        (\<exists>e. otsardb_segment_frame_decode lz4d (pre @ blocks @ post) (offsets ! k) =
              Some (e, wal_batch_record (unat p) page_nos pages (snd (refs ! k)), fst (refs ! k)))"
proof -
  let ?v = "encoded_view p d f payload" and ?rec = "wal_batch_record (unat p) page_nos pages"
  obtain found where found: "segment_collect_refs ?v [0..<unat f] [] = Some found"
    "distinct (map fst found)" "found \<noteq> []" "length found \<le> unat f"
    "\<forall>(q, i)\<in>set found. i < unat f \<and> page_nos ! i = q"
    "map_of found = map_of (rev (map (\<lambda>i. (page_nos ! i, i)) [0..<unat f]))"
    by (rule segment_refs_of_batch [OF enc len])
  define refs where "refs = sort_key fst found"
  have refs: "sorted (map fst refs)" "distinct (map fst refs)" "refs \<noteq> []" "length refs \<le> unat f"
    "\<forall>(q, i)\<in>set refs. i < unat f \<and> page_nos ! i = q" "set refs = set found"
  proof -
    have "mset (map fst refs) = mset (map fst found)" by (simp add: refs_def)
    then show "distinct (map fst refs)" using found(2) mset_eq_imp_distinct_iff by blast
    show same: "set refs = set found" by (simp add: refs_def)
    show "sorted (map fst refs)" by (simp add: refs_def)
    show "length refs \<le> unat f" using found(4) by (simp add: refs_def)
    show "refs \<noteq> []" using same found(3) by auto
    show "\<forall>(q, i)\<in>set refs. i < unat f \<and> page_nos ! i = q" unfolding same by (rule found(5))
  qed
  have mo: "map_of refs = map_of (rev (map (\<lambda>i. (page_nos ! i, i)) [0..<unat f]))"
    using found(2,6) refs(2,6) map_of_inject_set [of refs found] by simp
  let ?frames = "map (\<lambda>(q, i). ?rec i) refs"
  have frames: "map (\<lambda>(n, i). segment_frame_record ?v i) refs = ?frames"
    using segment_record_of_batch [OF enc len] refs(5) by (auto intro!: map_cong)
  have ok: "\<forall>x\<in>set ?frames. segment_frame_ok (8 + unat p) x"
    using wal_record_frame_ok(1) [OF enc len] refs(5) by fastforce
  let ?off = "segment_header_size + length cid + wal_batch_header_size"
  from segment_emit_blocks_ok [OF ok lz4, of compress ?off] obtain blocks offsets where em:
    "segment_emit_blocks lz4c (block_choices lz4c compress ?frames) ?off = Some (blocks, offsets)"
    "length blocks = sum_list (map (\<lambda>f. segment_block_header_size + fst (segment_choose_block lz4c compress f)) ?frames)"
    "length offsets = length ?frames"
    "\<forall>pre post. segment_decode_blocks lz4d (pre @ blocks @ post) (8 + unat p) (length ?frames) (length pre) =
        Some (length pre + length blocks, concat ?frames)"
    "\<forall>i < length ?frames. \<forall>pre post. length pre = ?off \<longrightarrow>
        (\<exists>e. otsardb_segment_frame_decode lz4d (pre @ blocks @ post) (offsets ! i) =
              Some (e, ?frames ! i, get_u32_le (?frames ! i)))"
    by blast
  have zip: "zip ?frames (map (segment_choose_block lz4c compress) ?frames) = block_choices lz4c compress ?frames"
    unfolding block_choices_def by (rule zip_map_self)
  have "\<forall>x\<in>set ?frames. segment_block_header_size + fst (segment_choose_block lz4c compress x) \<le> 13 + 65544"
    using ok segment_choose_le by (fastforce simp: segment_frame_ok_def segment_block_header_size_def intro: le_trans)
  then have bl: "length blocks \<le> length refs * 65557"
    using sum_list_le [of ?frames "\<lambda>f. segment_block_header_size + fst (segment_choose_block lz4c compress f)" 65557] em(2) by simp
  also have "\<dots> \<le> uint32_max * 65557"
    using refs(4) unat_u32_le [of f] by (intro mult_le_mono1) simp
  finally have total: "segment_header_size + length cid + (32 + length blocks) \<le> size_max"
    using cid by (simp add: segment_header_size_def segment_commit_id_max_def size_max_def uint32_max_def)
  have sum: "sum_list (map (\<lambda>(n, f). segment_block_header_size + n) (map (segment_choose_block lz4c compress) ?frames)) = length blocks"
    unfolding em(2) map_map by (intro arg_cong [where f = sum_list] map_cong) (auto split: prod.split)
  have ps: "unat p \<le> 65536" using enc valid_page_size_bounds by (simp add: wal_batch_encode_eq)
  have "segment_encode_v3 sha lz4c cid payload compress =
       Some (segment_object sha 3 1 cid 0 (wal_batch_header p d (of_nat (length refs)) @ blocks),
             otsardb_sha256_hex_data sha (segment_object sha 3 1 cid 0 (wal_batch_header p d (of_nat (length refs)) @ blocks)),
             \<lparr>fi_offsets = offsets, fi_page_nos = map fst refs\<rparr>)"
  proof -
    have nat: "\<not> 8 + unat p > uint32_max" "\<not> 8 + unat p > int_max" "\<not> length cid > segment_commit_id_max"
      "\<not> segment_header_size > size_max - length cid"
      "\<not> segment_header_size + length cid > size_max - (32 + length blocks)"
      "length (wal_batch_header p d (of_nat (length refs)) @ blocks) = 32 + length blocks"
      using total cid ps by (simp_all add: uint32_max_def int_max_def)
    show ?thesis
      unfolding segment_encode_v3_def wal_batch_encode_view [OF enc len] option.case found(1)
        wal_batch_view.select_convs Let_def refs_def [symmetric] frames zip sum em(1) prod.case
        segment_batch_header_patched [OF enc] wal_batch_frame_header_size_def segment_batch_header_copy_size_def
        segment_format_version_def segment_wal_frames_def nat
      by (simp add: nat)
  qed
  moreover have "\<exists>e. otsardb_segment_frame_decode lz4d (pre @ blocks @ post) (offsets ! k) =
              Some (e, ?rec (snd (refs ! k)), fst (refs ! k))"
    if "k < length refs" "length pre = ?off" for k pre post
  proof -
    obtain q i where qi: "refs ! k = (q, i)" by (cases "refs ! k")
    then have "i < unat f" "page_nos ! i = q" using refs(5) that(1) nth_mem by fastforce+
    then show ?thesis
      using em(5) [rule_format, of k pre post] that qi wal_record_frame_ok(2) [OF enc len, of i] by simp
  qed
  ultimately show ?thesis
    using that [OF refs(1-5) mo] em(3,4) total by simp
qed

lemma wal_batch_frames_encoded:
  assumes "otsardb_wal_batch_encode p d page_nos pages f = Some payload" "length pages = unat f * unat p"
  shows "wal_batch_frames (encoded_view p d f payload) = map (\<lambda>i. (page_nos ! i, batch_page p pages i)) [0..<unat f]"
proof -
  have "otsardb_wal_batch_frame (encoded_view p d f payload) (of_nat i) = Some (page_nos ! i, batch_page p pages i)"
    if "i < unat f" for i
    using wal_batch_encode_frame [OF assms, of "of_nat i"] that unat_u32_le [of f] by (simp add: word_less_nat_alt)
  then show ?thesis by (simp add: wal_batch_frames_def)
qed

lemma wal_batch_frames_reencoded:
  assumes len: "length pages = n * unat p" and refs: "\<forall>(q, i)\<in>set refs. i < n \<and> page_nos ! i = q"
    and re: "otsardb_wal_batch_encode p d (map fst refs) (concat (map (\<lambda>(q, i). batch_page p pages i) refs)) f' = Some out"
    and cnt: "unat f' = length refs"
  shows "wal_batch_frames (encoded_view p d f' out) = map (\<lambda>(q, i). (q, batch_page p pages i)) refs"
    (is "?fr = ?refs")
proof (rule nth_equalityI)
  note pages = batch_page_lengths [OF len refs]
  have len': "length (concat (map (\<lambda>(q, i). batch_page p pages i) refs)) = unat f' * unat p"
    using length_concat_records [OF pages] by (simp add: cnt)
  show "length ?fr = length ?refs" by (simp add: wal_batch_frames_def cnt)
  fix k assume "k < length ?fr"
  then have "k < length refs" by (simp add: wal_batch_frames_def cnt)
  then show "?fr ! k = ?refs ! k"
    using mem_slice_concat [OF pages, of k]
    unfolding wal_batch_frames_encoded [OF re len'] cnt by (simp add: case_prod_beta)
qed

lemma apply_refs:
  assumes "distinct (map fst refs)" "map_of refs = map_of (rev (map (\<lambda>i. (pn i, i)) is))"
  shows "apply_frames (map (\<lambda>(q, i). (q, img i)) refs) db = apply_frames (map (\<lambda>i. (pn i, img i)) is) db"
proof -
  have "map_of (map (\<lambda>(q, i). (q, img i)) refs) q = map_option img (map_of refs q)" for q
    by (induction refs) auto
  then have same: "map_of (map (\<lambda>(q, i). (q, img i)) refs) = map_of (rev (map (\<lambda>i. (pn i, img i)) is))"
    using last_index_apply [of pn img "is"] assms(2) by (intro ext) simp
  have "distinct (map fst (map (\<lambda>(q, i). (q, img i)) refs))"
    using assms(1) by (simp add: o_def case_prod_beta)
  from apply_frames_distinct [OF this] show ?thesis
    by (simp only: apply_frames_map_of [of "map (\<lambda>i. (pn i, img i)) is"] same)
qed

lemma segment_decompress_v3_object:
  assumes enc: "otsardb_wal_batch_encode p d page_nos pages f' = Some out" and len: "length pages = unat f' * unat p"
    and out: "out = wal_batch_header p d f' @ frames"
    and size: "unat f' \<le> (segment_max_decompressed - wal_batch_header_size) div (wal_batch_frame_header_size + unat p)"
    and blocks: "segment_decode_blocks lz4d (wal_batch_header p d f' @ blocks) (8 + unat p) (unat f') 32 =
        Some (32 + length blocks, frames)"
  shows "segment_decompress_v3 lz4d (wal_batch_header p d f' @ blocks) = Some out"
proof -
  have ok: "valid_page_size p" "f' \<noteq> 0" using enc by (simp_all add: wal_batch_encode_eq)
  show ?thesis
    using ok size blocks wal_batch_encode_view [OF enc len] wal_batch_encode_size [OF enc len]
    by (simp add: segment_decompress_v3_def segment_batch_header_copy_size_def Let_def out
        wal_batch_frame_header_size_def wal_batch_header_size_def)
qed

section \<open>Sample parameters\<close>

text \<open>A stand-in for LZ4 that stores the input behind a marker byte.\<close>

definition sample_lz4c :: lz4_compress where
  "sample_lz4c x cap = Some (0 # x)"

definition sample_lz4d :: lz4_decompress where
  "sample_lz4d src n cap = Some (tl (take (nat n) src))"

lemma sample_lz4_inverse: "lz4_inverse sample_lz4c sample_lz4d"
  by (auto simp: lz4_inverse_def sample_lz4c_def sample_lz4d_def nat_add_distrib)

lemma segment_v3_stored:
  assumes enc: "otsardb_wal_batch_encode p d page_nos pages f = Some payload" and len: "length pages = unat f * unat p"
    and sha: "\<forall>x. length (sha x) = 32" and cid: "cid \<noteq> []" "length cid \<le> segment_commit_id_max"
    and lz4: "lz4_inverse lz4c lz4d"
    and size: "unat f \<le> (segment_max_decompressed - wal_batch_header_size) div (wal_batch_frame_header_size + unat p)"
  shows "\<exists>obj hex info view out batch batch' page_nos' pages' f'.
     otsardb_segment_encode_with_frames sha lz4c segment_wal_frames cid payload compress = Some (obj, hex, info) \<and>
     otsardb_segment_decode sha obj = Some view \<and> sv_commit_id view = cid \<and>
     sv_kind view = segment_wal_frames \<and> sv_compressed view \<and>
     otsardb_wal_batch_encode p d page_nos' pages' f' = Some out \<and> length pages' = unat f' * unat p \<and>
     otsardb_segment_decompress lz4d view = Some out \<and>
     otsardb_wal_batch_decode payload = Some batch \<and> otsardb_wal_batch_decode out = Some batch' \<and>
     wb_page_size batch' = p \<and> wb_database_size_pages batch' = d \<and>
     sorted_wrt (<) (map fst (wal_batch_frames batch')) \<and>
     (\<forall>db. apply_frames (wal_batch_frames batch') db = apply_frames (wal_batch_frames batch) db)"
proof -
  obtain refs blocks offsets hex where r:
    "sorted (map fst refs)" "distinct (map fst refs)" "refs \<noteq> []" "length refs \<le> unat f"
    "\<forall>(q, i)\<in>set refs. i < unat f \<and> page_nos ! i = q"
    "map_of refs = map_of (rev (map (\<lambda>i. (page_nos ! i, i)) [0..<unat f]))"
    "segment_encode_v3 sha lz4c cid payload compress =
       Some (segment_object sha 3 1 cid 0 (wal_batch_header p d (of_nat (length refs)) @ blocks), hex,
             \<lparr>fi_offsets = offsets, fi_page_nos = map fst refs\<rparr>)"
    "length offsets = length refs"
    "segment_header_size + length cid + length (wal_batch_header p d (of_nat (length refs)) @ blocks) \<le> size_max"
    and dec: "\<forall>pre post. segment_decode_blocks lz4d (pre @ blocks @ post) (8 + unat p) (length refs) (length pre) =
        Some (length pre + length blocks, concat (map (\<lambda>(q, i). wal_batch_record (unat p) page_nos pages i) refs))"
    and tab: "\<forall>k < length refs. \<forall>pre post. length pre = segment_header_size + length cid + wal_batch_header_size \<longrightarrow>
        (\<exists>e. otsardb_segment_frame_decode lz4d (pre @ blocks @ post) (offsets ! k) =
              Some (e, wal_batch_record (unat p) page_nos pages (snd (refs ! k)), fst (refs ! k)))"
    by (rule segment_encode_v3_object [where compress = compress, OF enc len sha cid(2) lz4])
  let ?f' = "of_nat (length refs) :: u32" and ?pn' = "map fst refs"
  let ?pages' = "concat (map (\<lambda>(q, i). batch_page p pages i) refs)"
  let ?st = "wal_batch_header p d ?f' @ blocks"
  have cnt: "unat ?f' = length refs" using r(4) unat_u32_le [of f] by simp
  note re = segment_reencode [OF enc len r(3,4,5)]
  have len': "length ?pages' = unat ?f' * unat p"
    using length_concat_records [OF batch_page_lengths [OF len r(5)]] by (simp add: cnt)
  have out: "segment_decompress_v3 lz4d ?st =
      Some (wal_batch_header p d ?f' @ concat (map (\<lambda>(q, i). wal_batch_record (unat p) page_nos pages i) refs))"
    (is "_ = Some ?out")
    by (rule segment_decompress_v3_object [OF re len' refl])
      (use size r(4) dec [rule_format, of "wal_batch_header p d ?f'" "[]"] in \<open>simp_all add: cnt\<close>)
  have view: "otsardb_segment_decode sha (segment_object sha 3 1 cid 0 ?st) =
     Some \<lparr>sv_format_version = 3, sv_kind = 1, sv_commit_id = cid, sv_payload = ?st,
           sv_compressed = True, sv_payload_sha256 = otsardb_sha256_hex (sha ?st)\<rparr>" (is "_ = Some ?view")
    using segment_decode_object [of sha ?st 3 1 cid 0] sha cid r(9) by simp
  have fr': "wal_batch_frames (encoded_view p d ?f' ?out) = map (\<lambda>(q, i). (q, batch_page p pages i)) refs"
    (is "?fr = _")
    by (rule wal_batch_frames_reencoded [OF len r(5) re cnt])
  have fr: "wal_batch_frames (encoded_view p d f payload) = map (\<lambda>i. (page_nos ! i, batch_page p pages i)) [0..<unat f]"
    by (rule wal_batch_frames_encoded [OF enc len])
  show ?thesis
  proof (intro exI conjI)
    show "otsardb_segment_encode_with_frames sha lz4c segment_wal_frames cid payload compress =
        Some (segment_object sha 3 1 cid 0 ?st, hex, \<lparr>fi_offsets = offsets, fi_page_nos = map fst refs\<rparr>)"
      using r(7) cid(1) by (simp add: otsardb_segment_encode_with_frames_def segment_wal_frames_def)
    show "otsardb_segment_decode sha (segment_object sha 3 1 cid 0 ?st) = Some ?view" by (rule view)
    show "sv_commit_id ?view = cid" "sv_kind ?view = segment_wal_frames" "sv_compressed ?view"
      by (simp_all add: segment_wal_frames_def)
    show "otsardb_wal_batch_encode p d ?pn' ?pages' ?f' = Some ?out" "length ?pages' = unat ?f' * unat p"
      by (rule re, rule len')
    show "otsardb_segment_decompress lz4d ?view = Some ?out"
      using out by (simp add: otsardb_segment_decompress_def)
    show "otsardb_wal_batch_decode payload = Some (encoded_view p d f payload)"
      by (rule wal_batch_encode_view [OF enc len])
    show "otsardb_wal_batch_decode ?out = Some (encoded_view p d ?f' ?out)"
      by (rule wal_batch_encode_view [OF re len'])
    show "wb_page_size (encoded_view p d ?f' ?out) = p" "wb_database_size_pages (encoded_view p d ?f' ?out) = d"
      by (simp_all only: wal_batch_view.select_convs)
    show "sorted_wrt (<) (map fst ?fr)"
      unfolding fr' using r(1,2) by (simp add: o_def case_prod_beta strict_sorted_iff)
    show "\<forall>db. apply_frames ?fr db = apply_frames (wal_batch_frames (encoded_view p d f payload)) db"
      unfolding fr' fr by (intro allI apply_refs [OF r(2,6)])
  qed
qed

section \<open>Properties\<close>

text \<open>
  (C12) A batch of page images survives being stored: the segment written for it is accepted, and
  decompressing it gives a batch with the same page size and database size whose pages are in
  strictly ascending order and whose application to any database has the same effect as applying
  the original frames in order, repeated pages included (the last frame of a page wins).  LZ4 only
  has to invert its own output.
\<close>

theorem segment_v3_round_trip:
  assumes enc: "otsardb_wal_batch_encode p d page_nos pages f = Some payload" and len: "length pages = unat f * unat p"
    and sha: "\<forall>x. length (sha x) = 32" and cid: "cid \<noteq> []" "length cid \<le> segment_commit_id_max"
    and lz4: "lz4_inverse lz4c lz4d"
    and size: "unat f \<le> (segment_max_decompressed - wal_batch_header_size) div (wal_batch_frame_header_size + unat p)"
  shows "\<exists>obj hex info view out batch batch'.
     otsardb_segment_encode_with_frames sha lz4c segment_wal_frames cid payload compress = Some (obj, hex, info) \<and>
     otsardb_segment_decode sha obj = Some view \<and> sv_commit_id view = cid \<and>
     otsardb_segment_decompress lz4d view = Some out \<and>
     otsardb_wal_batch_decode payload = Some batch \<and> otsardb_wal_batch_decode out = Some batch' \<and>
     wb_page_size batch' = p \<and> wb_database_size_pages batch' = d \<and>
     sorted_wrt (<) (map fst (wal_batch_frames batch')) \<and>
     (\<forall>db. apply_frames (wal_batch_frames batch') db = apply_frames (wal_batch_frames batch) db)"
  using segment_v3_stored [OF enc len sha cid lz4 size, of compress] by blast

theorem segment_v3_round_trip_witness:
  "\<exists>obj hex info view out.
     otsardb_segment_encode_with_frames (otsardb_sha256_pure_digest sha256_stack) sample_lz4c segment_wal_frames ''c1''
       (wal_batch_header 512 1 1 @ wal_batch_record 512 [3] (replicate 512 7) 0) True = Some (obj, hex, info) \<and>
     otsardb_segment_decode (otsardb_sha256_pure_digest sha256_stack) obj = Some view \<and>
     otsardb_segment_decompress sample_lz4d view = Some out"
  using segment_v3_round_trip [OF wal_batch_sample _ _ _ _ sample_lz4_inverse, of "otsardb_sha256_pure_digest sha256_stack" "''c1''" True]
  by (fastforce simp: pure_sha.sha_length segment_commit_id_max_def segment_max_decompressed_def wal_batch_header_size_def
      wal_batch_frame_header_size_def)



text \<open>
  A version 2 segment gives its payload back, compressed or not, with the kind and commit id it
  was written with, for payloads up to the decoder's limit of one gigabyte.
\<close>

theorem segment_v2_round_trip:
  assumes enc: "otsardb_segment_encode sha lz4c kind cid payload compress = Some (obj, hex)"
    and sha: "\<forall>x. length (sha x) = 32" and lz4: "lz4_inverse lz4c lz4d"
    and size: "length payload \<le> segment_max_decompressed"
  shows "\<exists>view. otsardb_segment_decode sha obj = Some view \<and> sv_kind view = kind \<and> sv_commit_id view = cid \<and>
     (if sv_compressed view then otsardb_segment_decompress lz4d view = Some payload
      else sv_payload view = payload)"
proof -
  define comp where "comp = (\<exists>c. compress \<and> length payload \<ge> 64 \<and> length payload \<le> int_max \<and>
     LZ4_compressBound (length payload) > 0 \<and> lz4c payload (LZ4_compressBound (length payload)) = Some c \<and>
     0 < length c \<and> length c + 4 < length payload)"
  have guards: "kind \<noteq> 0" "cid \<noteq> []" "length cid \<le> segment_commit_id_max"
    using enc by (auto simp: otsardb_segment_encode_def Let_def split: if_splits)
  have small: "length payload \<le> uint32_max" "length payload \<le> int_max" "length payload \<le> size_max"
    using size by (simp_all add: segment_max_decompressed_def uint32_max_def int_max_def size_max_def)
  show ?thesis
  proof (cases comp)
    case True
    then obtain c where c: "lz4c payload (LZ4_compressBound (length payload)) = Some c"
      "0 < length c" "length c + 4 < length payload" "compress" "length payload \<ge> 64"
      "LZ4_compressBound (length payload) > 0" by (auto simp: comp_def)
    let ?st = "put_u32_le (of_nat (length payload)) @ c"
    have obj: "obj = segment_object sha 2 kind cid 1 ?st"
      "segment_header_size + length cid + length ?st \<le> size_max"
      using enc c guards small by (auto simp: otsardb_segment_encode_def Let_def segment_commit_id_max_def
          segment_header_size_def split: if_splits)
    have "lz4d c (int (length c)) (int (length payload)) = Some payload"
      using lz4 c(1) unfolding lz4_inverse_def by (metis append_Nil2)
    moreover have "of_nat (length payload) \<noteq> (0 :: u32)"
      using c(5) small(1) unat_of_nat_u32 [of "length payload"] by (metis unsigned_0 not_numeral_le_zero)
    moreover have "sint (of_nat (length c) :: u32) = int (length c)"
      using c(3) small(2) by (intro sint_of_nat_u32) simp
    ultimately show ?thesis
      using segment_decode_object [of sha ?st 2 kind cid 1] sha guards obj size small
      by (simp add: otsardb_segment_decompress_def sint_of_nat_u32)
  next
    case False
    then have obj: "obj = segment_object sha 2 kind cid 0 payload"
      "segment_header_size + length cid + length payload \<le> size_max"
      using enc guards small(2,3) size unfolding comp_def
      by (auto simp: otsardb_segment_encode_def Let_def segment_commit_id_max_def segment_header_size_def
          segment_max_decompressed_def size_max_def split: if_splits option.splits)
    then show ?thesis
      using segment_decode_object [of sha payload 2 kind cid 0] sha guards by simp
  qed
qed

theorem segment_v2_round_trip_witness:
  "\<exists>obj hex view. otsardb_segment_encode (otsardb_sha256_pure_digest sha256_stack) sample_lz4c 1 ''c1'' [1, 2, 3] True = Some (obj, hex) \<and>
     otsardb_segment_decode (otsardb_sha256_pure_digest sha256_stack) obj = Some view \<and> sv_commit_id view = ''c1''"
proof -
  let ?sha = "otsardb_sha256_pure_digest sha256_stack"
  have "otsardb_segment_encode ?sha sample_lz4c 1 ''c1'' [1, 2, 3] True =
     Some (segment_object ?sha 2 1 ''c1'' 0 [1, 2, 3], otsardb_sha256_hex_data ?sha (segment_object ?sha 2 1 ''c1'' 0 [1, 2, 3]))"
    by (simp add: otsardb_segment_encode_def Let_def segment_commit_id_max_def segment_header_size_def size_max_def)
  then show ?thesis
    using segment_v2_round_trip [OF _ _ sample_lz4_inverse, of ?sha 1 "''c1''" "[1, 2, 3]" True]
    by (fastforce simp: pure_sha.sha_length segment_max_decompressed_def)
qed

end
