(* ===== verification/C_String.thy ===== *)
theory C_String
  imports Otsar_Prelude
begin

text \<open>
  What the sources use of the C string library, and the conventions of the hand-written JSON of
  the repository.  A C string is a list of characters without the terminating NUL, a pointer into
  it the suffix it points to.  Objects are printed with \<open>snprintf\<close> and read back with \<open>strstr\<close> for
  the quoted field name; the lemmas say which field such a search finds in a printed object.
\<close>

named_theorems json \<open>searching for a field in a printed JSON object\<close>

section \<open>String functions\<close>

abbreviation quote :: char where
  "quote \<equiv> CHR 0x22"

text \<open>The C string at the start of a buffer: it ends at the first NUL.\<close>

definition c_str :: "string \<Rightarrow> string" where
  "c_str s = takeWhile (\<lambda>c. c \<noteq> CHR 0x00) s"

fun strstr :: "string \<Rightarrow> string \<Rightarrow> string option" where
  "strstr [] needle = (if needle = [] then Some [] else None)"
| "strstr (c # hay) needle = (if prefix needle (c # hay) then Some (c # hay) else strstr hay needle)"

fun strchr :: "string \<Rightarrow> char \<Rightarrow> string option" where
  "strchr [] c = None"
| "strchr (x # s) c = (if x = c then Some (x # s) else strchr s c)"

definition isspace :: "char \<Rightarrow> bool" where
  "isspace c \<longleftrightarrow> c = CHR '' '' \<or> c \<in> {CHR 0x09, CHR 0x0A, CHR 0x0B, CHR 0x0C, CHR 0x0D}"

definition isdigit :: "char \<Rightarrow> bool" where
  "isdigit c \<longleftrightarrow> 48 \<le> (of_char c :: nat) \<and> (of_char c :: nat) \<le> 57"

definition digit_value :: "char \<Rightarrow> nat" where
  "digit_value c = of_char c - 48"

text \<open>
  \<open>strtoull\<close> in base 10: \<open>None\<close> when there is nothing to convert (the end pointer stays where it
  was), otherwise the value, the end pointer and whether \<open>errno\<close> became \<open>ERANGE\<close>.  A minus sign
  negates the converted value modulo \<open>2 ^ 64\<close> and is no error.
\<close>

definition digits_value :: "string \<Rightarrow> nat" where
  "digits_value ds = foldl (\<lambda>v c. v * 10 + digit_value c) 0 ds"

definition strtoull :: "string \<Rightarrow> (u64 \<times> string \<times> bool) option" where
  "strtoull p =
     (let q = dropWhile isspace p;
          (neg, q) = (case q of
             [] \<Rightarrow> (False, [])
           | c # r \<Rightarrow> if c = CHR ''-'' then (True, r) else if c = CHR ''+'' then (False, r) else (False, q));
          ds = takeWhile isdigit q;
          rest = dropWhile isdigit q in
      if ds = [] then None
      else if digits_value ds > size_max then Some (of_nat size_max, rest, True)
      else Some (if neg then - of_nat (digits_value ds) else of_nat (digits_value ds), rest, False))"

text \<open>The conversions \<open>%u\<close> and \<open>%llu\<close>.\<close>

definition digit_char :: "nat \<Rightarrow> char" where
  "digit_char d = char_of (48 + d)"

fun dec :: "nat \<Rightarrow> string" where
  "dec n = (if n < 10 then [digit_char n] else dec (n div 10) @ [digit_char (n mod 10)])"

declare dec.simps [simp del]

text \<open>\<open>snprintf\<close> into a buffer of the given size, with the check that nothing was cut off.\<close>

definition snprintf_fits :: "string \<Rightarrow> nat \<Rightarrow> string option" where
  "snprintf_fits s out_size = (if 0 < length s \<and> length s < out_size then Some s else None)"

section \<open>JSON fields\<close>

definition json_u64 :: "string \<Rightarrow> nat \<Rightarrow> string" where
  "json_u64 name v = quote # name @ [quote, CHR '':''] @ dec v"

definition json_str :: "string \<Rightarrow> string \<Rightarrow> string" where
  "json_str name v = quote # name @ [quote, CHR '':'', quote] @ v @ [quote]"

text \<open>The search patterns of \<open>extract_u64\<close> and \<open>extract_string\<close>.\<close>

definition pattern_u64 :: "string \<Rightarrow> string" where
  "pattern_u64 name = quote # name @ [quote, CHR '':'']"

definition pattern_str :: "string \<Rightarrow> string" where
  "pattern_str name = quote # name @ [quote, CHR '':'', quote]"

definition skip_blanks :: "string \<Rightarrow> string" where
  "skip_blanks p = dropWhile (\<lambda>c. c = CHR '' '' \<or> c = CHR 0x09) p"

text \<open>Advancing a pointer past the pattern it was found with.\<close>

definition after_pattern :: "string \<Rightarrow> string \<Rightarrow> string" where
  "after_pattern pattern p = drop (length pattern) p"

text \<open>
  The helpers \<open>extract_u64\<close> and \<open>extract_string\<close> of \<open>journal.c\<close> and \<open>db_metadata.c\<close>; the second takes
  the smallest accepted length as well, since one of the files refuses an empty string.
\<close>

definition extract_u64 :: "string \<Rightarrow> string \<Rightarrow> u64 option" where
  "extract_u64 json name =
     (if length (pattern_u64 name) \<ge> 64 then None
      else case strstr json (pattern_u64 name) of
        None \<Rightarrow> None
      | Some p \<Rightarrow> map_option fst (strtoull (skip_blanks (after_pattern (pattern_u64 name) p))))"

definition extract_string :: "nat \<Rightarrow> string \<Rightarrow> string \<Rightarrow> nat \<Rightarrow> string option" where
  "extract_string min_len json name out_size =
     (if length (pattern_str name) \<ge> 64 then None
      else case strstr json (pattern_str name) of
        None \<Rightarrow> None
      | Some p \<Rightarrow>
          let v = after_pattern (pattern_str name) p in
          (case strchr v quote of
             None \<Rightarrow> None
           | Some e \<Rightarrow>
               let len = length v - length e in
               if len < min_len \<or> len \<ge> out_size then None else Some (take len v)))"

text \<open>Names that occur as field names: not empty, without quotes, not starting with a colon or comma.\<close>

definition json_name :: "string \<Rightarrow> bool" where
  "json_name n \<longleftrightarrow> n \<noteq> [] \<and> quote \<notin> set n \<and> hd n \<notin> {CHR '':'', CHR '','', CHR ''}'', CHR '']''}"

section \<open>Decimal numbers\<close>

lemma isdigit_digit_char [simp]: "d < 10 \<Longrightarrow> isdigit (digit_char d)"
  by (simp add: isdigit_def digit_char_def)

lemma digit_value_digit_char [simp]: "d < 10 \<Longrightarrow> digit_value (digit_char d) = d"
  by (simp add: digit_value_def digit_char_def)

lemma dec_digits: "\<forall>c\<in>set (dec n). isdigit c"
  by (induction n rule: dec.induct) (subst dec.simps, auto)

lemma dec_not_Nil [simp]: "dec n \<noteq> []"
  by (subst dec.simps) simp

lemma digits_value_snoc: "digits_value (ds @ [c]) = digits_value ds * 10 + digit_value c"
  by (simp add: digits_value_def)

lemma digits_value_dec [simp]: "digits_value (dec n) = n"
proof (induction n rule: dec.induct)
  case (1 n)
  show ?case
  proof (cases "n < 10")
    case True
    then show ?thesis by (simp add: dec.simps [of n] digits_value_def)
  next
    case False
    then show ?thesis using 1 by (simp add: dec.simps [of n] digits_value_snoc)
  qed
qed

lemma isdigit_not:
  "isdigit c \<Longrightarrow> \<not> isspace c" "isdigit c \<Longrightarrow> c \<noteq> CHR ''-''" "isdigit c \<Longrightarrow> c \<noteq> CHR ''+''"
  "isdigit c \<Longrightarrow> c \<noteq> quote" "isdigit c \<Longrightarrow> c \<noteq> CHR '' ''" "isdigit c \<Longrightarrow> c \<noteq> CHR 0x09"
  "isdigit c \<Longrightarrow> c \<noteq> CHR 0x00"
  by (auto simp: isdigit_def isspace_def)

lemma takeWhile_digits:
  "\<forall>c\<in>set ds. isdigit c \<Longrightarrow> rest = [] \<or> \<not> isdigit (hd rest) \<Longrightarrow>
   takeWhile isdigit (ds @ rest) = ds \<and> dropWhile isdigit (ds @ rest) = rest"
  by (cases rest) (auto simp: takeWhile_append dropWhile_append)

lemma strtoull_dec:
  assumes "n \<le> size_max" "rest = [] \<or> \<not> isdigit (hd rest)"
  shows "strtoull (dec n @ rest) = Some (of_nat n, rest, False)"
proof -
  obtain c r where c: "dec n = c # r" by (cases "dec n") auto
  then have "isdigit c" using dec_digits [of n] by simp
  then have "dropWhile isspace (dec n @ rest) = c # r @ rest" "c \<noteq> CHR ''-''" "c \<noteq> CHR ''+''"
    using isdigit_not c by auto
  then show ?thesis
    using takeWhile_digits [OF dec_digits [of n] assms(2)] assms(1) digits_value_dec [of n]
    by (simp add: strtoull_def c)
qed

lemma skip_blanks_dec: "skip_blanks (dec n @ rest) = dec n @ rest"
proof -
  obtain c r where c: "dec n = c # r" by (cases "dec n") auto
  then have "isdigit c" using dec_digits [of n] by simp
  then show ?thesis using isdigit_not c by (simp add: skip_blanks_def)
qed

lemma dec_no_quote: "quote \<notin> set (dec n)"
  using dec_digits [of n] isdigit_not(4) by blast

lemma dec_no_nul: "CHR 0x00 \<notin> set (dec n)"
  using dec_digits [of n] isdigit_not(7) by blast

section \<open>Searching printed objects\<close>

lemma prefix_quoted:
  assumes "quote \<notin> set n" "quote \<notin> set v"
  shows "prefix (n @ quote # p) (v @ quote # q) \<longleftrightarrow> n = v \<and> prefix p q"
  using assms
proof (induction n arbitrary: v)
  case Nil
  then show ?case by (cases v) auto
next
  case (Cons c n)
  then show ?case by (cases v) auto
qed

lemma strstr_skip_char [json]:
  "c \<noteq> quote \<Longrightarrow> strstr (c # rest) (quote # needle) = strstr rest (quote # needle)"
  by simp

lemma strstr_skip_noquote [json]:
  "quote \<notin> set w \<Longrightarrow> strstr (w @ rest) (quote # needle) = strstr rest (quote # needle)"
  by (induction w) auto

text \<open>A quotation mark that is not followed by the first character of the searched name.\<close>

lemma strstr_skip_quote:
  assumes "json_name n" "c \<in> {CHR '':'', CHR '','', CHR ''}'', CHR '']''}"
  shows "strstr (quote # c # rest) (quote # n @ needle) = strstr rest (quote # n @ needle)"
  using assms by (cases n) (auto simp: json_name_def)

lemma strstr_skip_u64:
  assumes "json_name n" "quote \<notin> set k" "k \<noteq> n"
  shows "strstr (json_u64 k v @ rest) (quote # n @ quote # needle) = strstr rest (quote # n @ quote # needle)"
proof -
  have "\<not> prefix (quote # n @ quote # needle) (quote # k @ quote # CHR '':'' # dec v @ rest)"
    using assms prefix_quoted [of n k needle] by (auto simp: json_name_def)
  then have "strstr (json_u64 k v @ rest) (quote # n @ quote # needle) =
      strstr (k @ quote # CHR '':'' # dec v @ rest) (quote # n @ quote # needle)"
    by (simp add: json_u64_def)
  also have "\<dots> = strstr (quote # CHR '':'' # dec v @ rest) (quote # n @ quote # needle)"
    using assms(2) by (rule strstr_skip_noquote)
  also have "\<dots> = strstr (dec v @ rest) (quote # n @ quote # needle)"
    using assms(1) by (rule strstr_skip_quote) simp
  finally show ?thesis by (simp add: strstr_skip_noquote dec_no_quote)
qed

lemma strstr_skip_str_value:
  assumes "json_name n" "quote \<notin> set v" "c \<in> {CHR '','', CHR ''}'', CHR '']''}"
  shows "strstr (quote # v @ quote # c # rest) (quote # n @ quote # CHR '':'' # needle) =
         strstr rest (quote # n @ quote # CHR '':'' # needle)"
proof -
  have "\<not> prefix (quote # n @ quote # CHR '':'' # needle) (quote # v @ quote # c # rest)"
    using assms prefix_quoted [of n v "CHR '':'' # needle" "c # rest"] by (auto simp: json_name_def)
  then have "strstr (quote # v @ quote # c # rest) (quote # n @ quote # CHR '':'' # needle) =
      strstr (v @ quote # c # rest) (quote # n @ quote # CHR '':'' # needle)" by simp
  also have "\<dots> = strstr (quote # c # rest) (quote # n @ quote # CHR '':'' # needle)"
    using assms(2) by (rule strstr_skip_noquote)
  also have "\<dots> = strstr rest (quote # n @ quote # CHR '':'' # needle)"
    using assms(1) by (rule strstr_skip_quote) (use assms(3) in auto)
  finally show ?thesis .
qed

lemma strstr_skip_str:
  assumes "json_name n" "quote \<notin> set k" "k \<noteq> n" "quote \<notin> set v" "c \<in> {CHR '','', CHR ''}'', CHR '']''}"
  shows "strstr (json_str k v @ c # rest) (quote # n @ quote # CHR '':'' # needle) =
         strstr rest (quote # n @ quote # CHR '':'' # needle)"
proof -
  have "\<not> prefix (quote # n @ quote # CHR '':'' # needle) (quote # k @ quote # CHR '':'' # quote # v @ quote # c # rest)"
    using assms prefix_quoted [of n k "CHR '':'' # needle"] by (auto simp: json_name_def)
  then have "strstr (json_str k v @ c # rest) (quote # n @ quote # CHR '':'' # needle) =
      strstr (k @ quote # CHR '':'' # quote # v @ quote # c # rest) (quote # n @ quote # CHR '':'' # needle)"
    by (simp add: json_str_def)
  also have "\<dots> = strstr (quote # CHR '':'' # quote # v @ quote # c # rest) (quote # n @ quote # CHR '':'' # needle)"
    using assms(2) by (rule strstr_skip_noquote)
  also have "\<dots> = strstr (quote # v @ quote # c # rest) (quote # n @ quote # CHR '':'' # needle)"
    using assms(1) by (rule strstr_skip_quote) simp
  also have "\<dots> = strstr rest (quote # n @ quote # CHR '':'' # needle)"
    using assms(1,4,5) by (rule strstr_skip_str_value)
  finally show ?thesis .
qed

lemma strstr_hit: "strstr (needle @ rest) needle = Some (needle @ rest)"
proof (cases "needle @ rest")
  case (Cons a list)
  then have "prefix needle (a # list)" by (metis prefixI)
  then show ?thesis using Cons by simp
qed simp

lemma strchr_hit: "c \<notin> set v \<Longrightarrow> strchr (v @ c # rest) c = Some (c # rest)"
  by (induction v) auto

lemmas pattern_defs = pattern_u64_def pattern_str_def

lemma strstr_u64_skips [json]:
  assumes "json_name n"
  shows "quote \<notin> set k \<Longrightarrow> k \<noteq> n \<Longrightarrow> strstr (json_u64 k v @ rest) (pattern_u64 n) = strstr rest (pattern_u64 n)"
    and "quote \<notin> set k \<Longrightarrow> k \<noteq> n \<Longrightarrow> strstr (json_u64 k v @ rest) (pattern_str n) = strstr rest (pattern_str n)"
    and "quote \<notin> set k \<Longrightarrow> k \<noteq> n \<Longrightarrow> quote \<notin> set w \<Longrightarrow> c \<in> {CHR '','', CHR ''}'', CHR '']''} \<Longrightarrow>
         strstr (json_str k w @ c # rest) (pattern_u64 n) = strstr rest (pattern_u64 n)"
    and "quote \<notin> set k \<Longrightarrow> k \<noteq> n \<Longrightarrow> quote \<notin> set w \<Longrightarrow> c \<in> {CHR '','', CHR ''}'', CHR '']''} \<Longrightarrow>
         strstr (json_str k w @ c # rest) (pattern_str n) = strstr rest (pattern_str n)"
    and "d \<noteq> quote \<Longrightarrow> strstr (d # rest) (pattern_u64 n) = strstr rest (pattern_u64 n)"
    and "d \<noteq> quote \<Longrightarrow> strstr (d # rest) (pattern_str n) = strstr rest (pattern_str n)"
  using strstr_skip_u64 [OF assms] strstr_skip_str [OF assms]
  by (simp_all add: pattern_defs strstr_skip_char)

lemma strstr_found [json]:
  "strstr (json_u64 n v @ rest) (pattern_u64 n) = Some (json_u64 n v @ rest)"
  "strstr (json_str n w @ rest) (pattern_str n) = Some (json_str n w @ rest)"
  using strstr_hit [of "pattern_u64 n" "dec v @ rest"] strstr_hit [of "pattern_str n" "w @ quote # rest"]
  by (simp_all add: pattern_defs json_u64_def json_str_def)

lemma after_pattern_found [json]:
  "after_pattern (pattern_u64 n) (json_u64 n v @ rest) = dec v @ rest"
  "after_pattern (pattern_str n) (json_str n w @ rest) = w @ quote # rest"
  by (simp_all add: after_pattern_def pattern_defs json_u64_def json_str_def)

lemma length_patterns [json]: "length (pattern_u64 n) = length n + 3" "length (pattern_str n) = length n + 4"
  by (simp_all add: pattern_defs)

lemma strtoull_found [json]:
  "v \<le> size_max \<Longrightarrow> \<not> isdigit c \<Longrightarrow> strtoull (skip_blanks (dec v @ c # rest)) = Some (of_nat v, c # rest, False)"
  by (simp add: skip_blanks_dec strtoull_dec)

lemmas strchr_found [json] = strchr_hit

lemma isdigit_comma [simp]: "\<not> isdigit (CHR '','')" "\<not> isdigit (CHR ''}'')" "\<not> isdigit (CHR '']'')"
  by (simp_all add: isdigit_def)

lemma strstr_none [json]: "strstr [] (pattern_u64 n) = None" "strstr [] (pattern_str n) = None"
  by (simp_all add: pattern_defs)

declare strstr.simps [simp del]

text \<open>Printed objects contain no NUL, so reading them as C strings changes nothing.\<close>

lemma c_str_id: "CHR 0x00 \<notin> set s \<Longrightarrow> c_str s = s"
  by (auto simp: c_str_def)

lemma json_no_nul [json]:
  "CHR 0x00 \<notin> set (json_u64 n v) \<longleftrightarrow> CHR 0x00 \<notin> set n"
  "CHR 0x00 \<notin> set (json_str n w) \<longleftrightarrow> CHR 0x00 \<notin> set n \<and> CHR 0x00 \<notin> set w"
  by (auto simp: json_u64_def json_str_def dec_no_nul)
end
