(* ===== verification/Object_Store.thy ===== *)
theory Object_Store
  imports C_String
begin

text \<open>
  The object store interface of \<open>src/storage/object_store.h\<close>.  A store is a record of optional
  operations on a world \<open>'w\<close>; each call returns the world after it.  What a component may rely on
  is the locale \<open>object_store_laws\<close>: reads change nothing, an accepted write stores the bytes and
  checks its condition, a refused write changes nothing, and a write whose outcome is unknown
  either happened or did not.  The in-memory store of \<open>tests/memory_store.c\<close> interprets it.
\<close>

section \<open>Results, objects, operations\<close>

datatype store_result =
  STORE_OK | STORE_NOT_FOUND | STORE_PRECONDITION_FAILED | STORE_ERROR | STORE_NOT_EMPTY |
  STORE_TIMEOUT | STORE_UNSUPPORTED

type_synonym store_capabilities = u64

definition STORE_CAP_ETAG :: store_capabilities where
  "STORE_CAP_ETAG = push_bit 0 1"

definition STORE_CAP_RANGE_GET :: store_capabilities where
  "STORE_CAP_RANGE_GET = push_bit 1 1"

definition STORE_CAP_READ_AFTER_WRITE :: store_capabilities where
  "STORE_CAP_READ_AFTER_WRITE = push_bit 2 1"

definition STORE_CAP_CONDITIONAL_CREATE :: store_capabilities where
  "STORE_CAP_CONDITIONAL_CREATE = push_bit 3 1"

definition STORE_CAP_CONDITIONAL_UPDATE :: store_capabilities where
  "STORE_CAP_CONDITIONAL_UPDATE = push_bit 4 1"

definition STORE_CAP_MULTIPART :: store_capabilities where
  "STORE_CAP_MULTIPART = push_bit 5 1"

text \<open>The etag may be absent, a null pointer.\<close>

record store_object =
  so_data :: bytes
  so_etag :: "string option"
  so_last_modified_secs :: int

definition empty_object :: store_object where
  "empty_object = \<lparr>so_data = [], so_etag = None, so_last_modified_secs = 0\<rparr>"

record put_options =
  po_if_none_match :: bool
  po_if_match_etag :: "string option"

definition no_options :: put_options where
  "no_options = \<lparr>po_if_none_match = False, po_if_match_etag = None\<rparr>"

text \<open>The keys a listing reports, without the listed prefix, in the order of the callbacks.\<close>

record 'w object_store =
  st_get :: "('w \<Rightarrow> string \<Rightarrow> store_result \<times> store_object \<times> 'w) option"
  st_get_range :: "('w \<Rightarrow> string \<Rightarrow> nat \<Rightarrow> nat \<Rightarrow> store_result \<times> store_object \<times> 'w) option"
  st_put :: "('w \<Rightarrow> string \<Rightarrow> bytes \<Rightarrow> put_options \<Rightarrow> store_result \<times> string option \<times> 'w) option"
  st_delete :: "('w \<Rightarrow> string \<Rightarrow> store_result \<times> 'w) option"
  st_list :: "('w \<Rightarrow> string \<Rightarrow> store_result \<times> string list \<times> 'w) option"
  st_capabilities :: store_capabilities

definition otsardb_store_supports :: "'w object_store \<Rightarrow> store_capabilities \<Rightarrow> bool" where
  "otsardb_store_supports store capability \<longleftrightarrow> st_capabilities store AND capability = capability"

definition otsardb_store_get ::
  "'w object_store \<Rightarrow> 'w \<Rightarrow> string \<Rightarrow> store_result \<times> store_object \<times> 'w" where
  "otsardb_store_get store w key =
     (case st_get store of None \<Rightarrow> (STORE_UNSUPPORTED, empty_object, w) | Some f \<Rightarrow> f w key)"

definition otsardb_store_get_range ::
  "'w object_store \<Rightarrow> 'w \<Rightarrow> string \<Rightarrow> nat \<Rightarrow> nat \<Rightarrow> store_result \<times> store_object \<times> 'w" where
  "otsardb_store_get_range store w key offset len =
     (case st_get_range store of
        None \<Rightarrow> (STORE_UNSUPPORTED, empty_object, w) | Some f \<Rightarrow> f w key offset len)"

definition otsardb_store_put ::
  "'w object_store \<Rightarrow> 'w \<Rightarrow> string \<Rightarrow> bytes \<Rightarrow> put_options \<Rightarrow> store_result \<times> string option \<times> 'w" where
  "otsardb_store_put store w key data options =
     (case st_put store of None \<Rightarrow> (STORE_UNSUPPORTED, None, w) | Some f \<Rightarrow> f w key data options)"

definition otsardb_store_delete :: "'w object_store \<Rightarrow> 'w \<Rightarrow> string \<Rightarrow> store_result \<times> 'w" where
  "otsardb_store_delete store w key =
     (case st_delete store of None \<Rightarrow> (STORE_UNSUPPORTED, w) | Some f \<Rightarrow> f w key)"

definition otsardb_store_list :: "'w object_store \<Rightarrow> 'w \<Rightarrow> string \<Rightarrow> store_result \<times> string list \<times> 'w" where
  "otsardb_store_list store w pre =
     (case st_list store of None \<Rightarrow> (STORE_UNSUPPORTED, [], w) | Some f \<Rightarrow> f w pre)"

section \<open>Laws\<close>

text \<open>The condition of a write, and its effect on the contents.\<close>

definition put_allowed :: "put_options \<Rightarrow> store_object option \<Rightarrow> bool" where
  "put_allowed options found \<longleftrightarrow>
     (po_if_none_match options \<longrightarrow> found = None) \<and>
     (\<forall>e. po_if_match_etag options = Some e \<longrightarrow> (\<exists>ob. found = Some ob \<and> so_etag ob = Some e))"

definition put_stored :: "(string \<rightharpoonup> store_object) \<Rightarrow> string \<Rightarrow> bytes \<Rightarrow> (string \<rightharpoonup> store_object) \<Rightarrow> bool" where
  "put_stored old key data new \<longleftrightarrow>
     (\<exists>ob. new = old(key \<mapsto> ob) \<and> so_data ob = data)"

locale object_store_laws =
  fixes store :: "'w object_store" and objs :: "'w \<Rightarrow> string \<rightharpoonup> store_object" and valid :: "'w \<Rightarrow> bool"
  assumes get_law: "otsardb_store_get store w key = (rc, ob, w') \<Longrightarrow> valid w \<Longrightarrow>
      valid w' \<and> objs w' = objs w \<and> (rc = STORE_OK \<longrightarrow> objs w key = Some ob) \<and>
      (rc = STORE_NOT_FOUND \<longrightarrow> objs w key = None)"
    and put_law: "otsardb_store_put store w key data options = (rc, etag, w') \<Longrightarrow> valid w \<Longrightarrow>
      valid w' \<and>
      (rc = STORE_OK \<longrightarrow> put_allowed options (objs w key) \<and> put_stored (objs w) key data (objs w') \<and>
         (\<forall>e. etag = Some e \<longrightarrow> (\<exists>ob. objs w' key = Some ob \<and> so_etag ob = Some e))) \<and>
      (rc = STORE_PRECONDITION_FAILED \<or> rc = STORE_UNSUPPORTED \<longrightarrow> objs w' = objs w) \<and>
      (objs w' = objs w \<or> put_allowed options (objs w key) \<and> put_stored (objs w) key data (objs w'))"
    and delete_law: "otsardb_store_delete store w key = (rc, w') \<Longrightarrow> valid w \<Longrightarrow>
      valid w' \<and> (rc = STORE_OK \<longrightarrow> objs w' = (objs w)(key := None)) \<and>
      (objs w' = objs w \<or> objs w' = (objs w)(key := None))"
    and list_law: "otsardb_store_list store w pre = (rc, keys, w') \<Longrightarrow> valid w \<Longrightarrow>
      valid w' \<and> objs w' = objs w"
begin

lemma get_same: "otsardb_store_get store w key = (rc, ob, w') \<Longrightarrow> valid w \<Longrightarrow> valid w' \<and> objs w' = objs w"
  using get_law by blast

lemma get_ok: "otsardb_store_get store w key = (STORE_OK, ob, w') \<Longrightarrow> valid w \<Longrightarrow> objs w key = Some ob"
  using get_law by blast

lemma get_absent: "otsardb_store_get store w key = (STORE_NOT_FOUND, ob, w') \<Longrightarrow> valid w \<Longrightarrow> objs w key = None"
  using get_law by blast

lemma put_valid: "otsardb_store_put store w key data options = (rc, etag, w') \<Longrightarrow> valid w \<Longrightarrow> valid w'"
  using put_law by blast

lemma put_other:
  assumes "otsardb_store_put store w key data options = (rc, etag, w')" "valid w" "key' \<noteq> key"
  shows "objs w' key' = objs w key'"
  using put_law [OF assms(1,2)] assms(3) by (auto simp: put_stored_def)

lemma put_ok:
  assumes "otsardb_store_put store w key data options = (STORE_OK, etag, w')" "valid w"
  shows "put_allowed options (objs w key) \<and> put_stored (objs w) key data (objs w')"
  using put_law [OF assms] by blast

lemma put_refused:
  assumes "otsardb_store_put store w key data options = (rc, etag, w')" "valid w"
    "\<not> put_allowed options (objs w key)"
  shows "objs w' = objs w" "rc \<noteq> STORE_OK"
  using put_law [OF assms(1,2)] assms(3) by auto

lemma put_cases:
  assumes "otsardb_store_put store w key data options = (rc, etag, w')" "valid w"
  shows "objs w' = objs w \<or> (\<exists>ob. objs w' = (objs w)(key \<mapsto> ob) \<and> so_data ob = data \<and>
           put_allowed options (objs w key))"
  using put_law [OF assms] by (auto simp: put_stored_def)

end

section \<open>The in-memory store\<close>

record memory_entry =
  me_key :: string
  me_data :: bytes
  me_version :: u64
  me_last_modified :: int

text \<open>The store's context and the clock that \<open>time\<close> reads.\<close>

record memory_store =
  ms_entries :: "memory_entry list"
  ms_next_version :: u64
  ms_supported :: store_capabilities
  ms_clock :: int

definition find_entry :: "memory_store \<Rightarrow> string \<Rightarrow> memory_entry option" where
  "find_entry m key = find (\<lambda>e. me_key e = key) (ms_entries m)"

definition make_etag :: "u64 \<Rightarrow> string" where
  "make_etag version = CHR ''v'' # dec (unat version)"

definition copy_object :: "memory_entry \<Rightarrow> nat \<Rightarrow> nat \<Rightarrow> bool \<Rightarrow> store_result \<times> store_object" where
  "copy_object found offset len ranged =
     (let start = (if ranged then offset else 0);
          count = (if ranged then len else length (me_data found)) in
      if start > length (me_data found) then (STORE_ERROR, empty_object)
      else (STORE_OK,
            \<lparr>so_data = mem_slice (me_data found) start (min count (length (me_data found) - start)),
             so_etag = Some (make_etag (me_version found)),
             so_last_modified_secs = me_last_modified found\<rparr>))"

definition memory_get :: "memory_store \<Rightarrow> string \<Rightarrow> store_result \<times> store_object \<times> memory_store" where
  "memory_get m key =
     (case find_entry m key of
        None \<Rightarrow> (STORE_NOT_FOUND, empty_object, m)
      | Some found \<Rightarrow> (case copy_object found 0 0 False of (rc, ob) \<Rightarrow> (rc, ob, m)))"

definition memory_get_range ::
  "memory_store \<Rightarrow> string \<Rightarrow> nat \<Rightarrow> nat \<Rightarrow> store_result \<times> store_object \<times> memory_store" where
  "memory_get_range m key offset len =
     (if ms_supported m AND STORE_CAP_RANGE_GET = 0 then (STORE_UNSUPPORTED, empty_object, m)
      else case find_entry m key of
        None \<Rightarrow> (STORE_NOT_FOUND, empty_object, m)
      | Some found \<Rightarrow> (case copy_object found offset len True of (rc, ob) \<Rightarrow> (rc, ob, m)))"

text \<open>Replacing the entry of a key in place, or adding it at the end.\<close>

fun set_entry :: "memory_entry list \<Rightarrow> memory_entry \<Rightarrow> memory_entry list" where
  "set_entry [] new = [new]"
| "set_entry (e # es) new = (if me_key e = me_key new then new # es else e # set_entry es new)"

definition memory_store_bytes :: "memory_store \<Rightarrow> string \<Rightarrow> bytes \<Rightarrow> store_result \<times> string option \<times> memory_store" where
  "memory_store_bytes m key data =
     (let version = ms_next_version m + 1 in
      (STORE_OK, Some (make_etag version),
       m\<lparr>ms_entries := set_entry (ms_entries m)
            \<lparr>me_key = key, me_data = data, me_version = version, me_last_modified = ms_clock m\<rparr>,
         ms_next_version := version\<rparr>))"

definition memory_put ::
  "memory_store \<Rightarrow> string \<Rightarrow> bytes \<Rightarrow> put_options \<Rightarrow> store_result \<times> string option \<times> memory_store" where
  "memory_put m key data options =
     (let found = find_entry m key in
      if po_if_none_match options \<and> ms_supported m AND STORE_CAP_CONDITIONAL_CREATE = 0
      then (STORE_UNSUPPORTED, None, m)
      else if po_if_none_match options \<and> found \<noteq> None then (STORE_PRECONDITION_FAILED, None, m)
      else case po_if_match_etag options of
        None \<Rightarrow> memory_store_bytes m key data
      | Some expected \<Rightarrow>
          if ms_supported m AND STORE_CAP_CONDITIONAL_UPDATE = 0 then (STORE_UNSUPPORTED, None, m)
          else (case found of
                  None \<Rightarrow> (STORE_PRECONDITION_FAILED, None, m)
                | Some e \<Rightarrow>
                    if make_etag (me_version e) \<noteq> expected then (STORE_PRECONDITION_FAILED, None, m)
                    else memory_store_bytes m key data))"

fun remove_entry :: "memory_entry list \<Rightarrow> string \<Rightarrow> memory_entry list" where
  "remove_entry [] key = []"
| "remove_entry (e # es) key = (if me_key e = key then es else e # remove_entry es key)"

definition memory_delete :: "memory_store \<Rightarrow> string \<Rightarrow> store_result \<times> memory_store" where
  "memory_delete m key =
     (case find_entry m key of
        None \<Rightarrow> (STORE_NOT_FOUND, m)
      | Some e \<Rightarrow> (STORE_OK, m\<lparr>ms_entries := remove_entry (ms_entries m) key\<rparr>))"

definition memory_list :: "memory_store \<Rightarrow> string \<Rightarrow> store_result \<times> string list \<times> memory_store" where
  "memory_list m pre =
     (STORE_OK,
      map (\<lambda>e. drop (length pre) (me_key e)) (filter (\<lambda>e. prefix pre (me_key e)) (ms_entries m)), m)"

definition memory_object_store :: "store_capabilities \<Rightarrow> memory_store object_store" where
  "memory_object_store capabilities =
     \<lparr>st_get = Some memory_get, st_get_range = Some memory_get_range, st_put = Some memory_put,
      st_delete = Some memory_delete, st_list = Some memory_list, st_capabilities = capabilities\<rparr>"

definition otsardb_test_memory_store_create_with_capabilities :: "store_capabilities \<Rightarrow> memory_store" where
  "otsardb_test_memory_store_create_with_capabilities capabilities =
     \<lparr>ms_entries = [], ms_next_version = 0, ms_supported = capabilities, ms_clock = 0\<rparr>"

definition memory_capabilities :: store_capabilities where
  "memory_capabilities =
     STORE_CAP_ETAG OR STORE_CAP_RANGE_GET OR STORE_CAP_READ_AFTER_WRITE OR
     STORE_CAP_CONDITIONAL_CREATE OR STORE_CAP_CONDITIONAL_UPDATE"

text \<open>The contents of the in-memory store; its keys are distinct.\<close>

definition memory_objs :: "memory_store \<Rightarrow> string \<rightharpoonup> store_object" where
  "memory_objs m key =
     map_option (\<lambda>e. \<lparr>so_data = me_data e, so_etag = Some (make_etag (me_version e)),
                      so_last_modified_secs = me_last_modified e\<rparr>) (find_entry m key)"

definition memory_valid :: "memory_store \<Rightarrow> bool" where
  "memory_valid m \<longleftrightarrow> distinct (map me_key (ms_entries m))"

lemma find_set_entry:
  "find (\<lambda>e. me_key e = key) (set_entry es new) =
     (if key = me_key new then Some new else find (\<lambda>e. me_key e = key) es)"
  by (induction es) auto

lemma keys_set_entry: "me_key ` set (set_entry es new) = insert (me_key new) (me_key ` set es)"
  by (induction es) auto

lemma distinct_set_entry: "distinct (map me_key es) \<Longrightarrow> distinct (map me_key (set_entry es new))"
  by (induction es) (auto simp: keys_set_entry)

lemma find_None_key: "key \<notin> me_key ` set es \<Longrightarrow> find (\<lambda>e. me_key e = key) es = None"
  by (auto simp: find_None_iff)

lemma find_remove_entry:
  "distinct (map me_key es) \<Longrightarrow>
   find (\<lambda>e. me_key e = key') (remove_entry es key) =
     (if key' = key then None else find (\<lambda>e. me_key e = key') es)"
  by (induction es) (auto simp: find_None_key)

lemma keys_remove_entry: "me_key ` set (remove_entry es key) \<subseteq> me_key ` set es"
  by (induction es) auto

lemma distinct_remove_entry: "distinct (map me_key es) \<Longrightarrow> distinct (map me_key (remove_entry es key))"
proof (induction es)
  case (Cons e es)
  then show ?case using keys_remove_entry [of es key] by auto
qed simp

lemma memory_get_objs:
  "memory_get m key = (case memory_objs m key of None \<Rightarrow> (STORE_NOT_FOUND, empty_object, m)
                                                | Some ob \<Rightarrow> (STORE_OK, ob, m))"
  by (auto simp: memory_get_def memory_objs_def copy_object_def mem_slice_def split: option.split)

lemma memory_store_bytes_objs:
  assumes "memory_store_bytes m key data = (rc, etag, m')"
  shows "rc = STORE_OK \<and> (memory_valid m \<longrightarrow> memory_valid m') \<and>
     (\<exists>ob. memory_objs m' = (memory_objs m)(key \<mapsto> ob) \<and> so_data ob = data \<and> so_etag ob = etag)"
  using assms
  by (auto simp: memory_store_bytes_def Let_def memory_objs_def find_entry_def find_set_entry fun_eq_iff
      memory_valid_def distinct_set_entry)

lemma memory_put_cases:
  assumes "memory_put m key data options = (rc, etag, m')"
  shows "(m' = m \<and> rc \<noteq> STORE_OK) \<or>
      (memory_store_bytes m key data = (rc, etag, m') \<and> put_allowed options (memory_objs m key))"
proof (cases "po_if_match_etag options")
  case None
  then show ?thesis
    using assms by (auto simp: memory_put_def Let_def put_allowed_def memory_objs_def split: if_splits)
next
  case (Some e)
  then show ?thesis
    using assms by (cases "find_entry m key")
      (auto simp: memory_put_def Let_def put_allowed_def memory_objs_def split: if_splits)
qed

interpretation mem: object_store_laws "memory_object_store caps" memory_objs memory_valid
proof
  fix w :: memory_store and key rc ob w'
  assume "otsardb_store_get (memory_object_store caps) w key = (rc, ob, w')" "memory_valid w"
  then show "memory_valid w' \<and> memory_objs w' = memory_objs w \<and> (rc = STORE_OK \<longrightarrow> memory_objs w key = Some ob) \<and>
      (rc = STORE_NOT_FOUND \<longrightarrow> memory_objs w key = None)"
    by (auto simp: otsardb_store_get_def memory_object_store_def memory_get_objs split: option.splits)
next
  fix w :: memory_store and key data options rc etag w'
  assume put: "otsardb_store_put (memory_object_store caps) w key data options = (rc, etag, w')" and v: "memory_valid w"
  have "memory_put w key data options = (rc, etag, w')"
    using put by (simp add: otsardb_store_put_def memory_object_store_def)
  note cases = memory_put_cases [OF this]
  show "memory_valid w' \<and>
      (rc = STORE_OK \<longrightarrow> put_allowed options (memory_objs w key) \<and> put_stored (memory_objs w) key data (memory_objs w') \<and>
         (\<forall>e. etag = Some e \<longrightarrow> (\<exists>ob. memory_objs w' key = Some ob \<and> so_etag ob = Some e))) \<and>
      (rc = STORE_PRECONDITION_FAILED \<or> rc = STORE_UNSUPPORTED \<longrightarrow> memory_objs w' = memory_objs w) \<and>
      (memory_objs w' = memory_objs w \<or> put_allowed options (memory_objs w key) \<and> put_stored (memory_objs w) key data (memory_objs w'))"
    using cases
  proof (elim disjE conjE)
    assume "w' = w" "rc \<noteq> STORE_OK"
    then show ?thesis using v by simp
  next
    assume bytes: "memory_store_bytes w key data = (rc, etag, w')" and ok: "put_allowed options (memory_objs w key)"
    obtain ob where "rc = STORE_OK" "memory_valid w'" "memory_objs w' = (memory_objs w)(key \<mapsto> ob)"
      "so_data ob = data" "so_etag ob = etag"
      using memory_store_bytes_objs [OF bytes] v by blast
    then show ?thesis using ok by (auto simp: put_stored_def)
  qed
next
  fix w :: memory_store and key rc w'
  assume "otsardb_store_delete (memory_object_store caps) w key = (rc, w')" "memory_valid w"
  then show "memory_valid w' \<and> (rc = STORE_OK \<longrightarrow> memory_objs w' = (memory_objs w)(key := None)) \<and>
      (memory_objs w' = memory_objs w \<or> memory_objs w' = (memory_objs w)(key := None))"
    by (auto simp: otsardb_store_delete_def memory_object_store_def memory_delete_def memory_objs_def memory_valid_def
        find_entry_def find_remove_entry distinct_remove_entry fun_eq_iff split: option.splits)
next
  fix w :: memory_store and pre rc keys w'
  assume "otsardb_store_list (memory_object_store caps) w pre = (rc, keys, w')" "memory_valid w"
  then show "memory_valid w' \<and> memory_objs w' = memory_objs w"
    by (auto simp: otsardb_store_list_def memory_object_store_def memory_list_def)
qed

text \<open>The facts that evaluate a call on the in-memory store.\<close>

lemmas memory_eval = otsardb_store_get_def otsardb_store_put_def otsardb_store_supports_def
  memory_object_store_def memory_put_def memory_get_objs memory_objs_def find_entry_def memory_store_bytes_def
  otsardb_test_memory_store_create_with_capabilities_def memory_capabilities_def no_options_def
  STORE_CAP_ETAG_def STORE_CAP_RANGE_GET_def STORE_CAP_READ_AFTER_WRITE_def STORE_CAP_CONDITIONAL_CREATE_def
  STORE_CAP_CONDITIONAL_UPDATE_def

end
