(* ===== verification/Journal.thy ===== *)
theory Journal
  imports Object_Store
begin

text \<open>
  The mutable root of a database, \<open>src/storage/journal.c\<close> and \<open>journal.h\<close>: the object \<open>HEAD.json\<close>,
  its JSON form, reading it, and publishing it with a condition (create if missing, or replace the
  version with a known etag) or without one.
\<close>

section \<open>HEAD\<close>

datatype journal_result =
  JOURNAL_OK | JOURNAL_NOT_FOUND | JOURNAL_CONFLICT | JOURNAL_INVALID | JOURNAL_ERROR |
  JOURNAL_AMBIGUOUS | JOURNAL_UNSUPPORTED

record head =
  hd_format_version :: u32
  hd_generation :: u64
  hd_database_id :: string
  hd_commit_id :: string
  hd_commit_key :: string
  hd_commit_sha256 :: string

definition COMMIT_ID_MAX :: nat where
  "COMMIT_ID_MAX = 63"

definition KEY_MAX :: nat where
  "KEY_MAX = 1023"

definition SHA256_HEX_MAX :: nat where
  "SHA256_HEX_MAX = 64"

text \<open>Joining a root and an object name, the slash only where the root does not end in one.\<close>

definition join_root :: "string \<Rightarrow> string \<Rightarrow> string" where
  "join_root root name =
     root @ (if root \<noteq> [] \<and> last root \<noteq> CHR ''/'' then ''/'' else []) @ name"

definition build_head_key :: "string \<Rightarrow> nat \<Rightarrow> string option" where
  "build_head_key root out_size = snprintf_fits (join_root root ''HEAD.json'') out_size"

definition otsardb_head_encode_json :: "head \<Rightarrow> string" where
  "otsardb_head_encode_json h =
     ''{'' @ json_u64 ''otsardb_format'' (unat (hd_format_version h)) @ '','' @
     json_str ''database_id'' (hd_database_id h) @ '','' @
     json_u64 ''generation'' (unat (hd_generation h)) @ '','' @
     json_str ''commit_id'' (hd_commit_id h) @ '','' @
     json_str ''commit_key'' (hd_commit_key h) @ '','' @
     json_str ''commit_sha256'' (hd_commit_sha256 h) @ [CHR ''}'', CHR 0x0A]"

definition otsardb_head_decode_json :: "bytes \<Rightarrow> head option" where
  "otsardb_head_decode_json json =
     (if json = [] then None
      else let copy = c_str (string_of_bytes json) in
        (case extract_u64 copy ''otsardb_format'' of None \<Rightarrow> None
         | Some format \<Rightarrow>
        (case extract_u64 copy ''generation'' of None \<Rightarrow> None
         | Some generation \<Rightarrow>
        (case extract_string 0 copy ''database_id'' (COMMIT_ID_MAX + 1) of None \<Rightarrow> None
         | Some database_id \<Rightarrow>
        (case extract_string 0 copy ''commit_id'' (COMMIT_ID_MAX + 1) of None \<Rightarrow> None
         | Some commit_id \<Rightarrow>
        (case extract_string 0 copy ''commit_key'' (KEY_MAX + 1) of None \<Rightarrow> None
         | Some commit_key \<Rightarrow>
        (case extract_string 0 copy ''commit_sha256'' (SHA256_HEX_MAX + 1) of None \<Rightarrow> None
         | Some commit_sha256 \<Rightarrow>
             if format = 0 \<or> unat format > uint32_max then None
             else Some \<lparr>hd_format_version = ucast format, hd_generation = generation,
                        hd_database_id = database_id, hd_commit_id = commit_id,
                        hd_commit_key = commit_key, hd_commit_sha256 = commit_sha256\<rparr>)))))))"

section \<open>Reading and publishing\<close>

definition otsardb_journal_read_head ::
  "'w object_store \<Rightarrow> 'w \<Rightarrow> string \<Rightarrow> journal_result \<times> (head \<times> string) option \<times> 'w" where
  "otsardb_journal_read_head store w root =
     (case build_head_key root (KEY_MAX + 1) of
        None \<Rightarrow> (JOURNAL_INVALID, None, w)
      | Some key \<Rightarrow>
          (case otsardb_store_get store w key of (rc, ob, w') \<Rightarrow>
             if rc = STORE_NOT_FOUND then (JOURNAL_NOT_FOUND, None, w')
             else if rc = STORE_UNSUPPORTED then (JOURNAL_UNSUPPORTED, None, w')
             else if rc \<noteq> STORE_OK then (JOURNAL_ERROR, None, w')
             else case otsardb_head_decode_json (so_data ob) of
               None \<Rightarrow> (JOURNAL_INVALID, None, w')
             | Some h \<Rightarrow>
                 (case so_etag ob of
                    None \<Rightarrow> (JOURNAL_INVALID, None, w')
                  | Some etag \<Rightarrow> if etag = [] then (JOURNAL_INVALID, None, w')
                                 else (JOURNAL_OK, Some (h, etag), w'))))"

definition publish_head_json ::
  "'w object_store \<Rightarrow> 'w \<Rightarrow> string \<Rightarrow> head \<Rightarrow> put_options \<Rightarrow> journal_result \<times> string option \<times> 'w" where
  "publish_head_json store w root h options =
     (case build_head_key root (KEY_MAX + 1) of
        None \<Rightarrow> (JOURNAL_INVALID, None, w)
      | Some key \<Rightarrow>
          (case otsardb_store_put store w key (bytes_of_string (otsardb_head_encode_json h)) options of
             (rc, etag, w') \<Rightarrow>
               if rc = STORE_PRECONDITION_FAILED then (JOURNAL_CONFLICT, None, w')
               else if rc = STORE_TIMEOUT then (JOURNAL_AMBIGUOUS, None, w')
               else if rc = STORE_UNSUPPORTED then (JOURNAL_UNSUPPORTED, None, w')
               else if rc \<noteq> STORE_OK then (JOURNAL_ERROR, None, w')
               else (JOURNAL_OK, etag, w')))"

definition otsardb_journal_publish_head ::
  "'w object_store \<Rightarrow> 'w \<Rightarrow> string \<Rightarrow> head \<Rightarrow> string option \<Rightarrow> bool \<Rightarrow> journal_result \<times> string option \<times> 'w" where
  "otsardb_journal_publish_head store w root h expected_etag create_if_missing =
     (if \<not> create_if_missing \<and> expected_etag = None then (JOURNAL_INVALID, None, w)
      else publish_head_json store w root h
             \<lparr>po_if_none_match = create_if_missing,
              po_if_match_etag = (if create_if_missing then None else expected_etag)\<rparr>)"

definition otsardb_journal_publish_head_unconditional ::
  "'w object_store \<Rightarrow> 'w \<Rightarrow> string \<Rightarrow> head \<Rightarrow> journal_result \<times> string option \<times> 'w" where
  "otsardb_journal_publish_head_unconditional store w root h = publish_head_json store w root h no_options"

section \<open>Round trip\<close>

text \<open>
  A HEAD whose strings fit the buffers and contain neither quotation marks nor NUL: the sources
  print identifiers, keys and digests without escaping.
\<close>

definition plain_string :: "string \<Rightarrow> bool" where
  "plain_string s \<longleftrightarrow> quote \<notin> set s \<and> CHR 0x00 \<notin> set s"

definition head_wf :: "head \<Rightarrow> bool" where
  "head_wf h \<longleftrightarrow> hd_format_version h \<noteq> 0 \<and>
     plain_string (hd_database_id h) \<and> length (hd_database_id h) \<le> COMMIT_ID_MAX \<and>
     plain_string (hd_commit_id h) \<and> length (hd_commit_id h) \<le> COMMIT_ID_MAX \<and>
     plain_string (hd_commit_key h) \<and> length (hd_commit_key h) \<le> KEY_MAX \<and>
     plain_string (hd_commit_sha256 h) \<and> length (hd_commit_sha256 h) \<le> SHA256_HEX_MAX"

lemma head_json_c_str:
  "head_wf h \<Longrightarrow> c_str (otsardb_head_encode_json h) = otsardb_head_encode_json h"
  by (rule c_str_id) (simp add: otsardb_head_encode_json_def head_wf_def plain_string_def json)

lemma head_json_fields:
  assumes "head_wf h"
  shows "extract_u64 (otsardb_head_encode_json h) ''otsardb_format'' = Some (ucast (hd_format_version h))"
    "extract_u64 (otsardb_head_encode_json h) ''generation'' = Some (hd_generation h)"
    "extract_string 0 (otsardb_head_encode_json h) ''database_id'' (COMMIT_ID_MAX + 1) = Some (hd_database_id h)"
    "extract_string 0 (otsardb_head_encode_json h) ''commit_id'' (COMMIT_ID_MAX + 1) = Some (hd_commit_id h)"
    "extract_string 0 (otsardb_head_encode_json h) ''commit_key'' (KEY_MAX + 1) = Some (hd_commit_key h)"
    "extract_string 0 (otsardb_head_encode_json h) ''commit_sha256'' (SHA256_HEX_MAX + 1) = Some (hd_commit_sha256 h)"
proof -
  note wf = assms [unfolded head_wf_def plain_string_def]
  note search = otsardb_head_encode_json_def extract_u64_def extract_string_def json json_name_def
  have u32: "unat (hd_format_version h) \<le> size_max"
    using unat_u32_le [of "hd_format_version h"] by (simp add: uint32_max_def size_max_def)
  show "extract_u64 (otsardb_head_encode_json h) ''otsardb_format'' = Some (ucast (hd_format_version h))"
    using wf u32 by (simp add: search of_nat_unat_ucast)
  show "extract_u64 (otsardb_head_encode_json h) ''generation'' = Some (hd_generation h)"
    using wf unat_u64_le [of "hd_generation h"] by (simp add: search)
qed (use assms [unfolded head_wf_def plain_string_def] in
  \<open>simp_all add: otsardb_head_encode_json_def extract_string_def json json_name_def\<close>)

lemma head_decode_encode:
  assumes "head_wf h"
  shows "otsardb_head_decode_json (bytes_of_string (otsardb_head_encode_json h)) = Some h"
proof -
  have ne: "bytes_of_string (otsardb_head_encode_json h) \<noteq> []"
    by (simp add: bytes_of_string_def otsardb_head_encode_json_def)
  show ?thesis
    unfolding otsardb_head_decode_json_def Let_def string_of_bytes_of_string head_json_c_str [OF assms]
      head_json_fields [OF assms] option.case
    using ne assms unat_u32_le [of "hd_format_version h"] by (simp add: head_wf_def)
qed

section \<open>HEAD in the store\<close>

text \<open>What HEAD of a database is, given the contents of the store.\<close>

definition head_key :: "string \<Rightarrow> string" where
  "head_key root = join_root root ''HEAD.json''"

definition stored_head :: "(string \<rightharpoonup> store_object) \<Rightarrow> string \<Rightarrow> head option" where
  "stored_head contents root =
     (case contents (head_key root) of None \<Rightarrow> None | Some ob \<Rightarrow> otsardb_head_decode_json (so_data ob))"

lemma build_head_key_cases:
  "build_head_key root n = None \<or> build_head_key root n = Some (head_key root)"
  by (simp add: build_head_key_def snprintf_fits_def head_key_def)

context object_store_laws
begin

lemma read_head_law:
  assumes "otsardb_journal_read_head store w root = (rc, res, w')" "valid w"
  shows "valid w' \<and> objs w' = objs w \<and>
     (\<forall>h e. res = Some (h, e) \<longrightarrow> rc = JOURNAL_OK \<and> stored_head (objs w) root = Some h \<and>
        (\<exists>ob. objs w (head_key root) = Some ob \<and> so_etag ob = Some e)) \<and>
     (rc = JOURNAL_OK \<longrightarrow> res \<noteq> None) \<and>
     (rc = JOURNAL_NOT_FOUND \<longrightarrow> objs w (head_key root) = None)"
proof (cases "build_head_key root (KEY_MAX + 1)")
  case None
  then show ?thesis using assms by (auto simp: otsardb_journal_read_head_def)
next
  case (Some key)
  then have key: "key = head_key root" using build_head_key_cases [of root "KEY_MAX + 1"] by simp
  obtain src ob w2 where get: "otsardb_store_get store w key = (src, ob, w2)" by (cases "otsardb_store_get store w key")
  show ?thesis
    using assms get_law [OF get assms(2)] Some get
    by (auto simp: otsardb_journal_read_head_def key stored_head_def split: if_splits option.splits)
qed

lemma publish_head_json_law:
  assumes "publish_head_json store w root h options = (rc, etag, w')" "valid w"
  shows "valid w' \<and>
     (rc = JOURNAL_OK \<longrightarrow> put_allowed options (objs w (head_key root)) \<and>
        put_stored (objs w) (head_key root) (bytes_of_string (otsardb_head_encode_json h)) (objs w') \<and>
        (\<forall>e. etag = Some e \<longrightarrow> (\<exists>ob. objs w' (head_key root) = Some ob \<and> so_etag ob = Some e))) \<and>
     (rc \<in> {JOURNAL_CONFLICT, JOURNAL_INVALID, JOURNAL_UNSUPPORTED} \<longrightarrow> objs w' = objs w) \<and>
     (objs w' = objs w \<or> put_allowed options (objs w (head_key root)) \<and>
        put_stored (objs w) (head_key root) (bytes_of_string (otsardb_head_encode_json h)) (objs w'))"
proof (cases "build_head_key root (KEY_MAX + 1)")
  case None
  then show ?thesis using assms by (auto simp: publish_head_json_def)
next
  case (Some key)
  then have key: "key = head_key root" using build_head_key_cases [of root "KEY_MAX + 1"] by simp
  let ?d = "bytes_of_string (otsardb_head_encode_json h)"
  obtain src et w2 where put: "otsardb_store_put store w key ?d options = (src, et, w2)"
    by (cases "otsardb_store_put store w key ?d options")
  have w2: "w' = w2" and rcs: "rc = JOURNAL_OK \<longrightarrow> src = STORE_OK \<and> etag = et"
    "rc = JOURNAL_CONFLICT \<longrightarrow> src = STORE_PRECONDITION_FAILED" "rc \<noteq> JOURNAL_INVALID"
    "rc = JOURNAL_UNSUPPORTED \<longrightarrow> src = STORE_UNSUPPORTED"
    using assms(1) Some put by (auto simp: publish_head_json_def split: if_splits)
  show ?thesis
    using put_law [OF put assms(2)] rcs unfolding w2 key by auto
qed

lemma read_after_publish:
  assumes "publish_head_json store w root h options = (JOURNAL_OK, etag, w')" "valid w" "head_wf h"
    "otsardb_journal_read_head store w' root = (JOURNAL_OK, res, w'')"
  shows "\<exists>e. res = Some (h, e)"
proof -
  obtain ob where "objs w' (head_key root) = Some ob" "so_data ob = bytes_of_string (otsardb_head_encode_json h)"
    "valid w'"
    using publish_head_json_law [OF assms(1,2)] unfolding put_stored_def by (metis fun_upd_same)
  then have "stored_head (objs w') root = Some h" "valid w'"
    using head_decode_encode [OF assms(3)] by (simp_all add: stored_head_def)
  then show ?thesis
    using read_head_law [OF assms(4)] by (cases res) auto
qed

end

section \<open>Properties\<close>

text \<open>
  Every well-formed HEAD is read back from its JSON form unchanged, field by field.
\<close>

theorem head_json_round_trip:
  assumes "head_wf h"
  shows "otsardb_head_decode_json (bytes_of_string (otsardb_head_encode_json h)) = Some h"
  by (rule head_decode_encode [OF assms])

definition sample_head :: head where
  "sample_head = \<lparr>hd_format_version = 1, hd_generation = 7, hd_database_id = ''db'', hd_commit_id = ''c7'',
     hd_commit_key = ''commits/7.json'', hd_commit_sha256 = ''ab''\<rparr>"

lemma sample_head_wf: "head_wf sample_head"
  by (simp add: head_wf_def sample_head_def plain_string_def COMMIT_ID_MAX_def KEY_MAX_def SHA256_HEX_MAX_def)

theorem head_json_round_trip_witness:
  "otsardb_head_decode_json (bytes_of_string (otsardb_head_encode_json sample_head)) = Some sample_head"
  by (rule head_json_round_trip [OF sample_head_wf])

text \<open>
  (C15) Publishing HEAD is a compare-and-swap.  Whatever the store answers, HEAD either stays as it
  was or is replaced by the new JSON, and it is replaced only when the condition held: the object
  was absent for a creation, or had exactly the expected etag for an update.  A conflict leaves the
  store unchanged, success means the object was replaced, and no other object is touched.
\<close>

theorem publish_head_cas:
  assumes laws: "object_store_laws store objs valid" and w: "valid w"
    and pub: "otsardb_journal_publish_head store w root h expected create = (rc, etag, w')"
  shows "(objs w' = objs w \<or>
           (\<exists>ob. objs w' = (objs w)(head_key root \<mapsto> ob) \<and>
             so_data ob = bytes_of_string (otsardb_head_encode_json h) \<and>
             (if create then objs w (head_key root) = None
              else \<exists>old. objs w (head_key root) = Some old \<and> so_etag old = expected))) \<and>
         (rc = JOURNAL_CONFLICT \<longrightarrow> objs w' = objs w) \<and>
         (rc = JOURNAL_OK \<longrightarrow> (\<exists>ob. objs w' (head_key root) = Some ob \<and>
             so_data ob = bytes_of_string (otsardb_head_encode_json h)))"
proof (cases "\<not> create \<and> expected = None")
  case True
  then show ?thesis using pub by (auto simp: otsardb_journal_publish_head_def)
next
  case False
  then have json: "publish_head_json store w root h
      \<lparr>po_if_none_match = create, po_if_match_etag = (if create then None else expected)\<rparr> = (rc, etag, w')"
    using pub unfolding otsardb_journal_publish_head_def by (simp only: if_False)
  note law = object_store_laws.publish_head_json_law [OF laws json w]
  have cond: "put_allowed \<lparr>po_if_none_match = create, po_if_match_etag = (if create then None else expected)\<rparr>
        (objs w (head_key root)) \<Longrightarrow>
      (if create then objs w (head_key root) = None
       else \<exists>old. objs w (head_key root) = Some old \<and> so_etag old = expected)"
    using False by (cases expected) (auto simp: put_allowed_def)
  have stored: "put_stored (objs w) (head_key root) d (objs w') \<Longrightarrow>
      \<exists>ob. objs w' (head_key root) = Some ob \<and> so_data ob = d" for d
    unfolding put_stored_def by (metis fun_upd_same)
  show ?thesis
    using law cond stored unfolding put_stored_def by blast
qed

text \<open>Publishing a first HEAD in an empty in-memory store.\<close>

definition empty_memory :: memory_store where
  "empty_memory = otsardb_test_memory_store_create_with_capabilities memory_capabilities"

definition sample_memory :: memory_store where
  "sample_memory = \<lparr>ms_entries = [\<lparr>me_key = ''db/HEAD.json'',
       me_data = bytes_of_string (otsardb_head_encode_json sample_head), me_version = 1, me_last_modified = 0\<rparr>],
     ms_next_version = 1, ms_supported = memory_capabilities, ms_clock = 0\<rparr>"

lemma sample_publish:
  "otsardb_journal_publish_head (memory_object_store memory_capabilities) empty_memory ''db'' sample_head None True =
     (JOURNAL_OK, Some (make_etag 1), sample_memory)"
  by (simp add: otsardb_journal_publish_head_def publish_head_json_def build_head_key_def snprintf_fits_def join_root_def
      KEY_MAX_def memory_eval empty_memory_def Let_def sample_memory_def)

lemma empty_memory_valid: "memory_valid empty_memory"
  by (simp add: empty_memory_def memory_valid_def otsardb_test_memory_store_create_with_capabilities_def)

theorem publish_head_cas_witness:
  "\<exists>ob. memory_objs sample_memory (head_key ''db'') = Some ob \<and>
        so_data ob = bytes_of_string (otsardb_head_encode_json sample_head)"
  using publish_head_cas [OF mem.object_store_laws_axioms empty_memory_valid sample_publish] by blast

text \<open>
  A published HEAD is what every later successful read returns, as long as nobody writes in
  between, on every store that keeps the laws and for both kinds of condition.
\<close>

theorem read_published_head:
  assumes "object_store_laws store objs valid" "valid w" "head_wf h"
    "otsardb_journal_publish_head store w root h expected create = (JOURNAL_OK, etag, w')"
    "otsardb_journal_read_head store w' root = (JOURNAL_OK, res, w'')"
  shows "\<exists>e. res = Some (h, e)"
  using assms object_store_laws.read_after_publish [OF assms(1) _ assms(2,3) _]
  by (auto simp: otsardb_journal_publish_head_def split: if_splits)

lemma sample_read:
  "otsardb_journal_read_head (memory_object_store memory_capabilities) sample_memory ''db'' =
     (JOURNAL_OK, Some (sample_head, make_etag 1), sample_memory)"
  using head_decode_encode [OF sample_head_wf]
  by (simp add: otsardb_journal_read_head_def build_head_key_def snprintf_fits_def join_root_def KEY_MAX_def
      memory_eval sample_memory_def make_etag_def)

theorem read_published_head_witness:
  "\<exists>e. fst (snd (otsardb_journal_read_head (memory_object_store memory_capabilities) sample_memory ''db'')) =
        Some (sample_head, e)"
  using read_published_head [OF mem.object_store_laws_axioms empty_memory_valid sample_head_wf sample_publish sample_read]
    sample_read by simp

end
