(* ===== verification/Db_Metadata.thy ===== *)
theory Db_Metadata
  imports Journal
begin

text \<open>
  The immutable description of a database, \<open>src/storage/db_metadata.c\<close>: the object \<open>db.json\<close> with the
  database id and page size, its JSON form, creating it once and reading it.
\<close>

section \<open>Operations\<close>

datatype metadata_result =
  METADATA_OK | METADATA_NOT_FOUND | METADATA_CONFLICT | METADATA_INVALID | METADATA_ERROR

record db_metadata =
  dm_format_version :: u32
  dm_page_size :: u32
  dm_database_id :: string

definition METADATA_KEY_MAX :: nat where
  "METADATA_KEY_MAX = 255"

definition DATABASE_ID_MAX :: nat where
  "DATABASE_ID_MAX = 63"

definition metadata_build_key :: "string \<Rightarrow> nat \<Rightarrow> string option" where
  "metadata_build_key root out_size = snprintf_fits (join_root root ''db.json'') out_size"

definition otsardb_db_metadata_encode_json :: "db_metadata \<Rightarrow> string option" where
  "otsardb_db_metadata_encode_json m =
     (if dm_format_version m = 0 \<or> dm_page_size m = 0 \<or> dm_database_id m = [] then None
      else Some (''{'' @ json_u64 ''otsardb_format'' (unat (dm_format_version m)) @ '','' @
                 json_str ''database_id'' (dm_database_id m) @ '','' @
                 json_u64 ''page_size'' (unat (dm_page_size m)) @ [CHR ''}'', CHR 0x0A]))"

definition otsardb_db_metadata_decode_json :: "bytes \<Rightarrow> db_metadata option" where
  "otsardb_db_metadata_decode_json json =
     (if json = [] then None
      else let copy = c_str (string_of_bytes json) in
        (case extract_u64 copy ''otsardb_format'' of None \<Rightarrow> None
         | Some format \<Rightarrow>
        (case extract_u64 copy ''page_size'' of None \<Rightarrow> None
         | Some page_size \<Rightarrow>
        (case extract_string 1 copy ''database_id'' (DATABASE_ID_MAX + 1) of None \<Rightarrow> None
         | Some database_id \<Rightarrow>
             if format = 0 \<or> unat format > uint32_max \<or> page_size = 0 \<or> unat page_size > uint32_max then None
             else Some \<lparr>dm_format_version = ucast format, dm_page_size = ucast page_size,
                        dm_database_id = database_id\<rparr>))))"

text \<open>The write at the end of \<open>otsardb_db_metadata_create\<close> and the result it is mapped to.\<close>

definition metadata_put ::
  "'w object_store \<Rightarrow> 'w \<Rightarrow> string \<Rightarrow> string \<Rightarrow> put_options \<Rightarrow> metadata_result \<times> 'w" where
  "metadata_put store w key json options =
     (case otsardb_store_put store w key (bytes_of_string json) options of (rc, etag, w') \<Rightarrow>
        (if rc = STORE_PRECONDITION_FAILED then METADATA_CONFLICT
         else if rc = STORE_OK then METADATA_OK else METADATA_ERROR, w'))"

definition otsardb_db_metadata_create ::
  "'w object_store \<Rightarrow> 'w \<Rightarrow> string \<Rightarrow> db_metadata \<Rightarrow> metadata_result \<times> 'w" where
  "otsardb_db_metadata_create store w root m =
     (case metadata_build_key root (METADATA_KEY_MAX + 1) of
        None \<Rightarrow> (METADATA_INVALID, w)
      | Some key \<Rightarrow>
      (case otsardb_db_metadata_encode_json m of
        None \<Rightarrow> (METADATA_INVALID, w)
      | Some json \<Rightarrow>
          if otsardb_store_supports store STORE_CAP_CONDITIONAL_CREATE
          then metadata_put store w key json (no_options\<lparr>po_if_none_match := True\<rparr>)
          else (case otsardb_store_get store w key of (rc, ob, w') \<Rightarrow>
                  if rc = STORE_OK then (METADATA_CONFLICT, w')
                  else if rc \<noteq> STORE_NOT_FOUND then (METADATA_ERROR, w')
                  else metadata_put store w' key json no_options)))"

definition otsardb_db_metadata_read ::
  "'w object_store \<Rightarrow> 'w \<Rightarrow> string \<Rightarrow> metadata_result \<times> db_metadata option \<times> 'w" where
  "otsardb_db_metadata_read store w root =
     (case metadata_build_key root (METADATA_KEY_MAX + 1) of
        None \<Rightarrow> (METADATA_INVALID, None, w)
      | Some key \<Rightarrow>
          (case otsardb_store_get store w key of (rc, ob, w') \<Rightarrow>
             if rc = STORE_NOT_FOUND then (METADATA_NOT_FOUND, None, w')
             else if rc \<noteq> STORE_OK then (METADATA_ERROR, None, w')
             else case otsardb_db_metadata_decode_json (so_data ob) of
               None \<Rightarrow> (METADATA_INVALID, None, w')
             | Some m \<Rightarrow> (METADATA_OK, Some m, w')))"

section \<open>Lemmas\<close>

definition metadata_wf :: "db_metadata \<Rightarrow> bool" where
  "metadata_wf m \<longleftrightarrow> dm_format_version m \<noteq> 0 \<and> dm_page_size m \<noteq> 0 \<and> dm_database_id m \<noteq> [] \<and>
     plain_string (dm_database_id m) \<and> length (dm_database_id m) \<le> DATABASE_ID_MAX"

definition metadata_key :: "string \<Rightarrow> string" where
  "metadata_key root = join_root root ''db.json''"

lemma metadata_decode_encode:
  assumes "metadata_wf m" "otsardb_db_metadata_encode_json m = Some json"
  shows "otsardb_db_metadata_decode_json (bytes_of_string json) = Some m"
proof -
  note wf = assms(1) [unfolded metadata_wf_def plain_string_def]
  have json: "json = ''{'' @ json_u64 ''otsardb_format'' (unat (dm_format_version m)) @ '','' @
                 json_str ''database_id'' (dm_database_id m) @ '','' @
                 json_u64 ''page_size'' (unat (dm_page_size m)) @ [CHR ''}'', CHR 0x0A]"
    using assms(2) by (simp add: otsardb_db_metadata_encode_json_def split: if_splits)
  have cs: "c_str json = json"
    using wf by (intro c_str_id) (simp add: json C_String.json)
  have u32: "unat (v :: u32) \<le> size_max" for v
    using unat_u32_le [of v] by (simp add: uint32_max_def size_max_def)
  note search = extract_u64_def extract_string_def C_String.json json_name_def
  have f: "extract_u64 json ''otsardb_format'' = Some (ucast (dm_format_version m))"
    using wf u32 by (simp add: json search of_nat_unat_ucast)
  have p: "extract_u64 json ''page_size'' = Some (ucast (dm_page_size m))"
    using wf u32 by (simp add: json search of_nat_unat_ucast)
  have d: "extract_string 1 json ''database_id'' (DATABASE_ID_MAX + 1) = Some (dm_database_id m)"
    using wf by (simp add: json search Suc_le_eq)
  have ne: "bytes_of_string json \<noteq> []" by (simp add: json bytes_of_string_def)
  show ?thesis
    unfolding otsardb_db_metadata_decode_json_def Let_def string_of_bytes_of_string cs f p d option.case
    using ne wf by simp
qed

lemma metadata_build_key_cases:
  "metadata_build_key root n = None \<or> metadata_build_key root n = Some (metadata_key root)"
  by (simp add: metadata_build_key_def snprintf_fits_def metadata_key_def)

context object_store_laws
begin

lemma metadata_put_law:
  assumes "metadata_put store w key json options = (rc, w')" "valid w"
  shows "valid w' \<and>
     (objs w' = objs w \<or> put_allowed options (objs w key) \<and> put_stored (objs w) key (bytes_of_string json) (objs w')) \<and>
     (rc = METADATA_OK \<longrightarrow> put_allowed options (objs w key) \<and> put_stored (objs w) key (bytes_of_string json) (objs w')) \<and>
     (rc = METADATA_CONFLICT \<longrightarrow> objs w' = objs w)"
proof -
  obtain src et w2 where put: "otsardb_store_put store w key (bytes_of_string json) options = (src, et, w2)"
    by (cases "otsardb_store_put store w key (bytes_of_string json) options")
  then have "w' = w2" "rc = METADATA_OK \<longrightarrow> src = STORE_OK" "rc = METADATA_CONFLICT \<longrightarrow> src = STORE_PRECONDITION_FAILED"
    using assms(1) by (auto simp: metadata_put_def split: if_splits)
  then show ?thesis using put_law [OF put assms(2)] by blast
qed

lemma metadata_create_law:
  assumes create: "otsardb_db_metadata_create store w root m = (rc, w')" and w: "valid w"
  shows "valid w' \<and>
     (objs w' = objs w \<or> objs w (metadata_key root) = None \<and>
        (\<exists>json. otsardb_db_metadata_encode_json m = Some json \<and>
           put_stored (objs w) (metadata_key root) (bytes_of_string json) (objs w'))) \<and>
     (rc = METADATA_OK \<longrightarrow> objs w (metadata_key root) = None \<and>
        (\<exists>json. otsardb_db_metadata_encode_json m = Some json \<and>
           put_stored (objs w) (metadata_key root) (bytes_of_string json) (objs w'))) \<and>
     (rc = METADATA_CONFLICT \<longrightarrow> objs w' = objs w)"
proof (cases "metadata_build_key root (METADATA_KEY_MAX + 1) = None \<or> otsardb_db_metadata_encode_json m = None")
  case True
  then show ?thesis
    using create w by (auto simp: otsardb_db_metadata_create_def split: option.splits)
next
  case False
  then obtain json where json: "otsardb_db_metadata_encode_json m = Some json" by auto
  have key: "metadata_build_key root (METADATA_KEY_MAX + 1) = Some (metadata_key root)"
    using False metadata_build_key_cases by blast
  let ?k = "metadata_key root"
  note create' = create [unfolded otsardb_db_metadata_create_def key json option.case]
  show ?thesis
  proof (cases "otsardb_store_supports store STORE_CAP_CONDITIONAL_CREATE")
    case True
    then have "metadata_put store w ?k json (no_options\<lparr>po_if_none_match := True\<rparr>) = (rc, w')"
      using create' by simp
    from metadata_put_law [OF this w] show ?thesis
      using json by (auto simp: put_allowed_def)
  next
    case nocond: False
    obtain grc ob w1 where get: "otsardb_store_get store w ?k = (grc, ob, w1)" by (cases "otsardb_store_get store w ?k")
    note law1 = get_law [OF get w]
    show ?thesis
    proof (cases "grc = STORE_NOT_FOUND")
      case True
      then have "metadata_put store w1 ?k json no_options = (rc, w')" using create' nocond get by simp
      from metadata_put_law [OF this] law1 True json show ?thesis by auto
    next
      case False
      then have "w' = w1" "rc \<noteq> METADATA_OK" using create' nocond get by (auto split: if_splits)
      then show ?thesis using law1 by auto
    qed
  qed
qed

lemma metadata_read_law:
  assumes "otsardb_db_metadata_read store w root = (rc, res, w')" "valid w"
  shows "valid w' \<and> objs w' = objs w \<and>
     (rc = METADATA_OK \<longrightarrow> (\<exists>ob m. objs w (metadata_key root) = Some ob \<and> res = Some m \<and>
        otsardb_db_metadata_decode_json (so_data ob) = Some m))"
proof (cases "metadata_build_key root (METADATA_KEY_MAX + 1)")
  case None
  then show ?thesis using assms by (auto simp: otsardb_db_metadata_read_def)
next
  case (Some key)
  then have key: "key = metadata_key root" using metadata_build_key_cases [of root "METADATA_KEY_MAX + 1"] by simp
  obtain src ob w2 where get: "otsardb_store_get store w key = (src, ob, w2)" by (cases "otsardb_store_get store w key")
  show ?thesis
    using assms get_law [OF get assms(2)] Some get
    by (auto simp: otsardb_db_metadata_read_def key split: if_splits option.splits) metis
qed

end

section \<open>Properties\<close>

text \<open>
  (C33) Database metadata is written once: creating it never replaces an existing description, with
  or without support for conditional writes; success means it was absent and is now stored, and
  what is then read back is exactly the metadata that was created.
\<close>

theorem metadata_create_once:
  assumes laws: "object_store_laws store objs valid" and w: "valid w" and m: "metadata_wf m"
    and create: "otsardb_db_metadata_create store w root m = (rc, w')"
  shows "(\<forall>ob. objs w (metadata_key root) = Some ob \<longrightarrow> objs w' = objs w \<and> rc \<noteq> METADATA_OK) \<and>
         (rc = METADATA_OK \<longrightarrow>
            (\<forall>res w''. otsardb_db_metadata_read store w' root = (METADATA_OK, res, w'') \<longrightarrow> res = Some m))"
proof -
  note law = object_store_laws.metadata_create_law [OF laws create w]
  have "res = Some m" if ok: "rc = METADATA_OK" and rd: "otsardb_db_metadata_read store w' root = (METADATA_OK, res, w'')" for res w''
  proof -
    obtain json where json: "otsardb_db_metadata_encode_json m = Some json"
      and st: "put_stored (objs w) (metadata_key root) (bytes_of_string json) (objs w')" and v: "valid w'"
      using law ok by blast
    from st obtain ob where "objs w' (metadata_key root) = Some ob" "so_data ob = bytes_of_string json"
      unfolding put_stored_def by (metis fun_upd_same)
    then show ?thesis
      using object_store_laws.metadata_read_law [OF laws rd v] metadata_decode_encode [OF m json] by auto
  qed
  then show ?thesis using law by auto
qed

definition sample_metadata :: db_metadata where
  "sample_metadata = \<lparr>dm_format_version = 1, dm_page_size = 4096, dm_database_id = ''db''\<rparr>"

lemma sample_metadata_wf: "metadata_wf sample_metadata"
  by (simp add: metadata_wf_def sample_metadata_def plain_string_def DATABASE_ID_MAX_def)

definition metadata_memory :: memory_store where
  "metadata_memory = \<lparr>ms_entries = [\<lparr>me_key = ''db/db.json'',
       me_data = bytes_of_string (the (otsardb_db_metadata_encode_json sample_metadata)), me_version = 1,
       me_last_modified = 0\<rparr>],
     ms_next_version = 1, ms_supported = memory_capabilities, ms_clock = 0\<rparr>"

lemma sample_metadata_create:
  "otsardb_db_metadata_create (memory_object_store memory_capabilities) empty_memory ''db'' sample_metadata =
     (METADATA_OK, metadata_memory)"
  by (simp add: otsardb_db_metadata_create_def metadata_build_key_def snprintf_fits_def join_root_def METADATA_KEY_MAX_def
      otsardb_db_metadata_encode_json_def sample_metadata_def metadata_put_def
      memory_eval empty_memory_def Let_def metadata_memory_def)

lemma sample_metadata_read:
  "otsardb_db_metadata_read (memory_object_store memory_capabilities) metadata_memory ''db'' =
     (METADATA_OK, otsardb_db_metadata_decode_json (bytes_of_string (the (otsardb_db_metadata_encode_json sample_metadata))),
      metadata_memory)"
proof -
  have "otsardb_db_metadata_decode_json (bytes_of_string (the (otsardb_db_metadata_encode_json sample_metadata))) =
      Some sample_metadata"
    by (rule metadata_decode_encode [OF sample_metadata_wf])
      (simp add: otsardb_db_metadata_encode_json_def sample_metadata_def)
  then show ?thesis
    by (simp add: otsardb_db_metadata_read_def metadata_build_key_def snprintf_fits_def join_root_def METADATA_KEY_MAX_def
        memory_eval metadata_memory_def)
qed

theorem metadata_create_once_witness:
  "fst (snd (otsardb_db_metadata_read (memory_object_store memory_capabilities) metadata_memory ''db'')) =
     Some sample_metadata"
  using metadata_create_once [OF mem.object_store_laws_axioms empty_memory_valid sample_metadata_wf sample_metadata_create]
    sample_metadata_read by simp

end
