(* ===== verification/Aes_Gcm.thy ===== *)
theory Aes_Gcm
  imports Otsar_Prelude
begin

text \<open>
  The portable AES-256-GCM of \<open>src/crypto/aes_gcm_pure.c\<close>: key schedule, block function, GHASH over two
  64-bit limbs, counter mode, authenticated encryption and decryption.  Clearing key material at the
  end of a call is not modelled.
\<close>

section \<open>AES-256\<close>

text \<open>Each row of the source is two lists of eight.\<close>

definition aes_SBOX :: "bytes" where
  "aes_SBOX = concat
     [[0x63, 0x7c, 0x77, 0x7b, 0xf2, 0x6b, 0x6f, 0xc5], [0x30, 0x01, 0x67, 0x2b, 0xfe, 0xd7, 0xab, 0x76],
      [0xca, 0x82, 0xc9, 0x7d, 0xfa, 0x59, 0x47, 0xf0], [0xad, 0xd4, 0xa2, 0xaf, 0x9c, 0xa4, 0x72, 0xc0],
      [0xb7, 0xfd, 0x93, 0x26, 0x36, 0x3f, 0xf7, 0xcc], [0x34, 0xa5, 0xe5, 0xf1, 0x71, 0xd8, 0x31, 0x15],
      [0x04, 0xc7, 0x23, 0xc3, 0x18, 0x96, 0x05, 0x9a], [0x07, 0x12, 0x80, 0xe2, 0xeb, 0x27, 0xb2, 0x75],
      [0x09, 0x83, 0x2c, 0x1a, 0x1b, 0x6e, 0x5a, 0xa0], [0x52, 0x3b, 0xd6, 0xb3, 0x29, 0xe3, 0x2f, 0x84],
      [0x53, 0xd1, 0x00, 0xed, 0x20, 0xfc, 0xb1, 0x5b], [0x6a, 0xcb, 0xbe, 0x39, 0x4a, 0x4c, 0x58, 0xcf],
      [0xd0, 0xef, 0xaa, 0xfb, 0x43, 0x4d, 0x33, 0x85], [0x45, 0xf9, 0x02, 0x7f, 0x50, 0x3c, 0x9f, 0xa8],
      [0x51, 0xa3, 0x40, 0x8f, 0x92, 0x9d, 0x38, 0xf5], [0xbc, 0xb6, 0xda, 0x21, 0x10, 0xff, 0xf3, 0xd2],
      [0xcd, 0x0c, 0x13, 0xec, 0x5f, 0x97, 0x44, 0x17], [0xc4, 0xa7, 0x7e, 0x3d, 0x64, 0x5d, 0x19, 0x73],
      [0x60, 0x81, 0x4f, 0xdc, 0x22, 0x2a, 0x90, 0x88], [0x46, 0xee, 0xb8, 0x14, 0xde, 0x5e, 0x0b, 0xdb],
      [0xe0, 0x32, 0x3a, 0x0a, 0x49, 0x06, 0x24, 0x5c], [0xc2, 0xd3, 0xac, 0x62, 0x91, 0x95, 0xe4, 0x79],
      [0xe7, 0xc8, 0x37, 0x6d, 0x8d, 0xd5, 0x4e, 0xa9], [0x6c, 0x56, 0xf4, 0xea, 0x65, 0x7a, 0xae, 0x08],
      [0xba, 0x78, 0x25, 0x2e, 0x1c, 0xa6, 0xb4, 0xc6], [0xe8, 0xdd, 0x74, 0x1f, 0x4b, 0xbd, 0x8b, 0x8a],
      [0x70, 0x3e, 0xb5, 0x66, 0x48, 0x03, 0xf6, 0x0e], [0x61, 0x35, 0x57, 0xb9, 0x86, 0xc1, 0x1d, 0x9e],
      [0xe1, 0xf8, 0x98, 0x11, 0x69, 0xd9, 0x8e, 0x94], [0x9b, 0x1e, 0x87, 0xe9, 0xce, 0x55, 0x28, 0xdf],
      [0x8c, 0xa1, 0x89, 0x0d, 0xbf, 0xe6, 0x42, 0x68], [0x41, 0x99, 0x2d, 0x0f, 0xb0, 0x54, 0xbb, 0x16]]"

definition sbox :: "byte \<Rightarrow> byte" where
  "sbox x = aes_SBOX ! unat x"

definition xtime :: "byte \<Rightarrow> byte" where
  "xtime x = push_bit 1 x XOR (drop_bit 7 x AND 1) * 0x1b"

text \<open>One word of the key schedule; the state is the bytes so far and the round constant.\<close>

definition aes256_expand_word :: "bytes \<times> byte \<Rightarrow> nat \<Rightarrow> bytes \<times> byte" where
  "aes256_expand_word st i =
     (case st of (rk, rcon) \<Rightarrow>
        let tmp = mem_slice rk ((i - 1) * 4) 4;
            (tmp, rcon) =
              (if i mod 8 = 0
               then ([sbox (tmp ! 1) XOR rcon, sbox (tmp ! 2), sbox (tmp ! 3), sbox (tmp ! 0)], xtime rcon)
               else if i mod 8 = 4 then (map sbox tmp, rcon)
               else (tmp, rcon)) in
        (rk @ map (\<lambda>k. rk ! ((i - 8) * 4 + k) XOR tmp ! k) [0..<4], rcon))"

definition aes256_expand_key :: "bytes \<Rightarrow> bytes" where
  "aes256_expand_key key = fst (foldl aes256_expand_word (key, 1) [8..<60])"

definition xor_bytes :: "bytes \<Rightarrow> bytes \<Rightarrow> bytes" where
  "xor_bytes xs ys = map2 (XOR) xs ys"

definition aes_sub_shift :: "bytes \<Rightarrow> bytes" where
  "aes_sub_shift s = concat (map (\<lambda>c.
     [sbox (s ! (c * 4)), sbox (s ! ((c * 4 + 5) mod 16)),
      sbox (s ! ((c * 4 + 10) mod 16)), sbox (s ! ((c * 4 + 15) mod 16))]) [0..<4])"

definition aes_mix_column :: "byte \<Rightarrow> byte \<Rightarrow> byte \<Rightarrow> byte \<Rightarrow> bytes" where
  "aes_mix_column a0 a1 a2 a3 =
     [xtime a0 XOR (xtime a1 XOR a1) XOR a2 XOR a3,
      a0 XOR xtime a1 XOR (xtime a2 XOR a2) XOR a3,
      a0 XOR a1 XOR xtime a2 XOR (xtime a3 XOR a3),
      (xtime a0 XOR a0) XOR a1 XOR a2 XOR xtime a3]"

definition aes_mix_columns :: "bytes \<Rightarrow> bytes" where
  "aes_mix_columns t = concat (map (\<lambda>c.
     aes_mix_column (t ! (c * 4)) (t ! (c * 4 + 1)) (t ! (c * 4 + 2)) (t ! (c * 4 + 3))) [0..<4])"

definition aes_round :: "bytes \<Rightarrow> bytes \<Rightarrow> nat \<Rightarrow> bytes" where
  "aes_round rk s round = xor_bytes (aes_mix_columns (aes_sub_shift s)) (mem_slice rk (round * 16) 16)"

definition aes256_encrypt_block :: "bytes \<Rightarrow> bytes \<Rightarrow> bytes" where
  "aes256_encrypt_block rk input =
     (let s = foldl (aes_round rk) (xor_bytes input (take 16 rk)) [1..<14] in
      xor_bytes (aes_sub_shift s) (mem_slice rk (14 * 16) 16))"

section \<open>GHASH\<close>

definition load_be64 :: "bytes \<Rightarrow> u64" where
  "load_be64 p = foldl (\<lambda>v b. push_bit 8 v OR ucast b) 0 (take 8 p)"

text \<open>The loop fills the bytes from the last to the first.\<close>

fun store_be64_loop :: "nat \<Rightarrow> u64 \<Rightarrow> bytes \<Rightarrow> bytes" where
  "store_be64_loop 0 v p = p"
| "store_be64_loop (Suc n) v p = store_be64_loop n (drop_bit 8 v) (ucast (v AND 0xff) # p)"

definition store_be64 :: "u64 \<Rightarrow> bytes" where
  "store_be64 v = store_be64_loop 8 v []"

record u128 =
  u_hi :: u64
  u_lo :: u64

definition u128_xor :: "u128 \<Rightarrow> u128 \<Rightarrow> u128" where
  "u128_xor a b = \<lparr>u_hi = u_hi a XOR u_hi b, u_lo = u_lo a XOR u_lo b\<rparr>"

text \<open>The factor shifted right by one, reduced.\<close>

definition gf_shift :: "u128 \<Rightarrow> u128" where
  "gf_shift x =
     (let lsb = u_lo x AND 1;
          lo = drop_bit 1 (u_lo x) OR push_bit 63 (u_hi x);
          hi = drop_bit 1 (u_hi x) in
      \<lparr>u_hi = (if lsb \<noteq> 0 then hi XOR 0xe100000000000000 else hi), u_lo = lo\<rparr>)"

definition gf_bit :: "u128 \<Rightarrow> nat \<Rightarrow> bool" where
  "gf_bit y i \<longleftrightarrow>
     (if i \<ge> 64 then drop_bit (i - 64) (u_hi y) AND 1 else drop_bit i (u_lo y) AND 1) \<noteq> 0"

text \<open>The loop over the bits, from the given one down; the state is the shifted factor and the sum.\<close>

fun gf_mult_loop :: "u128 \<Rightarrow> nat \<Rightarrow> u128 \<Rightarrow> u128 \<Rightarrow> u128" where
  "gf_mult_loop y 0 x z = z"
| "gf_mult_loop y (Suc i) x z =
     gf_mult_loop y i (gf_shift x) (if gf_bit y i then u128_xor z x else z)"

definition gf_mult :: "u128 \<Rightarrow> u128 \<Rightarrow> u128" where
  "gf_mult x y = gf_mult_loop y 128 x \<lparr>u_hi = 0, u_lo = 0\<rparr>"

definition u128_load :: "bytes \<Rightarrow> u128" where
  "u128_load block = \<lparr>u_hi = load_be64 block, u_lo = load_be64 (drop 8 block)\<rparr>"

text \<open>The loop over the blocks of one of the two inputs, the last one padded with zeros.\<close>

function ghash_blocks :: "u128 \<Rightarrow> u128 \<Rightarrow> bytes \<Rightarrow> u128" where
  "ghash_blocks h y data =
     (if data = [] then y
      else let part = take 16 data;
               block = part @ replicate (16 - length part) 0 in
        ghash_blocks h (gf_mult (u128_xor y (u128_load block)) h) (drop 16 data))"
  by pat_completeness auto
termination
  by (relation "measure (\<lambda>(h, y, data). length data)") auto

declare ghash_blocks.simps [simp del]

definition ghash :: "bytes \<Rightarrow> bytes \<Rightarrow> bytes \<Rightarrow> bytes" where
  "ghash h aad ct =
     (let h128 = u128_load h;
          y = ghash_blocks h128 \<lparr>u_hi = 0, u_lo = 0\<rparr> aad;
          y = ghash_blocks h128 y ct;
          lenb = store_be64 (of_nat (length aad) * 8) @ store_be64 (of_nat (length ct) * 8);
          y = gf_mult (u128_xor y (u128_load lenb)) h128 in
      store_be64 (u_hi y) @ store_be64 (u_lo y))"

section \<open>Counter mode\<close>

definition ctrok :: "bytes \<Rightarrow> u32 \<Rightarrow> bytes" where
  "ctrok iv counter = take 12 iv @
     [ucast (drop_bit 24 counter), ucast (drop_bit 16 counter), ucast (drop_bit 8 counter), ucast counter]"

function gcm_ctr :: "bytes \<Rightarrow> bytes \<Rightarrow> u32 \<Rightarrow> bytes \<Rightarrow> bytes" where
  "gcm_ctr rk iv counter pt =
     (if pt = [] then []
      else xor_bytes (take 16 pt) (aes256_encrypt_block rk (ctrok iv counter)) @
           gcm_ctr rk iv (counter + 1) (drop 16 pt))"
  by pat_completeness auto
termination
  by (relation "measure (\<lambda>(rk, iv, counter, pt). length pt)") auto

declare gcm_ctr.simps [simp del]

definition gcm_tag :: "bytes \<Rightarrow> bytes \<Rightarrow> bytes \<Rightarrow> bytes \<Rightarrow> bytes" where
  "gcm_tag rk iv aad ct =
     (let h = aes256_encrypt_block rk (replicate 16 0);
          j0 = ctrok iv 1 in
      xor_bytes (ghash h aad ct) (aes256_encrypt_block rk j0))"

definition otsardb_aes_gcm_pure_encrypt :: "bytes \<Rightarrow> bytes \<Rightarrow> bytes \<Rightarrow> bytes \<Rightarrow> bytes \<times> bytes" where
  "otsardb_aes_gcm_pure_encrypt key iv aad plaintext =
     (let rk = aes256_expand_key key;
          ct = gcm_ctr rk iv 2 plaintext in
      (ct, gcm_tag rk iv aad ct))"

definition otsardb_aes_gcm_pure_decrypt :: "bytes \<Rightarrow> bytes \<Rightarrow> bytes \<Rightarrow> bytes \<Rightarrow> bytes \<Rightarrow> bytes option" where
  "otsardb_aes_gcm_pure_decrypt key iv aad ct tag =
     (let rk = aes256_expand_key key in
      if list_all (\<lambda>i. gcm_tag rk iv aad ct ! i = tag ! i) [0..<16]
      then Some (gcm_ctr rk iv 2 ct) else None)"

section \<open>The two limbs as one 128-bit word\<close>

type_synonym w128 = "128 word"

definition u128_word :: "u128 \<Rightarrow> w128" where
  "u128_word x = push_bit 64 (ucast (u_hi x)) OR ucast (u_lo x)"

text \<open>Multiplication in the field of SP 800-38D: bit 127 is the coefficient of 1.\<close>

definition gcm_reduce :: w128 where
  "gcm_reduce = push_bit 64 0xe100000000000000"

definition field_shift :: "w128 \<Rightarrow> w128" where
  "field_shift x = (if bit x 0 then drop_bit 1 x XOR gcm_reduce else drop_bit 1 x)"

definition field_mult :: "w128 \<Rightarrow> w128 \<Rightarrow> w128" where
  "field_mult x y =
     foldr (XOR) (map (\<lambda>i. (field_shift ^^ i) x) (filter (\<lambda>i. bit y (127 - i)) [0..<128])) 0"

lemma bit_u128_word:
  "bit (u128_word x) n \<longleftrightarrow> (if n < 64 then bit (u_lo x) n else n < 128 \<and> bit (u_hi x) (n - 64))"
  by (auto simp: u128_word_def bit_simps not_less dest: bit_imp_le_length)

lemma and_1_bit: "(w AND 1 \<noteq> (0 :: 'a :: len word)) \<longleftrightarrow> bit w 0"
  by (simp add: and_one_eq bit_0 odd_iff_mod_2_eq_one)

lemma u128_word_xor: "u128_word (u128_xor a b) = u128_word a XOR u128_word b"
  by (rule bit_word_eqI) (simp add: bit_u128_word bit_xor_iff u128_xor_def)

lemma gf_bit_word: "i < 128 \<Longrightarrow> gf_bit y i = bit (u128_word y) i"
  by (simp add: gf_bit_def and_1_bit bit_u128_word bit_drop_bit_eq)

lemma gf_shift_word: "u128_word (gf_shift x) = field_shift (u128_word x)"
proof -
  have lsb: "u_lo x AND 1 \<noteq> 0 \<longleftrightarrow> bit (u128_word x) 0"
    unfolding and_1_bit by (simp add: bit_u128_word del: bit_0)
  have drop: "u128_word \<lparr>u_hi = drop_bit 1 (u_hi x), u_lo = drop_bit 1 (u_lo x) OR push_bit 63 (u_hi x)\<rparr> =
      drop_bit 1 (u128_word x)"
  proof (rule bit_word_eqI)
    fix n assume "n < LENGTH(128)"
    moreover have "n > 63 \<Longrightarrow> Suc (n - 64) = n - 63" by simp
    ultimately show "bit (u128_word \<lparr>u_hi = drop_bit 1 (u_hi x), u_lo = drop_bit 1 (u_lo x) OR push_bit 63 (u_hi x)\<rparr>) n =
        bit (drop_bit 1 (u128_word x)) n"
      by (cases "n < 63"; cases "n = 63")
        (auto simp: bit_u128_word bit_simps Suc_diff_le not_less dest: bit_imp_le_length)
  qed
  have red: "u128_word \<lparr>u_hi = h XOR c, u_lo = l\<rparr> = u128_word \<lparr>u_hi = h, u_lo = l\<rparr> XOR push_bit 64 (ucast c)" for h c l
    by (rule bit_word_eqI) (auto simp: bit_u128_word bit_simps)
  show ?thesis
    using lsb drop by (simp add: gf_shift_def Let_def field_shift_def gcm_reduce_def red)
qed

text \<open>The sum that is still to come when the loop is at bit \<open>i\<close>.\<close>

lemma gf_mult_loop_word:
  "i \<le> 128 \<Longrightarrow> u128_word (gf_mult_loop y i x z) = u128_word z XOR
     foldr (XOR) (map (\<lambda>k. (field_shift ^^ k) (u128_word x)) (filter (\<lambda>k. bit (u128_word y) (i - 1 - k)) [0..<i])) 0"
proof (induction i arbitrary: x z)
  case (Suc i)
  have idx: "filter (\<lambda>k. bit (u128_word y) (i - k)) [0..<Suc i] =
      (if bit (u128_word y) i then [0] else []) @
      map Suc (filter (\<lambda>k. bit (u128_word y) (i - Suc k)) [0..<i])"
    by (simp add: upt_conv_Cons filter_map comp_def map_Suc_upt [symmetric] del: upt_Suc map_Suc_upt)
  show ?case
    using Suc.prems Suc.IH [of "gf_shift x"]
    by (simp add: idx gf_bit_word gf_shift_word u128_word_xor comp_def funpow_swap1 xor.assoc del: upt_Suc)
qed simp

lemma gf_mult_word: "u128_word (gf_mult x y) = field_mult (u128_word x) (u128_word y)"
proof -
  have "u128_word \<lparr>u_hi = 0, u_lo = 0\<rparr> = 0" by (simp add: u128_word_def)
  then show ?thesis by (simp add: gf_mult_def gf_mult_loop_word field_mult_def)
qed

section \<open>Bytes as big-endian words\<close>

definition be_word :: "bytes \<Rightarrow> 'a :: len word" where
  "be_word bs = foldl (\<lambda>v b. push_bit 8 v OR ucast b) 0 bs"

lemma be_word_snoc: "be_word (bs @ [b]) = push_bit 8 (be_word bs) OR ucast b"
  by (simp add: be_word_def)

lemma be_word_Nil [simp]: "be_word [] = 0"
  by (simp add: be_word_def)

lemma be_word_append: "be_word (xs @ ys) = push_bit (8 * length ys) (be_word xs) OR be_word ys"
proof (induction ys rule: rev_induct)
  case (snoc b ys)
  have "be_word (xs @ ys @ [b]) = push_bit 8 (be_word (xs @ ys)) OR (ucast b :: 'a word)"
    using be_word_snoc [of "xs @ ys" b] by simp
  then show ?case by (simp add: snoc.IH be_word_snoc push_bit_or push_bit_push_bit or.assoc)
qed simp

lemma be_word_Cons: "be_word (b # bs) = push_bit (8 * length bs) (ucast b) OR be_word bs"
  using be_word_append [of "[b]" bs] by (simp add: be_word_def)

lemma be_word_bound: "bit (be_word bs :: 'a :: len word) n \<Longrightarrow> n < 8 * length bs"
proof (induction bs arbitrary: n rule: rev_induct)
  case (snoc b bs)
  show ?case
  proof (cases "n < 8")
    case False
    then have "bit (be_word bs :: 'a word) (n - 8)"
      using snoc.prems by (auto simp: be_word_snoc bit_simps dest: bit_imp_le_length)
    with snoc.IH [of "n - 8"] False show ?thesis by simp
  qed simp
qed simp

lemma be_word_widen:
  "length bs \<le> 8 \<Longrightarrow> ucast (be_word bs :: u64) = (be_word bs :: w128)"
proof (induction bs rule: rev_induct)
  case (snoc b bs)
  then have ih: "ucast (be_word bs :: u64) = (be_word bs :: w128)" by simp
  show ?case
  proof (rule bit_word_eqI)
    fix n assume n: "n < LENGTH(128)"
    have same: "bit (be_word bs :: u64) m = bit (be_word bs :: w128) m" if "m < 128" for m
    proof -
      have "bit (ucast (be_word bs :: u64) :: w128) m = bit (be_word bs :: w128) m" by (simp add: ih)
      then show ?thesis using that by (simp add: bit_simps)
    qed
    have small: "bit (be_word bs :: w128) m \<Longrightarrow> m < 56" for m
      using be_word_bound [of bs m] snoc.prems by fastforce
    show "bit (ucast (be_word (bs @ [b]) :: u64) :: w128) n = bit (be_word (bs @ [b]) :: w128) n"
    proof (cases "n < 8")
      case True
      then show ?thesis by (simp add: be_word_snoc bit_simps)
    next
      case False
      then have "\<not> bit b n" using bit_imp_le_length by fastforce
      then show ?thesis
        using False n same [of "n - 8"] small [of "n - 8"] by (auto simp: be_word_snoc bit_simps)
    qed
  qed
qed simp

lemma load_be64_word: "length p \<ge> 8 \<Longrightarrow> load_be64 p = be_word (take 8 p)"
  by (simp add: load_be64_def be_word_def)

lemma u128_load_word: "length p = 16 \<Longrightarrow> u128_word (u128_load p) = be_word p"
  using be_word_append [where ?'a = 128, of "take 8 p" "drop 8 p"] be_word_widen [of "take 8 p"] be_word_widen [of "drop 8 p"]
  by (simp add: u128_word_def u128_load_def load_be64_word)

lemma store_be64_loop_word:
  "be_word (store_be64_loop n v p) = push_bit (8 * length p) (take_bit (8 * n) v) OR (be_word p :: u64)"
proof (induction n arbitrary: v p)
  case (Suc n)
  have byte: "(ucast (ucast (v AND 0xff) :: byte) :: u64) = take_bit 8 v"
    unfolding ucast_and_0xff by (rule bit_word_eqI) (auto simp: bit_simps)
  have join: "push_bit 8 (take_bit (8 * n) (drop_bit 8 v)) OR take_bit 8 v = take_bit (8 * Suc n) v"
    by (rule bit_word_eqI) (auto simp: bit_simps)
  have "push_bit (8 * Suc (length p)) (take_bit (8 * n) (drop_bit 8 v)) OR push_bit (8 * length p) (take_bit 8 v) =
      push_bit (8 * length p) (take_bit (8 * Suc n) v)"
    unfolding join [symmetric] by (simp add: push_bit_or push_bit_push_bit add.commute)
  then show ?case using Suc.IH [of "drop_bit 8 v"] by (simp add: be_word_Cons byte or.assoc [symmetric])
qed simp

lemma length_store_be64_loop: "length (store_be64_loop n v p) = n + length p"
  by (induction n arbitrary: v p) auto

lemma length_store_be64 [simp]: "length (store_be64 v) = 8"
  by (simp add: store_be64_def length_store_be64_loop)

lemma be_word_store_be64: "be_word (store_be64 v) = v"
  by (simp add: store_be64_def store_be64_loop_word take_bit_word_eq_self)

lemma store_u128_word: "be_word (store_be64 (u_hi y) @ store_be64 (u_lo y)) = u128_word y"
  using be_word_widen [of "store_be64 (u_hi y)"] be_word_widen [of "store_be64 (u_lo y)"]
  by (simp add: be_word_append u128_word_def be_word_store_be64)

section \<open>GHASH as a polynomial evaluation\<close>

text \<open>The blocks of an input, the last one padded with zeros on the right.\<close>

definition gcm_block :: "bytes \<Rightarrow> nat \<Rightarrow> w128" where
  "gcm_block data i = be_word (take 16 (drop (16 * i) (data @ replicate 15 0)))"

definition gcm_blocks :: "bytes \<Rightarrow> w128 list" where
  "gcm_blocks data = map (gcm_block data) [0..<(length data + 15) div 16]"

definition ghash_reference :: "w128 \<Rightarrow> bytes \<Rightarrow> bytes \<Rightarrow> w128" where
  "ghash_reference h aad ct =
     foldl (\<lambda>y b. field_mult (y XOR b) h) 0
       (gcm_blocks aad @ gcm_blocks ct @
        [push_bit 64 (ucast (of_nat (8 * length aad) :: u64)) OR ucast (of_nat (8 * length ct) :: u64)])"

lemma gcm_blocks_step:
  assumes "data \<noteq> []"
  shows "gcm_blocks data =
    be_word (take 16 data @ replicate (16 - length (take 16 data)) 0) # gcm_blocks (drop 16 data)"
proof -
  have n: "(length data + 15) div 16 = Suc ((length (drop 16 data) + 15) div 16)"
    using assms by (cases data) (auto simp: le_div_geq not_le min_def div_add_self2)
  have first: "take 16 (data @ replicate 15 (0 :: byte)) = take 16 data @ replicate (16 - length (take 16 data)) 0"
  proof (cases "length data \<le> 15")
    case True
    moreover have "1 \<le> length data" using assms by (cases data) simp_all
    ultimately show ?thesis by (simp add: min_def)
  qed simp
  have start: "gcm_block data 0 = be_word (take 16 data @ replicate (16 - length (take 16 data)) 0)"
    by (simp only: gcm_block_def mult_0_right drop_0 first)
  have rest: "gcm_block data (Suc i) = gcm_block (drop 16 data) i" if "i < (length (drop 16 data) + 15) div 16" for i
  proof -
    have "length data > 16" using that by (cases "length data \<le> 16") auto
    then show ?thesis by (simp add: gcm_block_def add.commute)
  qed
  show ?thesis
    unfolding gcm_blocks_def n
    by (simp add: upt_conv_Cons map_Suc_upt [symmetric] start rest comp_def del: upt_Suc map_Suc_upt)
qed

lemma ghash_blocks_word:
  "u128_word (ghash_blocks h y data) =
     foldl (\<lambda>y b. field_mult (y XOR b) (u128_word h)) (u128_word y) (gcm_blocks data)"
proof (induction h y data rule: ghash_blocks.induct)
  case (1 h y data)
  show ?case
  proof (cases "data = []")
    case True
    then show ?thesis by (simp add: ghash_blocks.simps gcm_blocks_def)
  next
    case False
    let ?part = "take 16 data"
    let ?b = "?part @ replicate (16 - length ?part) 0"
    have len: "length ?b = 16" by simp
    have "ghash_blocks h y data = ghash_blocks h (gf_mult (u128_xor y (u128_load ?b)) h) (drop 16 data)"
      using False by (subst ghash_blocks.simps) (simp only: Let_def if_False)
    then show ?thesis
      using 1 [OF False refl refl] gcm_blocks_step [OF False]
      by (simp only: gf_mult_word u128_word_xor u128_load_word [OF len] foldl_Cons)
  qed
qed

section \<open>Lengths and inverses\<close>

lemma length_xor_bytes [simp]: "length (xor_bytes xs ys) = min (length xs) (length ys)"
  by (simp add: xor_bytes_def)

lemma xor_bytes_inverse: "length xs \<le> length ks \<Longrightarrow> xor_bytes (xor_bytes xs ks) ks = xs"
  by (induction xs ks rule: list_induct2') (auto simp: xor_bytes_def xor.assoc)

lemma length_expand: "length (fst (foldl aes256_expand_word (rk, rcon) is)) = length rk + 4 * length is"
proof (induction "is" arbitrary: rk rcon)
  case (Cons i "is")
  have "\<exists>ws rcon'. aes256_expand_word (rk, rcon) i = (rk @ ws, rcon') \<and> length ws = 4"
    by (simp add: aes256_expand_word_def Let_def split: prod.split)
  then show ?case using Cons.IH by fastforce
qed simp

lemma length_aes256_expand_key [simp]: "length key = 32 \<Longrightarrow> length (aes256_expand_key key) = 240"
  unfolding aes256_expand_key_def length_expand by (simp del: upt_Suc upt_rec_numeral)

lemma length_aes_sub_shift [simp]: "length (aes_sub_shift s) = 16"
  by (simp add: aes_sub_shift_def length_concat comp_def sum_list_triv)

lemma length_encrypt_block [simp]: "length rk = 240 \<Longrightarrow> length (aes256_encrypt_block rk input) = 16"
  by (simp add: aes256_encrypt_block_def mem_slice_def)

lemma length_ghash [simp]: "length (ghash h aad ct) = 16"
  by (simp add: ghash_def Let_def)

lemma length_gcm_tag [simp]: "length rk = 240 \<Longrightarrow> length (gcm_tag rk iv aad ct) = 16"
  by (simp add: gcm_tag_def Let_def)

lemma length_gcm_ctr: "length rk = 240 \<Longrightarrow> length (gcm_ctr rk iv c pt) = length pt"
proof (induction rk iv c pt rule: gcm_ctr.induct)
  case (1 rk iv c pt)
  then show ?case by (subst gcm_ctr.simps) (auto simp: min_def)
qed

lemma gcm_ctr_inverse: "length rk = 240 \<Longrightarrow> gcm_ctr rk iv c (gcm_ctr rk iv c pt) = pt"
proof (induction rk iv c pt rule: gcm_ctr.induct)
  case (1 rk iv c pt)
  let ?ks = "aes256_encrypt_block rk (ctrok iv c)"
  let ?first = "xor_bytes (take 16 pt) ?ks"
  show ?case
  proof (cases "pt = []")
    case False
    have ct: "gcm_ctr rk iv c pt = ?first @ gcm_ctr rk iv (c + 1) (drop 16 pt)"
      using False by (subst gcm_ctr.simps) simp
    have len: "length ?ks = 16" "length ?first = min 16 (length pt)"
      using 1(2) by (simp_all add: min.commute)
    have ne: "gcm_ctr rk iv c pt \<noteq> []" using length_gcm_ctr [OF 1(2), of iv c pt] False by auto
    have parts: "take 16 (gcm_ctr rk iv c pt) = ?first" "drop 16 (gcm_ctr rk iv c pt) = gcm_ctr rk iv (c + 1) (drop 16 pt)"
    proof -
      have "drop 16 pt = [] \<or> length ?first = 16" using len by auto
      then show "take 16 (gcm_ctr rk iv c pt) = ?first" "drop 16 (gcm_ctr rk iv c pt) = gcm_ctr rk iv (c + 1) (drop 16 pt)"
        using len by (auto simp: ct gcm_ctr.simps [of rk iv "c + 1" "[]"])
    qed
    have "gcm_ctr rk iv c (gcm_ctr rk iv c pt) = xor_bytes ?first ?ks @ gcm_ctr rk iv (c + 1) (gcm_ctr rk iv (c + 1) (drop 16 pt))"
      using ne parts by (subst gcm_ctr.simps) simp
    also have "\<dots> = pt" using 1(1) [OF False 1(2)] len by (simp add: xor_bytes_inverse)
    finally show ?thesis .
  qed (simp add: gcm_ctr.simps)
qed

lemma gcm_ctr_blocks:
  "gcm_ctr rk iv c pt = concat (map (\<lambda>i.
     xor_bytes (take 16 (drop (16 * i) pt)) (aes256_encrypt_block rk (ctrok iv (c + of_nat i))))
     [0..<(length pt + 15) div 16])"
proof (induction rk iv c pt rule: gcm_ctr.induct)
  case (1 rk iv c pt)
  show ?case
  proof (cases "pt = []")
    case False
    have n: "(length pt + 15) div 16 = Suc ((length (drop 16 pt) + 15) div 16)"
      using False by (cases pt) (auto simp: le_div_geq not_le min_def div_add_self2)
    show ?thesis
      unfolding n
      using 1 [OF False] False
      by (subst gcm_ctr.simps)
        (simp add: upt_conv_Cons map_Suc_upt [symmetric] comp_def add.commute add.left_commute del: upt_Suc map_Suc_upt)
  qed (simp add: gcm_ctr.simps)
qed

lemma ctrok_inject: "length iv = 12 \<Longrightarrow> ctrok iv a = ctrok iv b \<longleftrightarrow> a = b"
proof
  assume "length iv = 12" "ctrok iv a = ctrok iv b"
  then have "put_u32_be a = put_u32_be b" by (simp add: ctrok_def put_u32_be_def ucast_and_0xff)
  then show "a = b" by (metis append_Nil2 read_put_u32_be)
qed simp

section \<open>Properties\<close>

text \<open>
  (C34) GHASH on two 64-bit limbs is the function of SP 800-38D: the polynomial whose coefficients are
  the zero-padded blocks of the two inputs and the block of the bit lengths, evaluated by Horner's
  rule in the field of 2^128 elements.
\<close>

theorem ghash_correct:
  assumes "length h = 16"
  shows "be_word (ghash h aad ct) = ghash_reference (be_word h) aad ct"
proof -
  let ?len = "store_be64 (of_nat (length aad) * 8) @ store_be64 (of_nat (length ct) * 8)"
  have len: "be_word ?len = (push_bit 64 (ucast (of_nat (8 * length aad) :: u64)) OR ucast (of_nat (8 * length ct) :: u64) :: w128)"
    using store_u128_word [of "\<lparr>u_hi = of_nat (length aad) * 8, u_lo = of_nat (length ct) * 8\<rparr>"]
    by (simp add: u128_word_def mult.commute)
  have zero: "u128_word \<lparr>u_hi = 0, u_lo = 0\<rparr> = 0" by (simp add: u128_word_def)
  show ?thesis
    unfolding ghash_def Let_def store_u128_word gf_mult_word u128_word_xor ghash_blocks_word ghash_reference_def
    using assms len by (simp add: u128_load_word zero)
qed

theorem ghash_correct_witness:
  "be_word (ghash (replicate 16 7) [1, 2, 3] [4]) = ghash_reference (be_word (replicate 16 7)) [1, 2, 3] [4]"
  by (rule ghash_correct) simp

text \<open>
  (C35) What was encrypted decrypts to itself with the tag that came with it, and with no other tag:
  any other 16 bytes are refused.  The ciphertext has the length of the plaintext and does not depend
  on the associated data.
\<close>

theorem gcm_authenticated:
  assumes "length key = 32" "length tag' = 16" "otsardb_aes_gcm_pure_encrypt key iv aad pt = (ct, tag)"
  shows "otsardb_aes_gcm_pure_decrypt key iv aad ct tag' = (if tag' = tag then Some pt else None) \<and>
    length ct = length pt \<and> length tag = 16 \<and> fst (otsardb_aes_gcm_pure_encrypt key iv aad' pt) = ct"
proof -
  let ?rk = "aes256_expand_key key"
  have rk: "length ?rk = 240" using assms(1) by simp
  have ct: "ct = gcm_ctr ?rk iv 2 pt" and tag: "tag = gcm_tag ?rk iv aad ct"
    using assms(3) by (auto simp: otsardb_aes_gcm_pure_encrypt_def Let_def)
  have same: "list_all (\<lambda>i. tag ! i = tag' ! i) [0..<16] \<longleftrightarrow> tag' = tag"
    using assms(2) rk by (auto simp: list_all_iff tag list_eq_iff_nth_eq)
  have "otsardb_aes_gcm_pure_decrypt key iv aad ct tag' = (if tag' = tag then Some (gcm_ctr ?rk iv 2 ct) else None)"
    unfolding otsardb_aes_gcm_pure_decrypt_def Let_def tag [symmetric] same by (rule refl)
  moreover have "gcm_ctr ?rk iv 2 ct = pt" "length ct = length pt" "length tag = 16"
    using rk by (simp_all add: ct tag gcm_ctr_inverse length_gcm_ctr)
  moreover have "fst (otsardb_aes_gcm_pure_encrypt key iv aad' pt) = ct"
    by (simp add: otsardb_aes_gcm_pure_encrypt_def Let_def ct)
  ultimately show ?thesis by simp
qed

theorem gcm_authenticated_witness:
  "otsardb_aes_gcm_pure_decrypt (replicate 32 1) (replicate 12 2) [3]
     (fst (otsardb_aes_gcm_pure_encrypt (replicate 32 1) (replicate 12 2) [3] [4, 5]))
     (snd (otsardb_aes_gcm_pure_encrypt (replicate 32 1) (replicate 12 2) [3] [4, 5])) = Some [4, 5]"
proof -
  obtain ct tag where e: "otsardb_aes_gcm_pure_encrypt (replicate 32 1) (replicate 12 2) [3] [4, 5] = (ct, tag)"
    by (cases "otsardb_aes_gcm_pure_encrypt (replicate 32 1) (replicate 12 2) [3] [4, 5]")
  have "length (replicate 32 (1 :: byte)) = 32" by simp
  have "length tag = 16"
    using gcm_authenticated [OF _ _ e, of "replicate 16 0"] by simp
  then show ?thesis using gcm_authenticated [OF _ _ e, of tag] e by simp
qed

text \<open>
  No keystream block is used twice within a message: for every input the callers allow (at most
  the range of \<open>int\<close>) the counter does not wrap, so the block for the tag and the blocks for the data
  are encryptions of pairwise different counter blocks.
\<close>

theorem gcm_counters_distinct:
  assumes "length iv = 12" "length pt \<le> int_max"
  shows "fst (otsardb_aes_gcm_pure_encrypt key iv aad pt) = concat (map (\<lambda>i.
       xor_bytes (take 16 (drop (16 * i) pt)) (aes256_encrypt_block (aes256_expand_key key) (ctrok iv (of_nat (i + 2)))))
       [0..<(length pt + 15) div 16]) \<and>
     distinct (map (\<lambda>i. ctrok iv (of_nat i)) [1..<(length pt + 15) div 16 + 2])"
proof -
  have bound: "(length pt + 15) div 16 + 2 \<le> 2 ^ 32" using assms(2) by (simp add: int_max_def)
  have "inj_on (\<lambda>i. ctrok iv (of_nat i)) {1..<(length pt + 15) div 16 + 2}"
  proof (rule inj_onI)
    fix i j assume i: "i \<in> {1..<(length pt + 15) div 16 + 2}" "j \<in> {1..<(length pt + 15) div 16 + 2}"
      and "ctrok iv (of_nat i) = ctrok iv (of_nat j)"
    then have "(of_nat i :: u32) = of_nat j" using ctrok_inject [OF assms(1)] by blast
    then have "unat (of_nat i :: u32) = unat (of_nat j :: u32)" by simp
    then show "i = j" using i bound by (simp add: unat_of_nat_u32 uint32_max_def)
  qed
  then show ?thesis
    by (simp add: otsardb_aes_gcm_pure_encrypt_def Let_def gcm_ctr_blocks add.commute distinct_map del: upt_Suc)
qed

theorem gcm_counters_distinct_witness:
  "distinct (map (\<lambda>i. ctrok (replicate 12 9) (of_nat i)) [1..<(length (replicate 40 (0 :: byte)) + 15) div 16 + 2])"
  using gcm_counters_distinct [of "replicate 12 9" "replicate 40 0"] by (simp add: int_max_def del: upt_Suc)

end
