(* ===== verification/Commit_Manifest.thy ===== *)
theory Commit_Manifest
  imports Journal Sha256 "HOL-Library.Monad_Syntax"
begin

text \<open>
  Commit manifests, \<open>src/storage/commit_manifest.c\<close>: the JSON object that lists the segments of one
  commit and names its parent.  Formats 1 and 2 hold one flat segment, format 3 a list of segments,
  format 4 the page set and the frame offsets of every segment.  The encoder computes the size first
  and then writes into a buffer of that size; the decoder is strict and refuses what the encoder
  cannot produce.
\<close>

section \<open>Data\<close>

definition MANIFEST_ID_MAX :: nat where "MANIFEST_ID_MAX = 63"
definition MANIFEST_SHA256_HEX_SIZE :: nat where "MANIFEST_SHA256_HEX_SIZE = 64"
definition COMMIT_MANIFEST_VERSION :: u32 where "COMMIT_MANIFEST_VERSION = 4"
definition MANIFEST_MAX_SEGMENTS :: nat where "MANIFEST_MAX_SEGMENTS = 128"
definition MANIFEST_SEGMENT_KEY_MAX :: nat where "MANIFEST_SEGMENT_KEY_MAX = 128"
definition MANIFEST_MAX_LIST_ENTRIES :: nat where "MANIFEST_MAX_LIST_ENTRIES = 1000000"

text \<open>The page array and its count are one list; a null array is the empty list.\<close>

record manifest_segment_ref =
  sg_key :: string
  sg_sha256 :: string
  sg_size :: u64
  sg_pages :: "u32 list"
  sg_frame_offsets :: "u64 list option"

record commit_manifest =
  cm_format_version :: u32
  cm_generation :: u64
  cm_parent_generation :: u64
  cm_page_size :: u32
  cm_database_size_pages :: u64
  cm_database_id :: string
  cm_commit_id :: string
  cm_parent_commit_id :: string
  cm_parent_manifest_sha256 :: string
  cm_segments :: "manifest_segment_ref list"
  cm_post_apply_checksum :: string

section \<open>Fields\<close>

text \<open>\<open>strtoull\<close> behind the checks for a minus sign and for \<open>ERANGE\<close>.\<close>

definition strict_strtoull :: "string \<Rightarrow> (u64 \<times> string) option" where
  "strict_strtoull p =
     (if p \<noteq> [] \<and> hd p = CHR ''-'' then None
      else case strtoull p of
        None \<Rightarrow> None
      | Some (v, e, erange) \<Rightarrow> if erange then None else Some (v, e))"

definition manifest_extract_u64 :: "string \<Rightarrow> string \<Rightarrow> u64 option" where
  "manifest_extract_u64 json name =
     (if length (pattern_u64 name) \<ge> 80 then None
      else case strstr json (pattern_u64 name) of
        None \<Rightarrow> None
      | Some p \<Rightarrow> map_option fst (strict_strtoull (skip_blanks (after_pattern (pattern_u64 name) p))))"

definition manifest_extract_string :: "string \<Rightarrow> string \<Rightarrow> nat \<Rightarrow> bool \<Rightarrow> string option" where
  "manifest_extract_string json name out_size allow_empty =
     (if length (pattern_str name) \<ge> 80 then None
      else case strstr json (pattern_str name) of
        None \<Rightarrow> if allow_empty then Some [] else None
      | Some p \<Rightarrow>
          let v = after_pattern (pattern_str name) p in
          (case strchr v quote of
             None \<Rightarrow> None
           | Some e \<Rightarrow>
               let len = length v - length e in
               if (\<not> allow_empty \<and> len = 0) \<or> len \<ge> out_size then None else Some (take len v)))"

section \<open>Validity\<close>

definition manifest_parent_is_valid :: "commit_manifest \<Rightarrow> bool" where
  "manifest_parent_is_valid m =
     (if cm_parent_generation m = 0 then
        if cm_generation m \<noteq> 1 \<or> cm_parent_commit_id m \<noteq> [] then False
        else if cm_format_version m \<ge> 2 \<and> cm_parent_manifest_sha256 m \<noteq> [] then False
        else True
      else if cm_parent_generation m + 1 \<noteq> cm_generation m \<or> cm_parent_commit_id m = [] then False
      else if cm_format_version m \<ge> 2 \<and> length (cm_parent_manifest_sha256 m) \<noteq> 64 then False
      else True)"

text \<open>The first argument is the entry before the current one.\<close>

fun pages_list_loop :: "u32 option \<Rightarrow> u32 list \<Rightarrow> u64 \<Rightarrow> bool" where
  "pages_list_loop before [] n = True"
| "pages_list_loop before (p # ps) n =
     (if p = 0 then False
      else if (ucast p :: u64) > n then False
      else if (case before of None \<Rightarrow> False | Some q \<Rightarrow> p \<le> q) then False
      else pages_list_loop (Some p) ps n)"

definition pages_list_valid :: "u32 list \<Rightarrow> u64 \<Rightarrow> bool" where
  "pages_list_valid pages n = pages_list_loop None pages n"

fun frame_offsets_loop :: "u64 option \<Rightarrow> u64 list \<Rightarrow> u64 \<Rightarrow> bool" where
  "frame_offsets_loop before [] n = True"
| "frame_offsets_loop before (x # xs) n =
     (if x \<ge> n then False
      else if (case before of None \<Rightarrow> False | Some y \<Rightarrow> x \<le> y) then False
      else frame_offsets_loop (Some x) xs n)"

definition frame_offsets_valid :: "u64 list \<Rightarrow> u64 \<Rightarrow> bool" where
  "frame_offsets_valid offsets n = frame_offsets_loop None offsets n"

definition manifest_segment_valid :: "u32 \<Rightarrow> u64 \<Rightarrow> manifest_segment_ref \<Rightarrow> bool" where
  "manifest_segment_valid format n r =
     (if sg_key r = [] \<or> length (sg_sha256 r) \<noteq> MANIFEST_SHA256_HEX_SIZE then False
      else if format \<ge> 4 then
        if sg_pages r \<noteq> [] \<and> \<not> pages_list_valid (sg_pages r) n then False
        else if sg_frame_offsets r \<noteq> None \<and> sg_pages r = [] then False
        else if (case sg_frame_offsets r of None \<Rightarrow> False
                 | Some xs \<Rightarrow> \<not> frame_offsets_valid (take (length (sg_pages r)) xs) (sg_size r)) then False
        else True
      else True)"

definition manifest_segments_valid :: "commit_manifest \<Rightarrow> bool" where
  "manifest_segments_valid m =
     (if cm_segments m = [] \<or> length (cm_segments m) > MANIFEST_MAX_SEGMENTS then False
      else list_all (manifest_segment_valid (cm_format_version m) (cm_database_size_pages m)) (cm_segments m))"

definition format_allowed :: "u32 \<Rightarrow> bool" where
  "format_allowed v \<longleftrightarrow> v \<ge> 1 \<and> v \<le> COMMIT_MANIFEST_VERSION"

section \<open>Parsing the segment list\<close>

text \<open>The capacity of the growing array is the last number; it is capped, and so is the list.\<close>

definition list_next_capacity :: "nat \<Rightarrow> nat" where
  "list_next_capacity capacity = min (if capacity = 0 then 8 else capacity * 2) MANIFEST_MAX_LIST_ENTRIES"

lemma strtoull_shorter: "strtoull p = Some (v, e, r) \<Longrightarrow> length e < length p"
proof -
  have tw: "length (dropWhile P xs) < length xs" if "takeWhile P xs \<noteq> []" for P and xs :: string
    using that by (cases xs) (auto split: if_splits intro: le_less_trans [OF length_dropWhile_le])
  have le: "length (dropWhile isspace p) \<le> length p" by (rule length_dropWhile_le)
  show "strtoull p = Some (v, e, r) \<Longrightarrow> length e < length p"
  proof (cases "dropWhile isspace p")
    case (Cons c q)
    assume "strtoull p = Some (v, e, r)"
    then show ?thesis
      using Cons le tw [of isdigit q] tw [of isdigit "c # q"]
      by (auto simp: strtoull_def Let_def split: if_splits)
  qed (simp add: strtoull_def)
qed

lemma strict_strtoull_shorter: "strict_strtoull p = Some (v, e) \<Longrightarrow> length e < length p"
  by (auto simp: strict_strtoull_def dest: strtoull_shorter split: if_splits option.splits)

lemma length_skip_blanks: "length (skip_blanks p) \<le> length p"
  by (simp add: skip_blanks_def length_dropWhile_le)

function parse_u64_loop :: "nat \<Rightarrow> u64 list \<Rightarrow> string \<Rightarrow> (u64 list \<times> string) option" where
  "parse_u64_loop capacity vals p =
     (let p = skip_blanks p in
      if p \<noteq> [] \<and> hd p = CHR '']'' then Some (vals, tl p)
      else case strict_strtoull p of
        None \<Rightarrow> None
      | Some (v, e) \<Rightarrow>
          if length vals = capacity \<and> length vals \<ge> MANIFEST_MAX_LIST_ENTRIES then None
          else
            let capacity = (if length vals = capacity then list_next_capacity capacity else capacity);
                q = skip_blanks e in
            if q \<noteq> [] \<and> hd q = CHR '']'' then Some (vals @ [v], tl q)
            else if q = [] \<or> hd q \<noteq> CHR '','' then None
            else parse_u64_loop capacity (vals @ [v]) (tl q))"
  by pat_completeness auto
termination
proof (relation "measure (\<lambda>(capacity, vals, p). length p)", simp, goal_cases)
  case (1 capacity vals p x z v e capacity' q)
  then have "length e < length x" using strict_strtoull_shorter by blast
  moreover have "length x \<le> length p" "length q \<le> length e" using 1 length_skip_blanks by auto
  ultimately show ?case by simp
qed

declare parse_u64_loop.simps [simp del]

definition parse_u64_list :: "string \<Rightarrow> (u64 list \<times> string) option" where
  "parse_u64_list p = parse_u64_loop 0 [] p"

definition parse_u32_list :: "string \<Rightarrow> (u32 list \<times> string) option" where
  "parse_u32_list p =
     (case parse_u64_list p of
        None \<Rightarrow> None
      | Some (vals, e) \<Rightarrow>
          if list_all (\<lambda>v. unat v \<le> uint32_max) vals then Some (map ucast vals, e) else None)"

text \<open>\<open>strncmp\<close> against a marker, and the pointer behind it.\<close>

definition skip_marker :: "string \<Rightarrow> string \<Rightarrow> string option" where
  "skip_marker marker p = (if prefix marker p then Some (drop (length marker) p) else None)"

text \<open>The text up to the next quotation mark and the pointer behind that.\<close>

definition until_quote :: "string \<Rightarrow> (string \<times> string) option" where
  "until_quote p =
     (case strchr p quote of None \<Rightarrow> None
      | Some e \<Rightarrow> Some (take (length p - length e) p, tl e))"

definition require :: "bool \<Rightarrow> unit option" where
  "require b = (if b then Some () else None)"

definition next_char :: "char \<Rightarrow> string \<Rightarrow> string option" where
  "next_char c p = (if p \<noteq> [] \<and> hd p = c then Some (tl p) else None)"

definition segment_head_marker :: string where "segment_head_marker = pattern_str ''key''"
definition segment_sha_marker :: string where "segment_sha_marker = CHR '','' # pattern_str ''sha256''"
definition segment_size_marker :: string where "segment_size_marker = CHR '','' # pattern_u64 ''size''"
definition segment_pages_marker :: string where "segment_pages_marker = CHR '','' # pattern_u64 ''pages'' @ ''[''"
definition segment_offsets_marker :: string where
  "segment_offsets_marker = CHR '','' # pattern_u64 ''frame_offsets'' @ ''[''"

definition parse_segment_offsets :: "u64 \<Rightarrow> nat \<Rightarrow> string \<Rightarrow> (u64 list option \<times> string) option" where
  "parse_segment_offsets seg_size page_count p =
     (case skip_marker segment_offsets_marker p of
        None \<Rightarrow> Some (None, p)
      | Some p \<Rightarrow>
          do { (offsets, p) \<leftarrow> parse_u64_list p;
               require (length offsets = page_count);
               require (frame_offsets_valid offsets seg_size);
               Some (if offsets = [] then None else Some offsets, p) })"

definition parse_segment_pages ::
  "u64 \<Rightarrow> u64 \<Rightarrow> string \<Rightarrow> (u32 list \<times> u64 list option \<times> string) option" where
  "parse_segment_pages database_size_pages seg_size p =
     do { p \<leftarrow> skip_marker segment_pages_marker p;
          (pages, p) \<leftarrow> parse_u32_list p;
          require (length pages \<le> uint32_max);
          (offsets, p) \<leftarrow> parse_segment_offsets seg_size (length pages) p;
          require (pages_list_valid pages database_size_pages);
          Some (pages, offsets, p) }"

definition parse_segment_tail ::
  "u32 \<Rightarrow> u64 \<Rightarrow> u64 \<Rightarrow> string \<Rightarrow> (u32 list \<times> u64 list option \<times> string) option" where
  "parse_segment_tail format database_size_pages seg_size p =
     (if format \<ge> 4 then parse_segment_pages database_size_pages seg_size p else Some ([], None, p))"

definition parse_segment :: "u32 \<Rightarrow> u64 \<Rightarrow> string \<Rightarrow> (manifest_segment_ref \<times> string) option" where
  "parse_segment format database_size_pages p =
     do { p \<leftarrow> next_char (CHR ''{'') (skip_blanks p);
          p \<leftarrow> skip_marker segment_head_marker p;
          (key, p) \<leftarrow> until_quote p;
          require (\<not> (length key = 0 \<or> length key \<ge> MANIFEST_SEGMENT_KEY_MAX + 1));
          p \<leftarrow> skip_marker segment_sha_marker p;
          (sha, p) \<leftarrow> until_quote p;
          require (length sha = MANIFEST_SHA256_HEX_SIZE);
          p \<leftarrow> skip_marker segment_size_marker p;
          (seg_size, p) \<leftarrow> strict_strtoull (skip_blanks p);
          (pages, offsets, p) \<leftarrow> parse_segment_tail format database_size_pages seg_size p;
          p \<leftarrow> next_char (CHR ''}'') (skip_blanks p);
          Some (\<lparr>sg_key = key, sg_sha256 = sha, sg_size = seg_size, sg_pages = pages, sg_frame_offsets = offsets\<rparr>, p) }"

text \<open>The loop over the entries; the first number is how many more fit.\<close>

fun parse_segments_loop ::
  "nat \<Rightarrow> u32 \<Rightarrow> u64 \<Rightarrow> manifest_segment_ref list \<Rightarrow> string \<Rightarrow> (manifest_segment_ref list \<times> string) option" where
  "parse_segments_loop 0 format n refs p = Some (refs, p)"
| "parse_segments_loop (Suc room) format n refs p =
     (case parse_segment format n p of
        None \<Rightarrow> None
      | Some (r, q) \<Rightarrow>
          let q = skip_blanks q in
          if q \<noteq> [] \<and> hd q = CHR '']'' then Some (refs @ [r], q)
          else if q = [] \<or> hd q \<noteq> CHR '','' then None
          else parse_segments_loop room format n (refs @ [r]) (tl q))"

definition segments_marker :: string where
  "segments_marker = pattern_u64 ''segments'' @ ''[''"

definition extract_segments :: "string \<Rightarrow> u32 \<Rightarrow> u64 \<Rightarrow> manifest_segment_ref list option" where
  "extract_segments json format database_size_pages =
     do { p \<leftarrow> strstr json segments_marker;
          (refs, p) \<leftarrow> parse_segments_loop MANIFEST_MAX_SEGMENTS format database_size_pages []
                        (after_pattern segments_marker p);
          require (\<not> (refs = [] \<or> length refs > MANIFEST_MAX_SEGMENTS \<or> p = [] \<or> hd p \<noteq> CHR '']''));
          Some refs }"

section \<open>Encoding\<close>

text \<open>The size of a printed array; \<open>tmp\<close> is the size of the scratch buffer for one number.\<close>

fun array_json_size_loop :: "nat \<Rightarrow> bool \<Rightarrow> nat list \<Rightarrow> nat \<Rightarrow> nat option" where
  "array_json_size_loop tmp first [] sum_bytes = Some sum_bytes"
| "array_json_size_loop tmp first (v # vs) sum_bytes =
     (if length (dec v) \<ge> tmp then None
      else array_json_size_loop tmp False vs (sum_bytes + length (dec v) + (if first then 0 else 1)))"

definition array_json_size :: "nat \<Rightarrow> nat list \<Rightarrow> nat option" where
  "array_json_size tmp vs =
     (case array_json_size_loop tmp True vs 2 of
        None \<Rightarrow> None
      | Some sum_bytes \<Rightarrow> if sum_bytes > int_max then None else Some sum_bytes)"

definition u32_array_json_size :: "u32 list \<Rightarrow> nat option" where
  "u32_array_json_size vs = array_json_size 16 (map unat vs)"

definition u64_array_json_size :: "u64 list \<Rightarrow> nat option" where
  "u64_array_json_size vs = array_json_size 32 (map unat vs)"

text \<open>
  One \<open>snprintf\<close> behind what is already in a buffer of \<open>limit\<close> bytes, refused when it would be cut
  off.
\<close>

definition emit :: "nat \<Rightarrow> string \<Rightarrow> string \<Rightarrow> string option" where
  "emit limit s out = (if s = [] \<or> length s \<ge> limit - length out then None else Some (out @ s))"

fun write_array_loop :: "nat \<Rightarrow> bool \<Rightarrow> nat list \<Rightarrow> string \<Rightarrow> string option" where
  "write_array_loop limit first [] out = Some out"
| "write_array_loop limit first (v # vs) out =
     (case emit limit ((if first then [] else '','') @ dec v) out of
        None \<Rightarrow> None
      | Some out \<Rightarrow> write_array_loop limit False vs out)"

definition write_array :: "nat \<Rightarrow> nat list \<Rightarrow> string \<Rightarrow> string option" where
  "write_array limit vs out =
     do { out \<leftarrow> emit limit ''['' out;
          out \<leftarrow> write_array_loop limit True vs out;
          emit limit '']'' out }"

definition write_u32_array :: "nat \<Rightarrow> u32 list \<Rightarrow> string \<Rightarrow> string option" where
  "write_u32_array limit vs out = write_array limit (map unat vs) out"

definition write_u64_array :: "nat \<Rightarrow> u64 list \<Rightarrow> string \<Rightarrow> string option" where
  "write_u64_array limit vs out = write_array limit (map unat vs) out"

text \<open>The offsets that are printed: only with a page set, and as many as there are pages.\<close>

definition segment_offsets :: "manifest_segment_ref \<Rightarrow> u64 list option" where
  "segment_offsets r =
     (if length (sg_pages r) > 0 then map_option (take (length (sg_pages r))) (sg_frame_offsets r) else None)"

definition segment_head :: "manifest_segment_ref \<Rightarrow> string" where
  "segment_head r = ''{'' @ json_str ''key'' (sg_key r) @ '','' @ json_str ''sha256'' (sg_sha256 r) @ '','' @
     json_u64 ''size'' (unat (sg_size r))"

definition segment_literal_size :: "manifest_segment_ref \<Rightarrow> bool \<Rightarrow> nat option" where
  "segment_literal_size r with_pages =
     do { sum_bytes \<leftarrow>
            (if with_pages then
               do { pages_size \<leftarrow> u32_array_json_size (sg_pages r);
                    let sum_bytes = length (segment_head r) + length ('','' @ pattern_u64 ''pages'') + pages_size;
                    (case segment_offsets r of
                       None \<Rightarrow> Some sum_bytes
                     | Some offsets \<Rightarrow>
                         do { offsets_size \<leftarrow> u64_array_json_size offsets;
                              Some (sum_bytes + length ('','' @ pattern_u64 ''frame_offsets'') + offsets_size) }) }
             else Some (length (segment_head r)));
          if sum_bytes + 1 > int_max then None else Some (sum_bytes + 1) }"

definition segment_literal_write :: "nat \<Rightarrow> manifest_segment_ref \<Rightarrow> bool \<Rightarrow> string \<Rightarrow> string option" where
  "segment_literal_write limit r with_pages out =
     do { out \<leftarrow> emit limit (segment_head r) out;
          out \<leftarrow>
            (if with_pages then
               do { out \<leftarrow> emit limit ('','' @ pattern_u64 ''pages'') out;
                    out \<leftarrow> write_u32_array limit (sg_pages r) out;
                    (case segment_offsets r of
                       None \<Rightarrow> Some out
                     | Some offsets \<Rightarrow>
                         do { out \<leftarrow> emit limit ('','' @ pattern_u64 ''frame_offsets'') out;
                              write_u64_array limit offsets out }) }
             else Some out);
          emit limit ''}'' out }"

text \<open>The text before the list of segments, formats 3 and 4.\<close>

definition manifest_header :: "commit_manifest \<Rightarrow> string" where
  "manifest_header m =
     ''{'' @ json_u64 ''otsardb_format'' (unat (cm_format_version m)) @ '','' @
     json_str ''database_id'' (cm_database_id m) @ '','' @
     json_u64 ''generation'' (unat (cm_generation m)) @ '','' @
     json_str ''commit_id'' (cm_commit_id m) @ '','' @
     json_u64 ''parent_generation'' (unat (cm_parent_generation m)) @ '','' @
     json_str ''parent_commit_id'' (cm_parent_commit_id m) @ '','' @
     json_str ''parent_manifest_sha256'' (cm_parent_manifest_sha256 m) @ '','' @
     json_u64 ''page_size'' (unat (cm_page_size m)) @ '','' @
     json_u64 ''database_size_pages'' (unat (cm_database_size_pages m)) @ '','' @ segments_marker"

fun segments_json_size :: "bool \<Rightarrow> bool \<Rightarrow> manifest_segment_ref list \<Rightarrow> nat \<Rightarrow> nat option" where
  "segments_json_size with_pages first [] sum_bytes = Some sum_bytes"
| "segments_json_size with_pages first (r # rs) sum_bytes =
     (case segment_literal_size r with_pages of
        None \<Rightarrow> None
      | Some n \<Rightarrow> segments_json_size with_pages False rs (sum_bytes + n + (if first then 0 else 1)))"

fun write_segments :: "nat \<Rightarrow> bool \<Rightarrow> bool \<Rightarrow> manifest_segment_ref list \<Rightarrow> string \<Rightarrow> string option" where
  "write_segments limit with_pages first [] out = Some out"
| "write_segments limit with_pages first (r # rs) out =
     do { out \<leftarrow> (if first then Some out else emit limit '','' out);
          out \<leftarrow> segment_literal_write limit r with_pages out;
          write_segments limit with_pages False rs out }"

definition manifest_trailer :: "commit_manifest \<Rightarrow> string" where
  "manifest_trailer m =
     (if cm_post_apply_checksum m \<noteq> []
      then '']'' @ '','' @ json_str ''post_apply_checksum'' (cm_post_apply_checksum m) @ [CHR ''}'', CHR 0x0A]
      else [CHR '']'', CHR ''}'', CHR 0x0A])"

text \<open>The two passes for formats 3 and 4.\<close>

definition manifest_list_size :: "commit_manifest \<Rightarrow> nat option" where
  "manifest_list_size m =
     do { segments_bytes \<leftarrow> segments_json_size (cm_format_version m \<ge> 4) True (cm_segments m) 0;
          let checksum_len = (if cm_post_apply_checksum m \<noteq> []
            then length ('','' @ json_str ''post_apply_checksum'' (cm_post_apply_checksum m)) else 0);
          let sum_bytes = length (manifest_header m) + segments_bytes + checksum_len + 3;
          if sum_bytes > int_max then None else Some sum_bytes }"

definition manifest_list_write :: "nat \<Rightarrow> commit_manifest \<Rightarrow> string option" where
  "manifest_list_write needed m =
     do { out \<leftarrow> emit (needed + 1) (manifest_header m) [];
          out \<leftarrow> write_segments (needed + 1) (cm_format_version m \<ge> 4) True (cm_segments m) out;
          emit (needed + 1) (manifest_trailer m) out }"

text \<open>The flat object of formats 1 and 2.\<close>

definition manifest_flat :: "commit_manifest \<Rightarrow> string" where
  "manifest_flat m =
     (let r = hd (cm_segments m) in
      ''{'' @ json_u64 ''otsardb_format'' (unat (cm_format_version m)) @ '','' @
      json_str ''database_id'' (cm_database_id m) @ '','' @
      json_u64 ''generation'' (unat (cm_generation m)) @ '','' @
      json_str ''commit_id'' (cm_commit_id m) @ '','' @
      json_u64 ''parent_generation'' (unat (cm_parent_generation m)) @ '','' @
      json_str ''parent_commit_id'' (cm_parent_commit_id m) @ '','' @
      (if cm_format_version m = 1 then []
       else json_str ''parent_manifest_sha256'' (cm_parent_manifest_sha256 m) @ '','') @
      json_str ''segment_key'' (sg_key r) @ '','' @
      json_str ''segment_sha256'' (sg_sha256 r) @ '','' @
      json_u64 ''segment_size'' (unat (sg_size r)) @ '','' @
      json_u64 ''page_size'' (unat (cm_page_size m)) @ '','' @
      json_u64 ''database_size_pages'' (unat (cm_database_size_pages m)) @ [CHR ''}'', CHR 0x0A])"

definition manifest_valid :: "commit_manifest \<Rightarrow> bool" where
  "manifest_valid m \<longleftrightarrow>
     \<not> (\<not> format_allowed (cm_format_version m) \<or> cm_generation m = 0 \<or>
        cm_database_id m = [] \<or> cm_commit_id m = [] \<or> cm_page_size m = 0 \<or>
        \<not> manifest_parent_is_valid m \<or> \<not> manifest_segments_valid m)"

definition manifest_text :: "commit_manifest \<Rightarrow> string option" where
  "manifest_text m =
     (if cm_format_version m \<ge> 3 then
        do { needed \<leftarrow> manifest_list_size m;
             json \<leftarrow> manifest_list_write needed m;
             if length json \<le> 0 \<or> length json > needed then None else Some json }
      else if length (manifest_flat m) > int_max then None else Some (manifest_flat m))"

definition otsardb_commit_manifest_encode_json :: "(bytes \<Rightarrow> bytes) \<Rightarrow> commit_manifest \<Rightarrow> (string \<times> string) option" where
  "otsardb_commit_manifest_encode_json sha m =
     (if \<not> manifest_valid m then None
      else do { json \<leftarrow> manifest_text m;
                Some (json, otsardb_sha256_hex_data sha (bytes_of_string json)) })"

section \<open>Decoding\<close>

definition is_hex_digit :: "char \<Rightarrow> bool" where
  "is_hex_digit c \<longleftrightarrow> (let v = (of_char c :: nat) in
     (48 \<le> v \<and> v \<le> 57) \<or> (97 \<le> v \<and> v \<le> 102) \<or> (65 \<le> v \<and> v \<le> 70))"

definition checksum_field_valid :: "string \<Rightarrow> bool" where
  "checksum_field_valid s \<longleftrightarrow> s = [] \<or> length s = 16 \<and> list_all is_hex_digit s"

text \<open>The segments of the formats with a list, and the checksum that follows them.\<close>

definition decode_list_fields :: "string \<Rightarrow> u64 \<Rightarrow> u64 \<Rightarrow> (string \<times> manifest_segment_ref list \<times> string) option" where
  "decode_list_fields copy format database_size_pages =
     (if format \<ge> 3 then
        do { parent_sha \<leftarrow> manifest_extract_string copy ''parent_manifest_sha256'' (MANIFEST_SHA256_HEX_SIZE + 1) True;
             refs \<leftarrow> extract_segments copy (ucast format) database_size_pages;
             checksum \<leftarrow> manifest_extract_string copy ''post_apply_checksum'' 17 True;
             Some (parent_sha, refs, checksum) }
      else if format = 2 then
        do { parent_sha \<leftarrow> manifest_extract_string copy ''parent_manifest_sha256'' (MANIFEST_SHA256_HEX_SIZE + 1) True;
             Some (parent_sha, [], []) }
      else Some ([], [], []))"

text \<open>The flat segment of formats 1 and 2.\<close>

definition decode_flat_fields :: "string \<Rightarrow> u64 \<Rightarrow> manifest_segment_ref list \<Rightarrow> manifest_segment_ref list option" where
  "decode_flat_fields copy format refs =
     (if format = 1 \<or> format = 2 then
        do { key \<leftarrow> manifest_extract_string copy ''segment_key'' (MANIFEST_SEGMENT_KEY_MAX + 1) False;
             seg_sha \<leftarrow> manifest_extract_string copy ''segment_sha256'' (MANIFEST_SHA256_HEX_SIZE + 1) False;
             seg_size \<leftarrow> manifest_extract_u64 copy ''segment_size'';
             Some [\<lparr>sg_key = key, sg_sha256 = seg_sha, sg_size = seg_size, sg_pages = [], sg_frame_offsets = None\<rparr>] }
      else Some refs)"

definition otsardb_commit_manifest_decode_json :: "bytes \<Rightarrow> commit_manifest option" where
  "otsardb_commit_manifest_decode_json json =
     do { require (\<not> (json = [] \<or> length json = size_max));
          let copy = c_str (string_of_bytes json);
          format \<leftarrow> manifest_extract_u64 copy ''otsardb_format'';
          generation \<leftarrow> manifest_extract_u64 copy ''generation'';
          parent_generation \<leftarrow> manifest_extract_u64 copy ''parent_generation'';
          page_size \<leftarrow> manifest_extract_u64 copy ''page_size'';
          database_size_pages \<leftarrow> manifest_extract_u64 copy ''database_size_pages'';
          database_id \<leftarrow> manifest_extract_string copy ''database_id'' (MANIFEST_ID_MAX + 1) False;
          commit_id \<leftarrow> manifest_extract_string copy ''commit_id'' (MANIFEST_ID_MAX + 1) False;
          parent_commit_id \<leftarrow> manifest_extract_string copy ''parent_commit_id'' (MANIFEST_ID_MAX + 1) True;
          (parent_sha, refs, checksum) \<leftarrow> decode_list_fields copy format database_size_pages;
          require (\<not> (\<not> format_allowed (ucast format) \<or> page_size = 0 \<or> unat page_size > uint32_max \<or>
                      generation = 0));
          refs \<leftarrow> decode_flat_fields copy format refs;
          require (\<not> (refs = [] \<or> length refs > MANIFEST_MAX_SEGMENTS));
          require (list_all (\<lambda>r. \<not> (sg_key r = [] \<or> length (sg_sha256 r) \<noteq> MANIFEST_SHA256_HEX_SIZE)) refs);
          require (checksum_field_valid checksum);
          let m = \<lparr>cm_format_version = ucast format, cm_generation = generation,
                   cm_parent_generation = parent_generation, cm_page_size = ucast page_size,
                   cm_database_size_pages = database_size_pages, cm_database_id = database_id,
                   cm_commit_id = commit_id, cm_parent_commit_id = parent_commit_id,
                   cm_parent_manifest_sha256 = parent_sha, cm_segments = refs,
                   cm_post_apply_checksum = checksum\<rparr>;
          require (manifest_parent_is_valid m);
          Some m }"

section \<open>Lists of numbers\<close>

text \<open>The text of an array without its opening bracket.\<close>

fun array_tail :: "bool \<Rightarrow> nat list \<Rightarrow> string" where
  "array_tail first [] = '']''"
| "array_tail first (v # vs) = (if first then [] else '','') @ dec v @ array_tail False vs"

lemma array_json_size_loop_exact:
  "array_json_size_loop tmp first vs n = Some k \<Longrightarrow> k + 1 = n + length (array_tail first vs)"
  by (induction tmp first vs n rule: array_json_size_loop.induct) (auto split: if_splits)

lemma length_dec_le: "n < 10 ^ Suc k \<Longrightarrow> length (dec n) \<le> Suc k"
proof (induction k arbitrary: n)
  case 0
  then show ?case by (simp add: dec.simps)
next
  case (Suc k)
  have "n div 10 < 10 ^ Suc k" using Suc.prems by (simp add: less_mult_imp_div_less)
  with Suc.IH [of "n div 10"] show ?case by (subst dec.simps) auto
qed

lemma length_dec_word:
  "length (dec (unat (v :: u32))) < 16" "length (dec (unat (w :: u64))) < 32"
  using length_dec_le [of "unat v" 9] length_dec_le [of "unat w" 19] unat_u32_le [of v]
    unsigned_less [where ?'a = nat, of w]
  by (simp_all add: uint32_max_def)

lemma array_json_size_loop_total:
  "\<forall>v\<in>set vs. length (dec v) < tmp \<Longrightarrow> \<exists>k. array_json_size_loop tmp first vs n = Some k"
  by (induction tmp first vs n rule: array_json_size_loop.induct) (auto simp: not_le)

lemma array_json_size_exact:
  assumes "\<forall>v\<in>set vs. length (dec v) < tmp"
  shows "array_json_size tmp vs =
    (if 1 + length (array_tail True vs) > int_max then None else Some (1 + length (array_tail True vs)))"
proof -
  obtain k where k: "array_json_size_loop tmp True vs 2 = Some k"
    using array_json_size_loop_total [OF assms] by blast
  have "k = 1 + length (array_tail True vs)" using array_json_size_loop_exact [OF k] by simp
  with k show ?thesis by (simp add: array_json_size_def)
qed

lemma emit_ok: "s \<noteq> [] \<Longrightarrow> length out + length s < limit \<Longrightarrow> emit limit s out = Some (out @ s)"
  by (simp add: emit_def)

lemma write_array_loop_ok:
  "length out + length (array_tail first vs) < limit \<Longrightarrow>
   \<exists>ys. write_array_loop limit first vs out = Some (out @ ys) \<and> array_tail first vs = ys @ '']''"
proof (induction limit first vs out rule: write_array_loop.induct)
  case (2 limit first v vs out)
  let ?s = "(if first then [] else '','') @ dec v"
  have e: "emit limit ?s out = Some (out @ ?s)" using 2 by (intro emit_ok) auto
  from 2 obtain ys where "write_array_loop limit False vs (out @ ?s) = Some ((out @ ?s) @ ys)"
    "array_tail False vs = ys @ '']''" using e by fastforce
  then show ?case using e by simp
qed simp

lemma write_array_ok:
  assumes "length out + 1 + length (array_tail True vs) < limit"
  shows "write_array limit vs out = Some (out @ ''['' @ array_tail True vs)"
proof -
  obtain ys where "write_array_loop limit True vs (out @ ''['') = Some ((out @ ''['') @ ys)"
    "array_tail True vs = ys @ '']''"
    using write_array_loop_ok [of "out @ ''[''" True vs limit] assms by fastforce
  then show ?thesis using assms by (simp add: write_array_def emit_ok)
qed

lemma array_tail_False: "array_tail False vs = (if vs = [] then '']'' else CHR '','' # array_tail True vs)"
  by (cases vs) simp_all

lemma strict_strtoull_dec:
  assumes "v \<le> size_max" "rest = [] \<or> \<not> isdigit (hd rest)"
  shows "strict_strtoull (dec v @ rest) = Some (of_nat v, rest)"
proof -
  obtain c r where c: "dec v = c # r" by (cases "dec v") auto
  then have "c \<noteq> CHR ''-''" using dec_digits [of v] isdigit_not by auto
  then show ?thesis using strtoull_dec [OF assms] c by (simp add: strict_strtoull_def)
qed

lemma hd_dec: "c \<in> {CHR '']'', CHR '','', CHR ''-''} \<Longrightarrow> hd (dec v @ rest) \<noteq> c"
  using dec_digits [of v] by (cases "dec v") (auto simp: isdigit_def)

lemma parse_u64_loop_array:
  "\<forall>v\<in>set vs. v \<le> size_max \<Longrightarrow> length vals + length vs \<le> MANIFEST_MAX_LIST_ENTRIES \<Longrightarrow>
   parse_u64_loop capacity vals (array_tail True vs @ rest) = Some (vals @ map of_nat vs, rest)"
proof (induction vs arbitrary: capacity vals)
  case Nil
  then show ?case by (simp add: parse_u64_loop.simps skip_blanks_def)
next
  case (Cons v vs)
  let ?t = "array_tail False vs @ rest"
  have sk: "skip_blanks ?t = ?t" by (simp add: array_tail_False skip_blanks_def)
  have num: "strict_strtoull (dec v @ ?t) = Some (of_nat v, ?t)"
    using Cons.prems by (intro strict_strtoull_dec) (auto simp: array_tail_False)
  have h: "hd (dec v @ ?t) \<noteq> CHR '']''" by (rule hd_dec) simp
  show ?case
  proof (cases "vs = []")
    case True
    then show ?thesis
      using Cons.prems h num sk
      by (subst parse_u64_loop.simps) (simp add: skip_blanks_dec Let_def)
  next
    case False
    then show ?thesis
      using Cons.prems h num sk Cons.IH
      by (subst parse_u64_loop.simps) (simp add: skip_blanks_dec Let_def array_tail_False)
  qed
qed

lemma parse_u64_loop_bound:
  "parse_u64_loop capacity vals p = Some (vs, rest) \<Longrightarrow>
   length vals \<le> capacity \<Longrightarrow> capacity \<le> MANIFEST_MAX_LIST_ENTRIES \<Longrightarrow> length vs \<le> MANIFEST_MAX_LIST_ENTRIES"
proof (induction capacity vals p rule: parse_u64_loop.induct)
  case (1 capacity vals p)
  have cap: "list_next_capacity c \<le> MANIFEST_MAX_LIST_ENTRIES"
    "c < MANIFEST_MAX_LIST_ENTRIES \<Longrightarrow> c < list_next_capacity c" for c
    by (auto simp: list_next_capacity_def MANIFEST_MAX_LIST_ENTRIES_def)
  show ?case
    using 1(2-4) 1(1) cap [of capacity]
    by (subst (asm) (1) parse_u64_loop.simps) (fastforce simp: Let_def split: if_splits option.splits)
qed

section \<open>The encoder\<close>

definition array_text :: "nat list \<Rightarrow> string" where
  "array_text vs = ''['' @ array_tail True vs"

definition segment_text :: "bool \<Rightarrow> manifest_segment_ref \<Rightarrow> string" where
  "segment_text with_pages r = segment_head r @
     (if with_pages then
        '','' @ pattern_u64 ''pages'' @ array_text (map unat (sg_pages r)) @
        (case segment_offsets r of None \<Rightarrow> []
         | Some xs \<Rightarrow> '','' @ pattern_u64 ''frame_offsets'' @ array_text (map unat xs))
      else []) @ ''}''"

fun segments_text :: "bool \<Rightarrow> bool \<Rightarrow> manifest_segment_ref list \<Rightarrow> string" where
  "segments_text with_pages first [] = []"
| "segments_text with_pages first (r # rs) =
     (if first then [] else '','') @ segment_text with_pages r @ segments_text with_pages False rs"

lemma array_sizes:
  "u32_array_json_size ps = (if length (array_text (map unat ps)) > int_max then None
     else Some (length (array_text (map unat ps))))"
  "u64_array_json_size xs = (if length (array_text (map unat xs)) > int_max then None
     else Some (length (array_text (map unat xs))))"
  using array_json_size_exact [of "map unat ps" 16] array_json_size_exact [of "map unat xs" 32] length_dec_word
  by (simp_all add: u32_array_json_size_def u64_array_json_size_def array_text_def)

lemma segment_literal_size_exact:
  "segment_literal_size r with_pages =
    (if length (segment_text with_pages r) > int_max then None else Some (length (segment_text with_pages r)))"
  by (auto simp: segment_literal_size_def segment_text_def array_sizes Let_def split: option.splits)

lemma array_writes:
  "length out + length (array_text (map unat ps)) < limit \<Longrightarrow>
     write_u32_array limit ps out = Some (out @ array_text (map unat ps))"
  "length out + length (array_text (map unat xs)) < limit \<Longrightarrow>
     write_u64_array limit xs out = Some (out @ array_text (map unat xs))"
  using write_array_ok [of out "map unat ps" limit] write_array_ok [of out "map unat xs" limit]
  by (simp_all add: write_u32_array_def write_u64_array_def array_text_def)

lemma segment_literal_write_ok:
  "length out + length (segment_text with_pages r) < limit \<Longrightarrow>
   segment_literal_write limit r with_pages out = Some (out @ segment_text with_pages r)"
  by (auto simp: segment_literal_write_def segment_text_def emit_ok array_writes segment_head_def split: option.splits)

lemma segments_json_size_exact:
  "segments_json_size with_pages first rs n =
    (if \<exists>r\<in>set rs. length (segment_text with_pages r) > int_max then None
     else Some (n + length (segments_text with_pages first rs)))"
  by (induction with_pages first rs n rule: segments_json_size.induct)
    (auto simp: segment_literal_size_exact)

lemma write_segments_ok:
  "length out + length (segments_text with_pages first rs) < limit \<Longrightarrow>
   write_segments limit with_pages first rs out = Some (out @ segments_text with_pages first rs)"
  by (induction limit with_pages first rs out rule: write_segments.induct)
    (auto simp: segment_literal_write_ok emit_ok)

lemma segments_text_le: "r \<in> set rs \<Longrightarrow> length (segment_text with_pages r) \<le> length (segments_text with_pages first rs)"
  by (induction with_pages first rs rule: segments_text.induct) (auto intro: trans_le_add2 le_trans)

definition manifest_list_text :: "commit_manifest \<Rightarrow> string" where
  "manifest_list_text m = manifest_header m @ segments_text (cm_format_version m \<ge> 4) True (cm_segments m) @
     manifest_trailer m"

definition manifest_document :: "commit_manifest \<Rightarrow> string" where
  "manifest_document m = (if cm_format_version m \<ge> 3 then manifest_list_text m else manifest_flat m)"

lemma manifest_list_size_exact:
  "manifest_list_size m =
    (if length (manifest_list_text m) > int_max then None else Some (length (manifest_list_text m)))"
proof -
  let ?wp = "cm_format_version m \<ge> 4"
  have len: "length (manifest_list_text m) = length (manifest_header m) +
      length (segments_text ?wp True (cm_segments m)) + length (manifest_trailer m)"
    by (simp add: manifest_list_text_def)
  show ?thesis
  proof (cases "\<exists>r\<in>set (cm_segments m). length (segment_text ?wp r) > int_max")
    case True
    then have "length (manifest_list_text m) > int_max"
      using segments_text_le [of _ "cm_segments m" ?wp True] len by fastforce
    with True show ?thesis by (simp add: manifest_list_size_def segments_json_size_exact)
  next
    case False
    then show ?thesis
      by (simp add: manifest_list_size_def segments_json_size_exact len manifest_trailer_def Let_def)
  qed
qed

lemma manifest_list_write_ok:
  "manifest_list_write (length (manifest_list_text m)) m = Some (manifest_list_text m)"
proof -
  have "manifest_header m \<noteq> []" "manifest_trailer m \<noteq> []" by (simp_all add: manifest_header_def manifest_trailer_def)
  then show ?thesis
    by (simp add: manifest_list_write_def manifest_list_text_def emit_ok write_segments_ok)
qed

lemma manifest_text_exact:
  "manifest_text m = (if length (manifest_document m) > int_max then None else Some (manifest_document m))"
proof -
  have "manifest_list_text m \<noteq> []" by (simp add: manifest_list_text_def manifest_header_def)
  then show ?thesis
    by (simp add: manifest_text_def manifest_document_def manifest_list_size_exact manifest_list_write_ok)
qed

section \<open>Reading back a printed manifest\<close>

definition segment_ref_wf :: "manifest_segment_ref \<Rightarrow> bool" where
  "segment_ref_wf r \<longleftrightarrow> plain_string (sg_key r) \<and> length (sg_key r) \<le> MANIFEST_SEGMENT_KEY_MAX \<and>
     plain_string (sg_sha256 r) \<and> length (sg_pages r) \<le> MANIFEST_MAX_LIST_ENTRIES \<and>
     (case sg_frame_offsets r of None \<Rightarrow> True | Some xs \<Rightarrow> length xs = length (sg_pages r))"

text \<open>What a format keeps of a segment.\<close>

definition segment_ref_stored :: "u32 \<Rightarrow> manifest_segment_ref \<Rightarrow> manifest_segment_ref" where
  "segment_ref_stored format r = (if format \<ge> 4 then r else r\<lparr>sg_pages := [], sg_frame_offsets := None\<rparr>)"

lemma until_quote_hit: "quote \<notin> set v \<Longrightarrow> until_quote (v @ quote # rest) = Some (v, rest)"
  by (simp add: until_quote_def strchr_hit)

lemma skip_marker_hit: "skip_marker m (m @ rest) = Some rest"
  by (simp add: skip_marker_def)

lemma segment_head_markers:
  "segment_head r @ rest = CHR ''{'' # segment_head_marker @ sg_key r @ quote # segment_sha_marker @
     sg_sha256 r @ quote # segment_size_marker @ dec (unat (sg_size r)) @ rest"
  by (simp add: segment_head_def segment_head_marker_def segment_sha_marker_def segment_size_marker_def
      json_str_def json_u64_def pattern_defs)

lemma skip_blanks_cons: "c \<noteq> CHR '' '' \<Longrightarrow> c \<noteq> CHR 0x09 \<Longrightarrow> skip_blanks (c # p) = c # p"
  by (simp add: skip_blanks_def)

lemma parse_u64_list_text:
  "length vs \<le> MANIFEST_MAX_LIST_ENTRIES \<Longrightarrow>
   parse_u64_list (array_tail True (map unat (vs :: u64 list)) @ rest) = Some (vs, rest)"
  using parse_u64_loop_array [of "map unat vs" "[]" 0 rest] unat_u64_le
  by (simp add: parse_u64_list_def comp_def)

lemma parse_u32_list_text:
  assumes "length ps \<le> MANIFEST_MAX_LIST_ENTRIES"
  shows "parse_u32_list (array_tail True (map unat (ps :: u32 list)) @ rest) = Some (ps, rest)"
proof -
  have "parse_u64_list (array_tail True (map unat ps) @ rest) = Some (map ucast ps, rest)"
    using parse_u64_list_text [of "map ucast ps" rest] assms by (simp add: comp_def unat_widen)
  then show ?thesis
    by (simp add: parse_u32_list_def list_all_iff comp_def narrow_widen unat_widen unat_u32_le)
qed

lemma skip_offsets_marker_end: "skip_marker segment_offsets_marker (CHR ''}'' # rest) = None"
  by (simp add: skip_marker_def segment_offsets_marker_def)

lemma parse_segment_pages_text:
  assumes "segment_ref_wf r" "manifest_segment_valid format n r" "format \<ge> 4"
  shows "parse_segment_pages n (sg_size r)
     ('','' @ pattern_u64 ''pages'' @ array_text (map unat (sg_pages r)) @
      (case segment_offsets r of None \<Rightarrow> []
       | Some xs \<Rightarrow> '','' @ pattern_u64 ''frame_offsets'' @ array_text (map unat xs)) @ CHR ''}'' # rest) =
   Some (sg_pages r, sg_frame_offsets r, CHR ''}'' # rest)"
proof -
  have len: "length (sg_pages r) \<le> uint32_max" and max: "length (sg_pages r) \<le> MANIFEST_MAX_LIST_ENTRIES"
    using assms(1) by (auto simp: segment_ref_wf_def MANIFEST_MAX_LIST_ENTRIES_def uint32_max_def)
  have pv: "pages_list_valid (sg_pages r) n"
    using assms(2,3) by (auto simp: manifest_segment_valid_def pages_list_valid_def split: if_splits)
  have skip: "skip_marker segment_pages_marker (CHR '','' # pattern_u64 ''pages'' @ CHR ''['' # t) = Some t"
    "skip_marker segment_offsets_marker (CHR '','' # pattern_u64 ''frame_offsets'' @ CHR ''['' # t) = Some t" for t
    using skip_marker_hit [of segment_pages_marker t] skip_marker_hit [of segment_offsets_marker t]
    by (simp_all add: segment_pages_marker_def segment_offsets_marker_def)
  have same: "segment_offsets r = sg_frame_offsets r"
    using assms by (auto simp: segment_offsets_def manifest_segment_valid_def segment_ref_wf_def
        split: if_splits option.splits)
  show ?thesis
  proof (cases "sg_frame_offsets r")
    case None
    then show ?thesis
      using len max pv same
      by (simp add: parse_segment_pages_def array_text_def skip
          parse_u32_list_text require_def parse_segment_offsets_def skip_offsets_marker_end)
  next
    case (Some xs)
    then have x: "sg_pages r \<noteq> []" "length xs = length (sg_pages r)" "frame_offsets_valid xs (sg_size r)"
      using assms by (auto simp: manifest_segment_valid_def segment_ref_wf_def split: if_splits)
    then have "xs \<noteq> []" by auto
    then show ?thesis
      using Some x len max pv same
      by (simp add: parse_segment_pages_def array_text_def skip
          parse_u32_list_text parse_u64_list_text require_def parse_segment_offsets_def)
  qed
qed

lemma parse_segment_text:
  assumes wf: "segment_ref_wf r" and valid: "manifest_segment_valid format n r"
  shows "parse_segment format n (segment_text (format \<ge> 4) r @ rest) = Some (segment_ref_stored format r, rest)"
proof -
  have key: "quote \<notin> set (sg_key r)" "sg_key r \<noteq> []" "length (sg_key r) \<le> MANIFEST_SEGMENT_KEY_MAX"
    and sha: "quote \<notin> set (sg_sha256 r)" "length (sg_sha256 r) = MANIFEST_SHA256_HEX_SIZE"
    using assms by (auto simp: segment_ref_wf_def plain_string_def manifest_segment_valid_def split: if_splits)
  have num: "strict_strtoull (skip_blanks (dec (unat (sg_size r)) @ c # t)) = Some (sg_size r, c # t)"
    if "\<not> isdigit c" for c t
    using that unat_u64_le [of "sg_size r"] by (simp add: skip_blanks_dec strict_strtoull_dec)
  note steps = parse_segment_def parse_segment_tail_def segment_text_def segment_head_markers next_char_def skip_blanks_cons
    skip_marker_hit until_quote_hit require_def
  show ?thesis
  proof (cases "format \<ge> 4")
    case True
    then show ?thesis
      using key sha parse_segment_pages_text [OF wf valid True, of rest]
      by (simp add: steps num segment_ref_stored_def)
  next
    case False
    then show ?thesis
      using key sha by (simp add: steps num segment_ref_stored_def)
  qed
qed

lemma segments_text_False:
  "segments_text wp False rs = (if rs = [] then [] else CHR '','' # segments_text wp True rs)"
  by (cases rs) simp_all

lemma parse_segments_loop_text:
  assumes "\<forall>r\<in>set rs. segment_ref_wf r \<and> manifest_segment_valid format n r" "rs \<noteq> []" "length rs \<le> room"
  shows "parse_segments_loop room format n refs (segments_text (format \<ge> 4) True rs @ CHR '']'' # rest) =
    Some (refs @ map (segment_ref_stored format) rs, CHR '']'' # rest)"
  using assms
proof (induction rs arbitrary: room refs)
  case (Cons r rs)
  then obtain room' where room: "room = Suc room'" by (cases room) auto
  show ?case
  proof (cases "rs = []")
    case True
    then show ?thesis using Cons.prems room by (simp add: parse_segment_text skip_blanks_def)
  next
    case False
    then show ?thesis
      using Cons room by (simp add: parse_segment_text segments_text_False skip_blanks_def)
  qed
qed simp

text \<open>Searching past the header and past the list of segments.\<close>

lemma strstr_skip_key:
  assumes "json_name n" "quote \<notin> set k" "k \<noteq> n"
  shows "strstr (pattern_u64 k @ rest) (quote # n @ quote # CHR '':'' # x) = strstr rest (quote # n @ quote # CHR '':'' # x)"
proof -
  have "\<not> prefix (quote # n @ quote # CHR '':'' # x) (quote # k @ quote # CHR '':'' # rest)"
    using assms prefix_quoted [of n k] by (auto simp: json_name_def)
  then have "strstr (pattern_u64 k @ rest) (quote # n @ quote # CHR '':'' # x) =
      strstr (k @ quote # CHR '':'' # rest) (quote # n @ quote # CHR '':'' # x)"
    by (simp add: pattern_u64_def strstr.simps)
  also have "\<dots> = strstr (quote # CHR '':'' # rest) (quote # n @ quote # CHR '':'' # x)"
    using assms(2) by (rule strstr_skip_noquote)
  also have "\<dots> = strstr rest (quote # n @ quote # CHR '':'' # x)"
    using assms(1) by (rule strstr_skip_quote) simp
  finally show ?thesis .
qed

lemma pattern_str_cons: "pattern_str n = quote # n @ quote # CHR '':'' # [quote]"
  by (simp add: pattern_str_def)

lemma array_tail_chars: "c \<in> set (array_tail first vs) \<Longrightarrow> isdigit c \<or> c \<in> {CHR '','', CHR '']''}"
  using dec_digits by (induction first vs rule: array_tail.induct) (auto split: if_splits)

lemma array_text_chars: "quote \<notin> set (array_text vs)" "CHR 0x00 \<notin> set (array_text vs)"
  using array_tail_chars by (fastforce simp: array_text_def isdigit_def)+

lemma strstr_skip_segment:
  assumes "segment_ref_wf r" "json_name n" "n \<notin> {''key'', ''sha256'', ''size'', ''pages'', ''frame_offsets''}"
  shows "strstr (segment_text wp r @ rest) (quote # n @ quote # CHR '':'' # x) = strstr rest (quote # n @ quote # CHR '':'' # x)"
proof -
  have "quote \<notin> set (sg_key r)" "quote \<notin> set (sg_sha256 r)"
    using assms(1) by (auto simp: segment_ref_wf_def plain_string_def)
  moreover have "k \<noteq> n" if "k \<in> {''key'', ''sha256'', ''size'', ''pages'', ''frame_offsets''}" for k
    using assms(3) that by blast
  ultimately show ?thesis
    using assms(2) array_text_chars(1)
    by (cases "segment_offsets r") (simp_all add: segment_text_def segment_head_def strstr_skip_char strstr_skip_noquote
        strstr_skip_u64 strstr_skip_str strstr_skip_key)
qed

lemma strstr_skip_segments:
  assumes "\<forall>r\<in>set rs. segment_ref_wf r" "json_name n"
    "n \<notin> {''key'', ''sha256'', ''size'', ''pages'', ''frame_offsets''}"
  shows "strstr (segments_text wp first rs @ rest) (quote # n @ quote # CHR '':'' # x) =
    strstr rest (quote # n @ quote # CHR '':'' # x)"
  using assms(1)
  by (induction wp first rs rule: segments_text.induct) (simp_all add: strstr_skip_segment [OF _ assms(2,3)] strstr_skip_char)

lemma strstr_skip_segments_str [json]:
  assumes "\<forall>r\<in>set rs. segment_ref_wf r" "json_name n"
    "n \<notin> {''key'', ''sha256'', ''size'', ''pages'', ''frame_offsets''}"
  shows "strstr (segments_text wp first rs @ rest) (pattern_str n) = strstr rest (pattern_str n)"
  unfolding pattern_str_cons by (rule strstr_skip_segments [OF assms])

definition manifest_wf :: "commit_manifest \<Rightarrow> bool" where
  "manifest_wf m \<longleftrightarrow>
     plain_string (cm_database_id m) \<and> length (cm_database_id m) \<le> MANIFEST_ID_MAX \<and>
     plain_string (cm_commit_id m) \<and> length (cm_commit_id m) \<le> MANIFEST_ID_MAX \<and>
     plain_string (cm_parent_commit_id m) \<and> length (cm_parent_commit_id m) \<le> MANIFEST_ID_MAX \<and>
     plain_string (cm_parent_manifest_sha256 m) \<and> length (cm_parent_manifest_sha256 m) \<le> MANIFEST_SHA256_HEX_SIZE \<and>
     list_all segment_ref_wf (cm_segments m) \<and> checksum_field_valid (cm_post_apply_checksum m)"

text \<open>What the formats keep of a manifest: formats 1 and 2 the first segment only.\<close>

definition manifest_stored :: "commit_manifest \<Rightarrow> commit_manifest" where
  "manifest_stored m =
     (let f = cm_format_version m; refs = map (segment_ref_stored f) (cm_segments m) in
      if f \<ge> 3 then m\<lparr>cm_segments := refs\<rparr>
      else m\<lparr>cm_segments := [hd refs], cm_post_apply_checksum := [],
             cm_parent_manifest_sha256 := (if f = 1 then [] else cm_parent_manifest_sha256 m)\<rparr>)"

lemma manifest_stored_v4: "cm_format_version m \<ge> 4 \<Longrightarrow> manifest_stored m = m"
proof -
  assume "cm_format_version m \<ge> 4"
  moreover from this have "segment_ref_stored (cm_format_version m) = (\<lambda>r. r)" "cm_format_version m \<ge> 3"
    by (auto simp: segment_ref_stored_def fun_eq_iff word_le_nat_alt)
  ultimately show ?thesis by (simp add: manifest_stored_def Let_def)
qed

lemma checksum_field_plain: "checksum_field_valid s \<Longrightarrow> plain_string s \<and> length s \<le> 16"
  by (auto simp: checksum_field_valid_def plain_string_def list_all_iff is_hex_digit_def Let_def)

lemma segment_text_no_nul: "segment_ref_wf r \<Longrightarrow> CHR 0x00 \<notin> set (segment_text wp r)"
  using dec_no_nul
  by (auto simp: segment_text_def segment_head_def json_str_def json_u64_def pattern_defs segment_ref_wf_def
      plain_string_def array_text_chars split: option.splits)

lemma segments_text_no_nul: "\<forall>r\<in>set rs. segment_ref_wf r \<Longrightarrow> CHR 0x00 \<notin> set (segments_text wp first rs)"
  by (induction wp first rs rule: segments_text.induct) (auto simp: segment_text_no_nul)

text \<open>Both documents start with the common fields; the rest is what differs.\<close>

definition common_fields :: "commit_manifest \<Rightarrow> string" where
  "common_fields m =
     ''{'' @ json_u64 ''otsardb_format'' (unat (cm_format_version m)) @ '','' @
     json_str ''database_id'' (cm_database_id m) @ '','' @
     json_u64 ''generation'' (unat (cm_generation m)) @ '','' @
     json_str ''commit_id'' (cm_commit_id m) @ '','' @
     json_u64 ''parent_generation'' (unat (cm_parent_generation m)) @ '','' @
     json_str ''parent_commit_id'' (cm_parent_commit_id m) @ '',''"

lemma strict_found [json]:
  "v \<le> size_max \<Longrightarrow> \<not> isdigit c \<Longrightarrow> strict_strtoull (skip_blanks (dec v @ c # rest)) = Some (of_nat v, c # rest)"
  by (simp add: skip_blanks_dec strict_strtoull_dec)

lemma unat_u32_size: "unat (v :: u32) \<le> size_max"
  using unat_u32_le [of v] by (simp add: uint32_max_def size_max_def)

lemmas manifest_search = manifest_extract_u64_def manifest_extract_string_def json json_name_def Let_def
  unat_u64_le unat_u32_size

lemma common_fields_found:
  assumes "manifest_wf m" "manifest_valid m"
  shows "manifest_extract_u64 (common_fields m @ rest) ''otsardb_format'' = Some (ucast (cm_format_version m))"
    and "manifest_extract_u64 (common_fields m @ rest) ''generation'' = Some (cm_generation m)"
    and "manifest_extract_u64 (common_fields m @ rest) ''parent_generation'' = Some (cm_parent_generation m)"
    and "manifest_extract_string (common_fields m @ rest) ''database_id'' (MANIFEST_ID_MAX + 1) False = Some (cm_database_id m)"
    and "manifest_extract_string (common_fields m @ rest) ''commit_id'' (MANIFEST_ID_MAX + 1) False = Some (cm_commit_id m)"
    and "manifest_extract_string (common_fields m @ rest) ''parent_commit_id'' (MANIFEST_ID_MAX + 1) True =
      Some (cm_parent_commit_id m)"
  using assms
  by (simp_all add: manifest_search common_fields_def manifest_wf_def manifest_valid_def plain_string_def)

lemma common_fields_skip:
  assumes "manifest_wf m" "json_name n"
    "n \<notin> {''otsardb_format'', ''database_id'', ''generation'', ''commit_id'', ''parent_generation'', ''parent_commit_id''}"
  shows "strstr (common_fields m @ rest) (pattern_u64 n) = strstr rest (pattern_u64 n)"
    and "strstr (common_fields m @ rest) (pattern_str n) = strstr rest (pattern_str n)"
proof -
  have "k \<noteq> n" if "k \<in> {''otsardb_format'', ''database_id'', ''generation'', ''commit_id'', ''parent_generation'',
    ''parent_commit_id''}" for k
    using assms(3) that by blast
  with assms(1,2) show
    "strstr (common_fields m @ rest) (pattern_u64 n) = strstr rest (pattern_u64 n)"
    "strstr (common_fields m @ rest) (pattern_str n) = strstr rest (pattern_str n)"
    by (simp_all add: common_fields_def json manifest_wf_def plain_string_def)
qed

text \<open>
  What follows the common fields with a list of segments.  Publishers of encrypted segments add a field
  behind the ones printed here, so the facts allow for further text \<open>ext\<close> before the closing brace.
\<close>

definition manifest_trailer_open :: "commit_manifest \<Rightarrow> string" where
  "manifest_trailer_open m =
     '']'' @ (if cm_post_apply_checksum m \<noteq> [] then '','' @ json_str ''post_apply_checksum'' (cm_post_apply_checksum m) else [])"

definition list_fields :: "commit_manifest \<Rightarrow> string \<Rightarrow> string" where
  "list_fields m ext =
     json_str ''parent_manifest_sha256'' (cm_parent_manifest_sha256 m) @ '','' @
     json_u64 ''page_size'' (unat (cm_page_size m)) @ '','' @
     json_u64 ''database_size_pages'' (unat (cm_database_size_pages m)) @ '','' @ segments_marker @
     segments_text (cm_format_version m \<ge> 4) True (cm_segments m) @ manifest_trailer_open m @ ext @ [CHR ''}'', CHR 0x0A]"

definition manifest_extended :: "commit_manifest \<Rightarrow> string \<Rightarrow> string" where
  "manifest_extended m ext = common_fields m @ list_fields m ext"

definition extension_ok :: "string \<Rightarrow> bool" where
  "extension_ok ext \<longleftrightarrow> CHR 0x00 \<notin> set ext \<and> (ext = [] \<or> hd ext = CHR '','') \<and>
     strstr (ext @ [CHR ''}'', CHR 0x0A]) (pattern_str ''post_apply_checksum'') = None"

lemma extension_ok_Nil: "extension_ok []"
  by (simp add: extension_ok_def pattern_defs strstr.simps)

lemma manifest_list_extended: "manifest_list_text m = manifest_extended m []"
  by (simp add: manifest_list_text_def manifest_header_def common_fields_def list_fields_def manifest_extended_def
      manifest_trailer_def manifest_trailer_open_def)

lemma list_fields_found:
  assumes "manifest_wf m" "manifest_valid m" "extension_ok ext"
  shows "manifest_extract_u64 (manifest_extended m ext) ''page_size'' = Some (ucast (cm_page_size m))"
    and "manifest_extract_u64 (manifest_extended m ext) ''database_size_pages'' = Some (cm_database_size_pages m)"
    and "manifest_extract_string (manifest_extended m ext) ''parent_manifest_sha256'' (MANIFEST_SHA256_HEX_SIZE + 1) True =
      Some (cm_parent_manifest_sha256 m)"
    and "manifest_extract_string (manifest_extended m ext) ''post_apply_checksum'' 17 True = Some (cm_post_apply_checksum m)"
proof -
  note wf = assms(1) [unfolded manifest_wf_def plain_string_def list_all_iff]
  show "manifest_extract_u64 (manifest_extended m ext) ''page_size'' = Some (ucast (cm_page_size m))"
    "manifest_extract_u64 (manifest_extended m ext) ''database_size_pages'' = Some (cm_database_size_pages m)"
    "manifest_extract_string (manifest_extended m ext) ''parent_manifest_sha256'' (MANIFEST_SHA256_HEX_SIZE + 1) True =
      Some (cm_parent_manifest_sha256 m)"
    using wf common_fields_skip [OF assms(1)]
    by (simp_all add: manifest_extended_def list_fields_def manifest_search)
  have "strstr (segments_marker @ t) (pattern_str ''post_apply_checksum'') = strstr t (pattern_str ''post_apply_checksum'')" for t
    unfolding pattern_str_cons segments_marker_def
    by (simp only: append.assoc, subst strstr_skip_key) (simp_all add: json_name_def strstr_skip_char)
  then have skip: "strstr (manifest_extended m ext) (pattern_str ''post_apply_checksum'') =
      strstr (manifest_trailer_open m @ ext @ [CHR ''}'', CHR 0x0A]) (pattern_str ''post_apply_checksum'')"
    using wf common_fields_skip [OF assms(1)] by (simp add: manifest_extended_def list_fields_def manifest_search)
  show "manifest_extract_string (manifest_extended m ext) ''post_apply_checksum'' 17 True = Some (cm_post_apply_checksum m)"
  proof (cases "cm_post_apply_checksum m = []")
    case True
    then have "strstr (manifest_extended m ext) (pattern_str ''post_apply_checksum'') = None"
      using assms(3) unfolding skip by (simp add: manifest_trailer_open_def extension_ok_def strstr_skip_char [of "CHR '']''"] pattern_defs)
    with True show ?thesis by (simp add: manifest_extract_string_def pattern_defs)
  next
    case False
    then show ?thesis
      using skip checksum_field_plain [of "cm_post_apply_checksum m"] wf
      by (simp add: manifest_search manifest_trailer_open_def plain_string_def)
  qed
qed

lemma extract_segments_found:
  assumes "manifest_wf m" "manifest_valid m"
  shows "extract_segments (manifest_extended m ext) (cm_format_version m) (cm_database_size_pages m) =
    Some (map (segment_ref_stored (cm_format_version m)) (cm_segments m))"
proof -
  let ?t = "manifest_trailer_open m @ ext @ [CHR ''}'', CHR 0x0A]"
  let ?s = "segments_marker @ segments_text (cm_format_version m \<ge> 4) True (cm_segments m) @ ?t"
  note wf = assms(1) [unfolded manifest_wf_def plain_string_def list_all_iff]
  have n: "json_name ''segments''" by (simp add: json_name_def)
  have p: "segments_marker = quote # ''segments'' @ quote # CHR '':'' # ''[''"
    by (simp add: segments_marker_def pattern_u64_def)
  note skip = strstr_skip_u64 [OF n] strstr_skip_str [OF n] strstr_skip_char
  have "strstr (manifest_extended m ext) segments_marker = strstr ?s (quote # ''segments'' @ quote # CHR '':'' # ''['')"
    unfolding p using wf
    by (simp add: manifest_extended_def common_fields_def list_fields_def skip [simplified] p [simplified])
  also have "\<dots> = Some ?s" unfolding p by (rule strstr_hit)
  finally have found: "strstr (manifest_extended m ext) segments_marker = Some ?s" .
  obtain t where t: "?t = CHR '']'' # t" by (simp add: manifest_trailer_open_def)
  have "parse_segments_loop MANIFEST_MAX_SEGMENTS (cm_format_version m) (cm_database_size_pages m) []
      (segments_text (cm_format_version m \<ge> 4) True (cm_segments m) @ ?t) =
    Some ([] @ map (segment_ref_stored (cm_format_version m)) (cm_segments m), CHR '']'' # t)"
    unfolding t using assms wf
    by (intro parse_segments_loop_text)
      (auto simp: manifest_valid_def manifest_segments_valid_def list_all_iff split: if_splits)
  with found show ?thesis
    using assms(2) by (auto simp: extract_segments_def after_pattern_def require_def manifest_valid_def
        manifest_segments_valid_def split: if_splits)
qed

text \<open>What follows the common fields in the flat formats.\<close>

definition flat_fields :: "commit_manifest \<Rightarrow> string" where
  "flat_fields m =
     (let r = hd (cm_segments m) in
      (if cm_format_version m = 1 then []
       else json_str ''parent_manifest_sha256'' (cm_parent_manifest_sha256 m) @ '','') @
      json_str ''segment_key'' (sg_key r) @ '','' @
      json_str ''segment_sha256'' (sg_sha256 r) @ '','' @
      json_u64 ''segment_size'' (unat (sg_size r)) @ '','' @
      json_u64 ''page_size'' (unat (cm_page_size m)) @ '','' @
      json_u64 ''database_size_pages'' (unat (cm_database_size_pages m)) @ [CHR ''}'', CHR 0x0A])"

lemma manifest_flat_fields: "manifest_flat m = common_fields m @ flat_fields m"
  by (simp add: manifest_flat_def common_fields_def flat_fields_def Let_def)

lemma flat_fields_found:
  assumes wf: "manifest_wf m" and valid: "manifest_valid m"
  defines "r \<equiv> hd (cm_segments m)"
  shows "manifest_extract_u64 (manifest_flat m) ''page_size'' = Some (ucast (cm_page_size m))"
    and "manifest_extract_u64 (manifest_flat m) ''database_size_pages'' = Some (cm_database_size_pages m)"
    and "cm_format_version m \<noteq> 1 \<Longrightarrow>
      manifest_extract_string (manifest_flat m) ''parent_manifest_sha256'' (MANIFEST_SHA256_HEX_SIZE + 1) True =
        Some (cm_parent_manifest_sha256 m)"
    and "manifest_extract_string (manifest_flat m) ''segment_key'' (MANIFEST_SEGMENT_KEY_MAX + 1) False = Some (sg_key r)"
    and "manifest_extract_string (manifest_flat m) ''segment_sha256'' (MANIFEST_SHA256_HEX_SIZE + 1) False = Some (sg_sha256 r)"
    and "manifest_extract_u64 (manifest_flat m) ''segment_size'' = Some (sg_size r)"
proof -
  have "r \<in> set (cm_segments m)" using valid 
    by (auto simp: r_def manifest_valid_def manifest_segments_valid_def split: if_splits)
  then have r: "segment_ref_wf r" "sg_key r \<noteq> []" "length (sg_sha256 r) = MANIFEST_SHA256_HEX_SIZE"
    using wf valid
    by (auto simp: manifest_wf_def manifest_valid_def manifest_segments_valid_def manifest_segment_valid_def list_all_iff
        split: if_splits)
  then have plain: "quote \<notin> set (sg_key r)" "quote \<notin> set (sg_sha256 r)" "length (sg_key r) \<le> MANIFEST_SEGMENT_KEY_MAX"
    by (simp_all add: segment_ref_wf_def plain_string_def)
  then have key_len: "\<not> Suc MANIFEST_SEGMENT_KEY_MAX \<le> length (sg_key r)" by simp
  have parent: "quote \<notin> set (cm_parent_manifest_sha256 m)" "length (cm_parent_manifest_sha256 m) \<le> MANIFEST_SHA256_HEX_SIZE"
    using wf by (simp_all add: manifest_wf_def plain_string_def)
  then have parent_len: "\<not> Suc MANIFEST_SHA256_HEX_SIZE \<le> length (cm_parent_manifest_sha256 m)" by simp
  have doc: "manifest_flat m = common_fields m @
      (if cm_format_version m = 1 then []
       else json_str ''parent_manifest_sha256'' (cm_parent_manifest_sha256 m) @ '','') @
      json_str ''segment_key'' (sg_key r) @ '','' @
      json_str ''segment_sha256'' (sg_sha256 r) @ '','' @
      json_u64 ''segment_size'' (unat (sg_size r)) @ '','' @
      json_u64 ''page_size'' (unat (cm_page_size m)) @ '','' @
      json_u64 ''database_size_pages'' (unat (cm_database_size_pages m)) @ [CHR ''}'', CHR 0x0A]"
    by (simp add: manifest_flat_fields flat_fields_def r_def Let_def)
  note fields = doc manifest_search r(2,3) plain(1,2) key_len parent(1) parent_len common_fields_skip [OF wf]
  show "manifest_extract_u64 (manifest_flat m) ''page_size'' = Some (ucast (cm_page_size m))"
    by (cases "cm_format_version m = 1") (simp_all add: fields)
  show "manifest_extract_u64 (manifest_flat m) ''database_size_pages'' = Some (cm_database_size_pages m)"
    by (cases "cm_format_version m = 1") (simp_all add: fields)
  show "manifest_extract_string (manifest_flat m) ''segment_key'' (MANIFEST_SEGMENT_KEY_MAX + 1) False = Some (sg_key r)"
    by (cases "cm_format_version m = 1") (simp_all add: fields)
  show "manifest_extract_string (manifest_flat m) ''segment_sha256'' (MANIFEST_SHA256_HEX_SIZE + 1) False = Some (sg_sha256 r)"
    by (cases "cm_format_version m = 1") (simp_all add: fields MANIFEST_SHA256_HEX_SIZE_def)
  show "manifest_extract_u64 (manifest_flat m) ''segment_size'' = Some (sg_size r)"
    by (cases "cm_format_version m = 1") (simp_all add: fields)
  show "cm_format_version m \<noteq> 1 \<Longrightarrow>
      manifest_extract_string (manifest_flat m) ''parent_manifest_sha256'' (MANIFEST_SHA256_HEX_SIZE + 1) True =
        Some (cm_parent_manifest_sha256 m)"
    by (simp add: fields)
qed

lemma common_fields_no_nul: "manifest_wf m \<Longrightarrow> CHR 0x00 \<notin> set (common_fields m)"
  by (simp add: common_fields_def json manifest_wf_def plain_string_def)

lemma manifest_extended_no_nul:
  assumes "manifest_wf m" "extension_ok ext"
  shows "CHR 0x00 \<notin> set (manifest_extended m ext)"
  using assms(1) [unfolded manifest_wf_def plain_string_def list_all_iff] segments_text_no_nul common_fields_no_nul [OF assms(1)]
    checksum_field_plain [of "cm_post_apply_checksum m"] assms(2)
  by (simp add: manifest_extended_def list_fields_def json segments_marker_def pattern_defs manifest_trailer_open_def
      plain_string_def extension_ok_def)

lemma manifest_flat_no_nul:
  assumes "manifest_wf m" "manifest_valid m"
  shows "CHR 0x00 \<notin> set (manifest_flat m)"
proof -
  note wf = assms(1) [unfolded manifest_wf_def plain_string_def list_all_iff]
  have "hd (cm_segments m) \<in> set (cm_segments m)"
    using assms(2) by (auto simp: manifest_valid_def manifest_segments_valid_def split: if_splits)
  then have "segment_ref_wf (hd (cm_segments m))" using wf by blast
  then show ?thesis
    using wf common_fields_no_nul [OF assms(1)]
    by (simp add: manifest_flat_fields flat_fields_def Let_def json segment_ref_wf_def plain_string_def)
qed

lemma format_cases: "format_allowed f \<Longrightarrow> f = 1 \<or> f = 2 \<or> f = 3 \<or> f = 4"
proof -
  assume "format_allowed f"
  then have "1 \<le> unat f" "unat f \<le> 4" by (auto simp: format_allowed_def COMMIT_MANIFEST_VERSION_def word_le_nat_alt)
  then have "unat f = 1 \<or> unat f = 2 \<or> unat f = 3 \<or> unat f = 4" by linarith
  moreover have "f = of_nat k" if "unat f = k" for k using that by auto
  ultimately show ?thesis by fastforce
qed

lemma manifest_parent_stored:
  assumes "format_allowed (cm_format_version m)"
  shows "manifest_parent_is_valid (manifest_stored m) = manifest_parent_is_valid m"
  using format_cases [OF assms]
  by (elim disjE) (simp_all add: manifest_parent_is_valid_def manifest_stored_def Let_def word_le_nat_alt)

lemma segment_ref_stored_fields [simp]:
  "sg_key (segment_ref_stored f r) = sg_key r" "sg_sha256 (segment_ref_stored f r) = sg_sha256 r"
  by (simp_all add: segment_ref_stored_def)

text \<open>A text is decoded from what its fields are found to be.\<close>

lemma manifest_decode_fields:
  assumes wf: "manifest_wf m" and valid: "manifest_valid m" and size: "length d < size_max"
    and nul: "CHR 0x00 \<notin> set d" and d: "d = common_fields m @ rest"
    and ps: "manifest_extract_u64 d ''page_size'' = Some (ucast (cm_page_size m))"
      "manifest_extract_u64 d ''database_size_pages'' = Some (cm_database_size_pages m)"
    and lf: "decode_list_fields d (ucast (cm_format_version m)) (cm_database_size_pages m) =
      Some (cm_parent_manifest_sha256 (manifest_stored m), refs, cm_post_apply_checksum (manifest_stored m))"
    and ff: "decode_flat_fields d (ucast (cm_format_version m)) refs = Some (cm_segments (manifest_stored m))"
  shows "otsardb_commit_manifest_decode_json (bytes_of_string d) = Some (manifest_stored m)"
proof -
  have f: "format_allowed (cm_format_version m)" and parent: "manifest_parent_is_valid (manifest_stored m)"
    and segs: "cm_segments m \<noteq> []" "length (cm_segments m) \<le> MANIFEST_MAX_SEGMENTS"
    and page: "cm_page_size m \<noteq> 0" "cm_generation m \<noteq> 0"
    using valid manifest_parent_stored [of m]
    by (auto simp: manifest_valid_def manifest_segments_valid_def split: if_splits)
  have each: "\<forall>r\<in>set (cm_segments m). sg_key r \<noteq> [] \<and> length (sg_sha256 r) = MANIFEST_SHA256_HEX_SIZE"
    using valid by (auto simp: manifest_valid_def manifest_segments_valid_def manifest_segment_valid_def list_all_iff
        split: if_splits)
  have copy: "c_str (string_of_bytes (bytes_of_string d)) = d" using nul by (simp add: c_str_id)
  have start: "bytes_of_string d \<noteq> []" by (simp add: d common_fields_def bytes_of_string_def)
  have len: "length (bytes_of_string d) \<noteq> size_max" using size by simp
  have w: "unat (ucast (cm_page_size m) :: u64) \<le> uint32_max" "(ucast (cm_page_size m) :: u64) \<noteq> 0"
    using unat_u32_le [of "cm_page_size m"] page by (simp_all add: unat_widen widen_eq_0)
  have refs: "cm_segments (manifest_stored m) \<noteq> []" "length (cm_segments (manifest_stored m)) \<le> MANIFEST_MAX_SEGMENTS"
    "list_all (\<lambda>r. sg_key r \<noteq> [] \<and> length (sg_sha256 r) = MANIFEST_SHA256_HEX_SIZE) (cm_segments (manifest_stored m))"
    using segs each by (auto simp: manifest_stored_def Let_def list_all_iff MANIFEST_MAX_SEGMENTS_def hd_map)
  have csum: "checksum_field_valid (cm_post_apply_checksum (manifest_stored m))"
    using wf by (simp add: manifest_stored_def manifest_wf_def checksum_field_valid_def Let_def)
  note found = common_fields_found [OF wf valid, of rest, folded d]
  have rec: "\<lparr>cm_format_version = cm_format_version m, cm_generation = cm_generation m,
      cm_parent_generation = cm_parent_generation m,
      cm_page_size = cm_page_size m, cm_database_size_pages = cm_database_size_pages m,
      cm_database_id = cm_database_id m, cm_commit_id = cm_commit_id m, cm_parent_commit_id = cm_parent_commit_id m,
      cm_parent_manifest_sha256 = cm_parent_manifest_sha256 (manifest_stored m),
      cm_segments = cm_segments (manifest_stored m),
      cm_post_apply_checksum = cm_post_apply_checksum (manifest_stored m)\<rparr> = manifest_stored m"
    by (cases m) (simp add: manifest_stored_def Let_def)
  show ?thesis
    unfolding otsardb_commit_manifest_decode_json_def copy Let_def
    using start len found ps lf ff f w page refs csum parent
    by (simp add: require_def narrow_widen rec not_less)
qed

lemma manifest_decode_extended:
  assumes wf: "manifest_wf m" and valid: "manifest_valid m" and f: "cm_format_version m \<ge> 3"
    and ext: "extension_ok ext" and size: "length (manifest_extended m ext) < size_max"
  shows "otsardb_commit_manifest_decode_json (bytes_of_string (manifest_extended m ext)) = Some (manifest_stored m)"
proof -
  have v: "cm_format_version m = 3 \<or> cm_format_version m = 4"
    using format_cases [of "cm_format_version m"] valid f by (auto simp: manifest_valid_def word_le_nat_alt)
  have lf: "decode_list_fields (manifest_extended m ext) (ucast (cm_format_version m)) (cm_database_size_pages m) =
      Some (cm_parent_manifest_sha256 (manifest_stored m), cm_segments (manifest_stored m),
        cm_post_apply_checksum (manifest_stored m))"
    using v list_fields_found [OF wf valid ext] extract_segments_found [OF wf valid, of ext]
    by (elim disjE) (simp_all add: decode_list_fields_def manifest_stored_def Let_def word_le_nat_alt)
  have ff: "decode_flat_fields (manifest_extended m ext) (ucast (cm_format_version m)) (cm_segments (manifest_stored m)) =
      Some (cm_segments (manifest_stored m))"
    using v by (elim disjE) (simp_all add: decode_flat_fields_def word_le_nat_alt)
  show ?thesis
    by (rule manifest_decode_fields [OF wf valid size manifest_extended_no_nul [OF wf ext] manifest_extended_def
          list_fields_found(1,2) [OF wf valid ext] lf ff])
qed

lemma manifest_decode_flat:
  assumes wf: "manifest_wf m" and valid: "manifest_valid m" and f: "\<not> cm_format_version m \<ge> 3"
    and size: "length (manifest_flat m) < size_max"
  shows "otsardb_commit_manifest_decode_json (bytes_of_string (manifest_flat m)) = Some (manifest_stored m)"
proof -
  have v: "cm_format_version m = 1 \<or> cm_format_version m = 2"
    using format_cases [of "cm_format_version m"] valid f by (auto simp: manifest_valid_def word_le_nat_alt)
  have segs: "cm_segments m \<noteq> []" using valid by (auto simp: manifest_valid_def manifest_segments_valid_def split: if_splits)
  have lf: "decode_list_fields (manifest_flat m) (ucast (cm_format_version m)) (cm_database_size_pages m) =
      Some (cm_parent_manifest_sha256 (manifest_stored m), [], cm_post_apply_checksum (manifest_stored m))"
    using v flat_fields_found [OF wf valid]
    by (elim disjE) (simp_all add: decode_list_fields_def manifest_stored_def Let_def word_le_nat_alt)
  have ff: "decode_flat_fields (manifest_flat m) (ucast (cm_format_version m)) [] = Some (cm_segments (manifest_stored m))"
    using v flat_fields_found [OF wf valid] segs
    by (elim disjE) (simp_all add: decode_flat_fields_def manifest_stored_def Let_def
        word_le_nat_alt segment_ref_stored_def hd_map)
  show ?thesis
    by (rule manifest_decode_fields [OF wf valid size manifest_flat_no_nul [OF wf valid] manifest_flat_fields
          flat_fields_found(1,2) [OF wf valid] lf ff])
qed

lemma manifest_decode_document:
  assumes "manifest_wf m" "manifest_valid m" "length (manifest_document m) < size_max"
  shows "otsardb_commit_manifest_decode_json (bytes_of_string (manifest_document m)) = Some (manifest_stored m)"
  using assms manifest_decode_extended [OF assms(1,2) _ extension_ok_Nil] manifest_decode_flat [OF assms(1,2)]
  by (auto simp: manifest_document_def manifest_list_extended)

section \<open>Whatever is decoded is valid\<close>

text \<open>Every pointer stays inside the text, so no field can contain a NUL.\<close>

lemma set_strtoull: "strtoull p = Some (v, e, r) \<Longrightarrow> set e \<subseteq> set p"
  by (auto simp: strtoull_def Let_def dest!: set_dropWhileD split: if_splits list.splits)
    (metis in_set_dropD list.set_intros set_dropWhileD)+

lemma set_strict_strtoull: "strict_strtoull p = Some (v, e) \<Longrightarrow> set e \<subseteq> set p"
  using set_strtoull by (fastforce simp: strict_strtoull_def split: if_splits option.splits)

lemma set_skip_blanks: "set (skip_blanks p) \<subseteq> set p"
  by (auto simp: skip_blanks_def dest: set_dropWhileD)

lemma set_tl_subset: "set (tl p) \<subseteq> set p"
  by (cases p) auto

lemma set_parse_u64_loop: "parse_u64_loop capacity vals p = Some (vs, q) \<Longrightarrow> set q \<subseteq> set p"
proof (induction capacity vals p rule: parse_u64_loop.induct)
  case (1 capacity vals p)
  show ?case
  proof (cases "skip_blanks p \<noteq> [] \<and> hd (skip_blanks p) = CHR '']''")
    case True
    then show ?thesis using 1(2) set_skip_blanks [of p] set_tl_subset [of "skip_blanks p"]
      by (subst (asm) parse_u64_loop.simps) (auto simp: Let_def)
  next
    case False
    then obtain v e where num: "strict_strtoull (skip_blanks p) = Some (v, e)"
      using 1(2) by (subst (asm) parse_u64_loop.simps) (auto simp: Let_def split: option.splits)
    have "set (tl (skip_blanks e)) \<subseteq> set p"
      using set_strict_strtoull [OF num] set_skip_blanks [of p] set_skip_blanks [of e] set_tl_subset [of "skip_blanks e"]
      by blast
    then show ?thesis
      using 1(2) False num 1(1) [OF refl False num refl _ refl refl]
      by (subst (asm) parse_u64_loop.simps) (auto simp: Let_def split: if_splits)
  qed
qed

lemma set_skip_marker: "skip_marker m p = Some q \<Longrightarrow> set q \<subseteq> set p"
  by (auto simp: skip_marker_def dest: in_set_dropD split: if_splits)

lemma set_next_char: "next_char c p = Some q \<Longrightarrow> set q \<subseteq> set p"
  using set_tl_subset [of p] by (auto simp: next_char_def split: if_splits)

lemma strchr_Some:
  "strchr v c = Some e \<Longrightarrow> \<exists>u t. v = u @ c # t \<and> e = c # t \<and> c \<notin> set u"
proof (induction v)
  case (Cons x v)
  show ?case
  proof (cases "x = c")
    case True
    then have "x # v = [] @ c # v \<and> e = c # v \<and> c \<notin> set []" using Cons.prems by simp
    then show ?thesis by blast
  next
    case False
    then obtain u t where "v = u @ c # t" "e = c # t" "c \<notin> set u" using Cons by auto
    then have "x # v = (x # u) @ c # t \<and> e = c # t \<and> c \<notin> set (x # u)" using False by simp
    then show ?thesis by blast
  qed
qed simp

lemma until_quote_Some:
  assumes "until_quote p = Some (s, q)"
  shows "set q \<subseteq> set p \<and> set s \<subseteq> set p \<and> quote \<notin> set s"
proof -
  obtain e where e: "strchr p quote = Some e" "s = take (length p - length e) p" "q = tl e"
    using assms by (auto simp: until_quote_def split: option.splits)
  from strchr_Some [OF e(1)] e show ?thesis by auto
qed

lemma set_strstr: "strstr p needle = Some q \<Longrightarrow> set q \<subseteq> set p"
  by (induction p needle rule: strstr.induct) (auto simp: strstr.simps split: if_splits)

lemma manifest_extract_string_Some:
  assumes "manifest_extract_string json name out_size allow_empty = Some s" "CHR 0x00 \<notin> set json" "0 < out_size"
  shows "plain_string s \<and> length s < out_size \<and> (\<not> allow_empty \<longrightarrow> s \<noteq> [])"
proof (cases "strstr json (pattern_str name)")
  case None
  then show ?thesis using assms by (auto simp: manifest_extract_string_def plain_string_def split: if_splits)
next
  case (Some p)
  define v where "v = after_pattern (pattern_str name) p"
  have "CHR 0x00 \<notin> set v"
    using set_strstr [OF Some] assms(2) by (auto simp: v_def after_pattern_def dest: in_set_dropD)
  moreover obtain e where e: "strchr v quote = Some e" "s = take (length v - length e) v" "length v - length e < out_size"
      "\<not> allow_empty \<longrightarrow> 0 < length v - length e"
    using assms(1) Some by (auto simp: manifest_extract_string_def v_def Let_def split: if_splits option.splits)
  ultimately show ?thesis
    using strchr_Some [OF e(1)] by (auto simp: plain_string_def)
qed

lemma require_Some: "require b = Some u \<longleftrightarrow> b"
  by (simp add: require_def)

lemma parse_u64_list_Some:
  "parse_u64_list p = Some (vs, q) \<Longrightarrow> set q \<subseteq> set p \<and> length vs \<le> MANIFEST_MAX_LIST_ENTRIES"
  using set_parse_u64_loop [of 0 "[]" p vs q] parse_u64_loop_bound [of 0 "[]" p vs q] by (simp add: parse_u64_list_def)

lemma parse_u32_list_Some:
  "parse_u32_list p = Some (vs, q) \<Longrightarrow> set q \<subseteq> set p \<and> length vs \<le> MANIFEST_MAX_LIST_ENTRIES"
  by (auto simp: parse_u32_list_def dest!: parse_u64_list_Some split: option.splits if_splits)

lemma parse_segment_offsets_Some:
  assumes "parse_segment_offsets n k p = Some (offsets, q)"
  shows "set q \<subseteq> set p \<and>
    (\<forall>xs. offsets = Some xs \<longrightarrow> xs \<noteq> [] \<and> length xs = k \<and> frame_offsets_valid xs n)"
proof (cases "skip_marker segment_offsets_marker p")
  case (Some p')
  then obtain xs where "parse_u64_list p' = Some (xs, q)" "length xs = k" "frame_offsets_valid xs n"
    "offsets = (if xs = [] then None else Some xs)"
    using assms by (auto simp: parse_segment_offsets_def require_Some bind_eq_Some_conv)
  then show ?thesis using parse_u64_list_Some [of p' xs q] set_skip_marker [OF Some] by auto
qed (use assms in \<open>simp add: parse_segment_offsets_def\<close>)

lemma parse_segment_pages_Some:
  assumes "parse_segment_pages n k p = Some (pages, offsets, q)"
  shows "set q \<subseteq> set p \<and> length pages \<le> MANIFEST_MAX_LIST_ENTRIES \<and> pages_list_valid pages n \<and>
    (\<forall>xs. offsets = Some xs \<longrightarrow> xs \<noteq> [] \<and> length xs = length pages \<and> frame_offsets_valid xs k)"
proof -
  obtain p1 p2 where st: "skip_marker segment_pages_marker p = Some p1" "parse_u32_list p1 = Some (pages, p2)"
    "parse_segment_offsets k (length pages) p2 = Some (offsets, q)" "pages_list_valid pages n"
    using assms by (auto simp: parse_segment_pages_def require_Some bind_eq_Some_conv)
  then show ?thesis
    using set_skip_marker [OF st(1)] parse_u32_list_Some [OF st(2)] parse_segment_offsets_Some [OF st(3)] by auto
qed

lemma parse_segment_Some:
  assumes seg: "parse_segment format n p = Some (r, q)" and nul: "CHR 0x00 \<notin> set p"
  shows "CHR 0x00 \<notin> set q \<and> segment_ref_wf r \<and> manifest_segment_valid format n r"
proof -
  obtain p1 p2 key p3 p4 seg_sha p5 p6 seg_size p7 pages offsets p8 where
    st: "next_char (CHR ''{'') (skip_blanks p) = Some p1" "skip_marker segment_head_marker p1 = Some p2"
      "until_quote p2 = Some (key, p3)" "skip_marker segment_sha_marker p3 = Some p4"
      "until_quote p4 = Some (seg_sha, p5)" "skip_marker segment_size_marker p5 = Some p6"
      "strict_strtoull (skip_blanks p6) = Some (seg_size, p7)"
      "parse_segment_tail format n seg_size p7 = Some (pages, offsets, p8)"
      "next_char (CHR ''}'') (skip_blanks p8) = Some q"
    and key: "length key \<noteq> 0" "length key \<le> MANIFEST_SEGMENT_KEY_MAX" "length seg_sha = MANIFEST_SHA256_HEX_SIZE"
    and r: "r = \<lparr>sg_key = key, sg_sha256 = seg_sha, sg_size = seg_size, sg_pages = pages, sg_frame_offsets = offsets\<rparr>"
    using seg by (auto simp: parse_segment_def require_Some bind_eq_Some_conv)
  have p3: "set p3 \<subseteq> set p" "set p2 \<subseteq> set p"
    using set_next_char [OF st(1)] set_skip_blanks [of p] set_skip_marker [OF st(2)] until_quote_Some [OF st(3)] by blast+
  then have p7: "set p7 \<subseteq> set p" "set p4 \<subseteq> set p"
    using set_skip_marker [OF st(4)] until_quote_Some [OF st(5)] set_skip_marker [OF st(6)] set_skip_blanks [of p6]
      set_strict_strtoull [OF st(7)] by blast+
  have pages: "set p8 \<subseteq> set p7 \<and> length pages \<le> MANIFEST_MAX_LIST_ENTRIES \<and> (format \<ge> 4 \<longrightarrow> pages_list_valid pages n) \<and>
    (\<forall>xs. offsets = Some xs \<longrightarrow> xs \<noteq> [] \<and> length xs = length pages \<and> frame_offsets_valid xs seg_size)"
    using st(8) parse_segment_pages_Some [of n seg_size p7 pages offsets p8]
    by (auto simp: parse_segment_tail_def split: if_splits)
  have plain: "plain_string key" "plain_string seg_sha"
    using until_quote_Some [OF st(3)] until_quote_Some [OF st(5)] p3 p7 nul by (auto simp: plain_string_def)
  have "set q \<subseteq> set p"
    using set_next_char [OF st(9)] set_skip_blanks [of p8] pages p7 by blast
  then show ?thesis
    using nul plain key pages
    by (auto simp: r segment_ref_wf_def manifest_segment_valid_def split: option.splits)
qed

lemma parse_segments_loop_Some:
  assumes "parse_segments_loop room format n refs p = Some (rs, q)" "CHR 0x00 \<notin> set p"
    "\<forall>r\<in>set refs. segment_ref_wf r \<and> manifest_segment_valid format n r"
  shows "\<forall>r\<in>set rs. segment_ref_wf r \<and> manifest_segment_valid format n r"
  using assms
proof (induction room arbitrary: refs p)
  case (Suc room)
  then obtain r p' where seg: "parse_segment format n p = Some (r, p')" by (auto split: option.splits)
  note ok = parse_segment_Some [OF seg Suc.prems(2)]
  let ?q = "skip_blanks p'"
  have nul: "CHR 0x00 \<notin> set (tl ?q)"
    using ok set_skip_blanks [of p'] set_tl_subset [of ?q] by blast
  have all: "\<forall>r\<in>set (refs @ [r]). segment_ref_wf r \<and> manifest_segment_valid format n r"
    using Suc.prems(3) ok by simp
  show ?case
  proof (cases "?q \<noteq> [] \<and> hd ?q = CHR '']''")
    case True
    then show ?thesis using Suc.prems(1) seg all by (simp add: Let_def)
  next
    case False
    then have "parse_segments_loop room format n (refs @ [r]) (tl ?q) = Some (rs, q)"
      using Suc.prems(1) seg by (simp add: Let_def split: if_splits)
    from Suc.IH [OF this nul all] show ?thesis .
  qed
qed simp

lemma extract_segments_Some:
  assumes "extract_segments json format n = Some refs" "CHR 0x00 \<notin> set json"
  shows "(\<forall>r\<in>set refs. segment_ref_wf r \<and> manifest_segment_valid format n r) \<and> refs \<noteq> [] \<and>
    length refs \<le> MANIFEST_MAX_SEGMENTS"
proof -
  obtain p rest where p: "strstr json segments_marker = Some p"
    and loop: "parse_segments_loop MANIFEST_MAX_SEGMENTS format n [] (after_pattern segments_marker p) = Some (refs, rest)"
    and len: "refs \<noteq> []" "length refs \<le> MANIFEST_MAX_SEGMENTS"
    using assms(1) by (auto simp: extract_segments_def require_Some bind_eq_Some_conv)
  have "CHR 0x00 \<notin> set (after_pattern segments_marker p)"
    using set_strstr [OF p] assms(2) by (auto simp: after_pattern_def dest: in_set_dropD)
  with parse_segments_loop_Some [OF loop] len show ?thesis by simp
qed

lemma decode_list_fields_Some:
  assumes "decode_list_fields copy format n = Some (parent_sha, refs, checksum)" "CHR 0x00 \<notin> set copy"
  shows "plain_string parent_sha \<and> length parent_sha \<le> MANIFEST_SHA256_HEX_SIZE \<and>
    (\<forall>r\<in>set refs. segment_ref_wf r \<and> manifest_segment_valid (ucast format) n r)"
proof -
  have "plain_string s \<and> length s \<le> MANIFEST_SHA256_HEX_SIZE"
    if "manifest_extract_string copy ''parent_manifest_sha256'' (MANIFEST_SHA256_HEX_SIZE + 1) True = Some s" for s
    using manifest_extract_string_Some [OF that assms(2)] by simp
  then show ?thesis
    using assms(1) extract_segments_Some [OF _ assms(2)]
    by (auto simp: decode_list_fields_def bind_eq_Some_conv plain_string_def split: if_splits)
qed

lemma decode_flat_fields_Some:
  assumes "decode_flat_fields copy format refs = Some rs" "CHR 0x00 \<notin> set copy"
    "\<forall>r\<in>set refs. segment_ref_wf r \<and> manifest_segment_valid (ucast format) n r"
    "\<forall>r\<in>set rs. sg_key r \<noteq> [] \<and> length (sg_sha256 r) = MANIFEST_SHA256_HEX_SIZE"
  shows "\<forall>r\<in>set rs. segment_ref_wf r \<and> manifest_segment_valid (ucast format) n r"
proof (cases "format = 1 \<or> format = 2")
  case True
  then obtain key seg_sha seg_size where
    k: "manifest_extract_string copy ''segment_key'' (MANIFEST_SEGMENT_KEY_MAX + 1) False = Some key"
      "manifest_extract_string copy ''segment_sha256'' (MANIFEST_SHA256_HEX_SIZE + 1) False = Some seg_sha"
    and rs: "rs = [\<lparr>sg_key = key, sg_sha256 = seg_sha, sg_size = seg_size, sg_pages = [], sg_frame_offsets = None\<rparr>]"
    using assms(1) by (auto simp: decode_flat_fields_def bind_eq_Some_conv)
  show ?thesis
    using manifest_extract_string_Some [OF k(1) assms(2)] manifest_extract_string_Some [OF k(2) assms(2)] assms(4)
    by (simp add: rs segment_ref_wf_def manifest_segment_valid_def)
next
  case False
  then show ?thesis using assms by (simp add: decode_flat_fields_def)
qed

lemma unat_narrow: "unat (v :: u64) \<le> uint32_max \<Longrightarrow> unat (ucast v :: u32) = unat v"
  by (simp add: unsigned_ucast_eq take_bit_nat_eq_self_iff uint32_max_def)

lemma narrow_nonzero: "v \<noteq> (0 :: u64) \<Longrightarrow> unat v \<le> uint32_max \<Longrightarrow> (ucast v :: u32) \<noteq> 0"
  using unat_narrow [of v] by (metis unat_0 unat_eq_zero)

lemma c_str_no_nul: "CHR 0x00 \<notin> set (c_str s)"
  by (auto simp: c_str_def dest: set_takeWhileD)

lemma manifest_decode_valid:
  assumes "otsardb_commit_manifest_decode_json bs = Some m"
  shows "manifest_valid m \<and> manifest_wf m"
proof -
  define copy where "copy = c_str (string_of_bytes bs)"
  have nul: "CHR 0x00 \<notin> set copy" by (simp add: copy_def c_str_no_nul)
  obtain format page refs where
    lf: "decode_list_fields copy format (cm_database_size_pages m) =
        Some (cm_parent_manifest_sha256 m, refs, cm_post_apply_checksum m)"
    and ff: "decode_flat_fields copy format refs = Some (cm_segments m)"
    and ids: "manifest_extract_string copy ''database_id'' (MANIFEST_ID_MAX + 1) False = Some (cm_database_id m)"
      "manifest_extract_string copy ''commit_id'' (MANIFEST_ID_MAX + 1) False = Some (cm_commit_id m)"
      "manifest_extract_string copy ''parent_commit_id'' (MANIFEST_ID_MAX + 1) True = Some (cm_parent_commit_id m)"
    and checks: "format_allowed (cm_format_version m)" "cm_format_version m = ucast format"
      "cm_page_size m = ucast page" "page \<noteq> (0 :: u64)" "unat page \<le> uint32_max" "cm_generation m \<noteq> 0"
      "cm_segments m \<noteq> []" "length (cm_segments m) \<le> MANIFEST_MAX_SEGMENTS"
      "\<forall>r\<in>set (cm_segments m). sg_key r \<noteq> [] \<and> length (sg_sha256 r) = MANIFEST_SHA256_HEX_SIZE"
      "checksum_field_valid (cm_post_apply_checksum m)" "manifest_parent_is_valid m"
    using assms unfolding otsardb_commit_manifest_decode_json_def copy_def [symmetric] Let_def
    by (auto simp: bind_eq_Some_conv require_Some list_all_iff not_less)
  have page: "cm_page_size m \<noteq> 0" using checks(3-5) by (simp add: narrow_nonzero)
  note l = decode_list_fields_Some [OF lf nul]
  note segs = decode_flat_fields_Some [OF ff nul _ checks(9)]
  have valid: "\<forall>r\<in>set (cm_segments m). segment_ref_wf r \<and>
      manifest_segment_valid (cm_format_version m) (cm_database_size_pages m) r"
    using segs [of "cm_database_size_pages m"] l unfolding checks(2) by blast
  note s = manifest_extract_string_Some [OF ids(1) nul] manifest_extract_string_Some [OF ids(2) nul]
    manifest_extract_string_Some [OF ids(3) nul]
  show ?thesis
    using valid s l checks page
    by (simp add: manifest_valid_def manifest_wf_def manifest_segments_valid_def list_all_iff)
qed

text \<open>The page sets of a decoded manifest are strictly increasing, in every format.\<close>

lemma pages_list_loop_sorted:
  "pages_list_loop q ps n \<Longrightarrow> sorted_wrt (<) ps \<and> (\<forall>x. q = Some x \<longrightarrow> (\<forall>p\<in>set ps. x < p)) \<and> 0 \<notin> set ps"
  by (induction q ps n rule: pages_list_loop.induct) (force split: if_splits option.splits)+

lemma parse_segment_sorted:
  assumes "parse_segment format n p = Some (r, q)"
  shows "sorted_wrt (<) (sg_pages r) \<and> 0 \<notin> set (sg_pages r)"
  using assms pages_list_loop_sorted
  by (auto simp: parse_segment_def parse_segment_tail_def parse_segment_pages_def pages_list_valid_def bind_eq_Some_conv
      require_Some split: if_splits)

lemma parse_segments_loop_sorted:
  "parse_segments_loop room format n refs p = Some (rs, q) \<Longrightarrow>
   \<forall>r\<in>set refs. sorted_wrt (<) (sg_pages r) \<and> 0 \<notin> set (sg_pages r) \<Longrightarrow>
   \<forall>r\<in>set rs. sorted_wrt (<) (sg_pages r) \<and> 0 \<notin> set (sg_pages r)"
proof (induction room arbitrary: refs p)
  case (Suc room)
  then obtain r p' where seg: "parse_segment format n p = Some (r, p')" by (auto split: option.splits)
  have all: "\<forall>r\<in>set (refs @ [r]). sorted_wrt (<) (sg_pages r) \<and> 0 \<notin> set (sg_pages r)"
    using Suc.prems(2) parse_segment_sorted [OF seg] by simp
  show ?case using Suc.prems(1) seg Suc.IH [OF _ all] all by (auto simp: Let_def split: if_splits)
qed simp

lemma manifest_decode_pages:
  assumes "otsardb_commit_manifest_decode_json bs = Some m" "r \<in> set (cm_segments m)"
  shows "sorted_wrt (<) (sg_pages r)" "0 \<notin> set (sg_pages r)"
proof -
  obtain copy format n refs psha csum where lf: "decode_list_fields copy format n = Some (psha, refs, csum)"
    and ff: "decode_flat_fields copy format refs = Some (cm_segments m)"
    using assms(1) unfolding otsardb_commit_manifest_decode_json_def Let_def by (auto simp: bind_eq_Some_conv require_Some)
  have "\<forall>r\<in>set refs. sorted_wrt (<) (sg_pages r) \<and> 0 \<notin> set (sg_pages r)"
    using lf parse_segments_loop_sorted [of _ _ _ "[]"]
    by (auto simp: decode_list_fields_def extract_segments_def bind_eq_Some_conv require_Some split: if_splits)
  then have "\<forall>r\<in>set segs. sorted_wrt (<) (sg_pages r) \<and> 0 \<notin> set (sg_pages r)"
    if "decode_flat_fields copy format refs = Some segs" for segs
    using that by (auto simp: decode_flat_fields_def bind_eq_Some_conv split: if_splits)
  from this [OF ff] assms(2) have "sorted_wrt (<) (sg_pages r) \<and> 0 \<notin> set (sg_pages r)" by blast
  then show "sorted_wrt (<) (sg_pages r)" "0 \<notin> set (sg_pages r)" by simp_all
qed

section \<open>Properties\<close>

text \<open>
  The two passes of the encoder agree: the size computed first is exactly what is written, so no
  write is ever cut off.  Encoding succeeds precisely for the valid manifests whose document fits the
  range of \<open>int\<close>, and gives that document with its SHA-256.
\<close>

theorem manifest_encode_exact:
  "otsardb_commit_manifest_encode_json sha m =
     (if manifest_valid m \<and> length (manifest_document m) \<le> int_max
      then Some (manifest_document m, otsardb_sha256_hex_data sha (bytes_of_string (manifest_document m)))
      else None)"
  by (simp add: otsardb_commit_manifest_encode_json_def manifest_text_exact)

text \<open>
  (C18) Decoding an encoded manifest gives the manifest back, restricted to what its format stores;
  format 4 stores everything.
\<close>

theorem manifest_round_trip:
  assumes "manifest_wf m" "otsardb_commit_manifest_encode_json sha m = Some (json, hash)"
  shows "otsardb_commit_manifest_decode_json (bytes_of_string json) =
    Some (if cm_format_version m \<ge> 4 then m else manifest_stored m)"
proof -
  have "manifest_valid m" "json = manifest_document m" "length (manifest_document m) < size_max"
    using assms(2) by (auto simp: otsardb_commit_manifest_encode_json_def manifest_text_exact int_max_def size_max_def
        split: if_splits)
  with manifest_decode_document [OF assms(1)] show ?thesis by (simp add: manifest_stored_v4)
qed

text \<open>
  (C19) Whatever bytes the decoder accepts, hostile ones included, the result passes every check of the
  encoder and respects every bound: page sets are strictly increasing and inside the database, frame
  offsets strictly increasing and inside the segment, the parent link is consistent, and no list is
  longer than the cap.
\<close>

theorem manifest_decode_sound:
  assumes "otsardb_commit_manifest_decode_json bs = Some m"
  shows "manifest_valid m \<and> manifest_wf m"
  by (rule manifest_decode_valid [OF assms])

definition sample_manifest :: commit_manifest where
  "sample_manifest = \<lparr>cm_format_version = 4, cm_generation = 1, cm_parent_generation = 0, cm_page_size = 4096,
     cm_database_size_pages = 3, cm_database_id = ''db'', cm_commit_id = ''c1'', cm_parent_commit_id = [],
     cm_parent_manifest_sha256 = [],
     cm_segments = [\<lparr>sg_key = ''segments/s1'', sg_sha256 = replicate 64 CHR ''a'', sg_size = 900, sg_pages = [1, 3],
       sg_frame_offsets = Some [100, 500]\<rparr>],
     cm_post_apply_checksum = replicate 16 CHR ''0''\<rparr>"

lemma sample_manifest_wf: "manifest_wf sample_manifest"
  by (simp add: manifest_wf_def sample_manifest_def plain_string_def segment_ref_wf_def checksum_field_valid_def
      MANIFEST_ID_MAX_def MANIFEST_SEGMENT_KEY_MAX_def MANIFEST_MAX_LIST_ENTRIES_def is_hex_digit_def list_all_iff)

lemma sample_manifest_valid: "manifest_valid sample_manifest"
  by (simp add: manifest_valid_def sample_manifest_def format_allowed_def COMMIT_MANIFEST_VERSION_def
      manifest_parent_is_valid_def manifest_segments_valid_def manifest_segment_valid_def MANIFEST_MAX_SEGMENTS_def
      MANIFEST_SHA256_HEX_SIZE_def pages_list_valid_def frame_offsets_valid_def word_le_nat_alt)

lemma sample_manifest_small: "length (manifest_document sample_manifest) \<le> 1000"
proof -
  have d: "length (dec n) \<le> 4" if "n < 10000" for n using length_dec_le [of n 3] that by simp
  show ?thesis
    using d [of 1] d [of 4] d [of 0] d [of 4096] d [of 3] d [of 900] d [of 100] d [of 500]
    by (simp add: manifest_document_def manifest_list_text_def manifest_header_def manifest_trailer_def sample_manifest_def
        segment_text_def segment_head_def segment_offsets_def array_text_def json_u64_def json_str_def pattern_defs
        segments_marker_def)
qed

lemma sample_manifest_short: "length (manifest_document sample_manifest) \<le> int_max"
  using sample_manifest_small by (simp add: int_max_def)

theorem manifest_round_trip_witness:
  "otsardb_commit_manifest_decode_json (bytes_of_string (manifest_document sample_manifest)) = Some sample_manifest"
proof -
  have "otsardb_commit_manifest_encode_json id sample_manifest =
    Some (manifest_document sample_manifest, otsardb_sha256_hex_data id (bytes_of_string (manifest_document sample_manifest)))"
    using sample_manifest_valid sample_manifest_short
    by (simp add: otsardb_commit_manifest_encode_json_def manifest_text_exact)
  from manifest_round_trip [OF sample_manifest_wf this] show ?thesis by (simp add: sample_manifest_def)
qed

theorem manifest_decode_sound_witness: "manifest_valid sample_manifest \<and> manifest_wf sample_manifest"
proof (rule manifest_decode_sound)
  show "otsardb_commit_manifest_decode_json (bytes_of_string (manifest_document sample_manifest)) = Some sample_manifest"
    using manifest_decode_document [OF sample_manifest_wf sample_manifest_valid] sample_manifest_short
      manifest_stored_v4 [of sample_manifest]
    by (simp add: sample_manifest_def int_max_def size_max_def)
qed

end
