(* ===== verification/Cipher.thy ===== *)
theory Cipher
  imports Checksum Aes_Gcm Commit_Manifest
begin

text \<open>
  At-rest encryption, \<open>src/crypto/cipher.c\<close>: keys given in hexadecimal, the two-phase encryption of a
  segment into an envelope of initialisation vector, ciphertext and tag, its decryption, and the
  parser of the \<open>segment_enc\<close> array of a manifest.  The authenticated cipher is an interface: the
  portable AES-256-GCM provides it (the branch of the source for builds without OpenSSL), OpenSSL
  does otherwise.  Random bytes are an argument, \<open>None\<close> when there is no entropy.  The texts of error
  messages are not modelled.
\<close>

section \<open>Keys\<close>

definition CIPHER_KEY_BYTES :: nat where "CIPHER_KEY_BYTES = 32"
definition CIPHER_KEY_HEX_LEN :: nat where "CIPHER_KEY_HEX_LEN = 64"
definition CIPHER_IV_BYTES :: nat where "CIPHER_IV_BYTES = 12"
definition CIPHER_TAG_BYTES :: nat where "CIPHER_TAG_BYTES = 16"
definition CIPHER_OVERHEAD :: nat where "CIPHER_OVERHEAD = CIPHER_IV_BYTES + CIPHER_TAG_BYTES"
definition CIPHER_ALG_NAME :: string where "CIPHER_ALG_NAME = ''AES-256-GCM''"
definition SEGMENT_ENC_MAX :: nat where "SEGMENT_ENC_MAX = 128"

record cipher =
  ci_key :: bytes

text \<open>\<open>None\<close> is the result -1.\<close>

definition hex_nibble :: "char \<Rightarrow> byte option" where
  "hex_nibble c =
     (let v = (of_char c :: nat) in
      if 48 \<le> v \<and> v \<le> 57 then Some (of_nat (v - 48))
      else if 97 \<le> v \<and> v \<le> 102 then Some (of_nat (v - 97 + 10))
      else if 65 \<le> v \<and> v \<le> 70 then Some (of_nat (v - 65 + 10))
      else None)"

definition otsardb_cipher_valid_hex_key :: "string \<Rightarrow> bool" where
  "otsardb_cipher_valid_hex_key s \<longleftrightarrow>
     length s = CIPHER_KEY_HEX_LEN \<and> list_all (\<lambda>c. hex_nibble c \<noteq> None) s"

definition otsardb_cipher_create :: "bytes \<Rightarrow> cipher" where
  "otsardb_cipher_create key = \<lparr>ci_key = take CIPHER_KEY_BYTES key\<rparr>"

definition otsardb_cipher_create_from_hex :: "string \<Rightarrow> cipher option" where
  "otsardb_cipher_create_from_hex hex =
     (if \<not> otsardb_cipher_valid_hex_key hex then None
      else Some (otsardb_cipher_create (map (\<lambda>i.
        push_bit 4 (the (hex_nibble (hex ! (i * 2)))) OR the (hex_nibble (hex ! (i * 2 + 1))))
        [0..<CIPHER_KEY_BYTES])))"

section \<open>Envelopes\<close>

type_synonym gcm_encrypt = "bytes \<Rightarrow> bytes \<Rightarrow> bytes \<Rightarrow> bytes \<Rightarrow> (bytes \<times> bytes) option"
type_synonym gcm_decrypt = "bytes \<Rightarrow> bytes \<Rightarrow> bytes \<Rightarrow> bytes \<Rightarrow> bytes \<Rightarrow> bytes option"

definition otsardb_cipher_encrypt_stream ::
  "gcm_encrypt \<Rightarrow> bytes option \<Rightarrow> cipher \<Rightarrow> bytes \<Rightarrow> (bytes \<times> bytes) option" where
  "otsardb_cipher_encrypt_stream enc entropy c plaintext =
     (if length plaintext > int_max then None
      else case entropy of
        None \<Rightarrow> None
      | Some iv \<Rightarrow>
          (case enc (ci_key c) iv [] plaintext of
             None \<Rightarrow> None
           | Some (ct, tag) \<Rightarrow> Some (iv, ct)))"

definition otsardb_cipher_encrypt_with_aad ::
  "gcm_encrypt \<Rightarrow> cipher \<Rightarrow> bytes \<Rightarrow> bytes \<Rightarrow> bytes \<Rightarrow> (bytes \<times> bytes) option" where
  "otsardb_cipher_encrypt_with_aad enc c iv aad plaintext =
     (if length plaintext > int_max \<or> length aad > int_max \<or> length plaintext > size_max - CIPHER_OVERHEAD then None
      else case enc (ci_key c) iv aad plaintext of
        None \<Rightarrow> None
      | Some (ct, tag) \<Rightarrow> Some (iv @ ct @ tag, tag))"

definition otsardb_cipher_decrypt :: "gcm_decrypt \<Rightarrow> cipher \<Rightarrow> bytes \<Rightarrow> bytes \<Rightarrow> bytes option" where
  "otsardb_cipher_decrypt gdec c data aad =
     (if length data < CIPHER_OVERHEAD then None
      else if length data - CIPHER_OVERHEAD > int_max \<or> length aad > int_max then None
      else let iv = take CIPHER_IV_BYTES data;
               ct_size = length data - CIPHER_OVERHEAD;
               ct = mem_slice data CIPHER_IV_BYTES ct_size;
               tag = mem_slice data (CIPHER_IV_BYTES + ct_size) CIPHER_TAG_BYTES in
        gdec (ci_key c) iv aad ct tag)"

section \<open>The \<open>segment_enc\<close> array\<close>

text \<open>An entry is \<open>None\<close> for a plaintext segment.\<close>

record segment_enc =
  en_alg :: string
  en_iv :: bytes
  en_tag :: bytes

record segment_enc_set =
  es_entries :: "segment_enc option list"
  es_present :: bool

fun enc_hex_pairs :: "string \<Rightarrow> bytes option" where
  "enc_hex_pairs [] = Some []"
| "enc_hex_pairs [c] = None"
| "enc_hex_pairs (c # d # s) =
     (case (hex_nibble c, hex_nibble d) of
        (Some hi, Some lo) \<Rightarrow> map_option (Cons (push_bit 4 hi OR lo)) (enc_hex_pairs s)
      | _ \<Rightarrow> None)"

definition enc_parse_hex :: "string \<Rightarrow> nat \<Rightarrow> bytes option" where
  "enc_parse_hex s out_len = (if length s \<noteq> out_len * 2 then None else enc_hex_pairs s)"

definition skip_space :: "string \<Rightarrow> string" where
  "skip_space p = dropWhile (\<lambda>c. c = CHR '' '' \<or> c = CHR 0x09 \<or> c = CHR 0x0A \<or> c = CHR 0x0D) p"

definition enc_parse_fields :: "string \<Rightarrow> (segment_enc option \<times> string) option" where
  "enc_parse_fields p =
     do { p \<leftarrow> skip_marker (pattern_str ''alg'') p;
          (alg, p) \<leftarrow> until_quote p;
          require (alg = CIPHER_ALG_NAME);
          p \<leftarrow> skip_marker ('','' @ pattern_str ''iv'') p;
          (iv_hex, p) \<leftarrow> until_quote p;
          iv \<leftarrow> enc_parse_hex iv_hex CIPHER_IV_BYTES;
          p \<leftarrow> skip_marker ('','' @ pattern_str ''tag'') p;
          (tag_hex, p) \<leftarrow> until_quote p;
          tag \<leftarrow> enc_parse_hex tag_hex CIPHER_TAG_BYTES;
          p \<leftarrow> next_char (CHR ''}'') (skip_space p);
          Some (Some \<lparr>en_alg = alg, en_iv = iv, en_tag = tag\<rparr>, p) }"

definition enc_parse_entry :: "string \<Rightarrow> (segment_enc option \<times> string) option" where
  "enc_parse_entry p =
     do { p \<leftarrow> next_char (CHR ''{'') (skip_space p);
          let p = skip_space p;
          if p \<noteq> [] \<and> hd p = CHR ''}'' then Some (None, tl p) else enc_parse_fields p }"

fun enc_parse_loop :: "nat \<Rightarrow> segment_enc option list \<Rightarrow> string \<Rightarrow> (segment_enc option list \<times> string) option" where
  "enc_parse_loop 0 entries p = Some (entries, p)"
| "enc_parse_loop (Suc room) entries p =
     (case enc_parse_entry p of
        None \<Rightarrow> None
      | Some (e, q) \<Rightarrow>
          let q = skip_space q in
          if q \<noteq> [] \<and> hd q = CHR '']'' then Some (entries @ [e], q)
          else if q = [] \<or> hd q \<noteq> CHR '','' then None
          else enc_parse_loop room (entries @ [e]) (tl q))"

definition segment_enc_marker :: string where
  "segment_enc_marker = pattern_u64 ''segment_enc'' @ ''[''"

definition otsardb_segment_enc_parse_json :: "bytes \<Rightarrow> segment_enc_set option" where
  "otsardb_segment_enc_parse_json json =
     (if json = [] then None
      else let copy = c_str (string_of_bytes json) in
        (case strstr copy segment_enc_marker of
           None \<Rightarrow> Some \<lparr>es_entries = [], es_present = False\<rparr>
         | Some p \<Rightarrow>
             do { (entries, p) \<leftarrow> enc_parse_loop SEGMENT_ENC_MAX [] (after_pattern segment_enc_marker p);
                  require (\<not> (entries = [] \<or> p = [] \<or> hd p \<noteq> CHR '']''));
                  Some \<lparr>es_entries = entries, es_present = True\<rparr> }))"

section \<open>The authenticated cipher\<close>

locale aead =
  fixes enc :: gcm_encrypt and gdec :: gcm_decrypt
  assumes enc_lengths: "length key = CIPHER_KEY_BYTES \<Longrightarrow> enc key iv aad pt = Some (ct, tag) \<Longrightarrow>
      length ct = length pt \<and> length tag = CIPHER_TAG_BYTES"
    and gdec_enc: "length key = CIPHER_KEY_BYTES \<Longrightarrow> enc key iv aad pt = Some (ct, tag) \<Longrightarrow>
      length tag' = CIPHER_TAG_BYTES \<Longrightarrow> gdec key iv aad ct tag' = (if tag' = tag then Some pt else None)"
    and enc_stream: "length key = CIPHER_KEY_BYTES \<Longrightarrow> enc key iv aad pt = Some (ct, tag) \<Longrightarrow>
      enc key iv aad' pt = Some (ct', tag') \<Longrightarrow> ct' = ct"
begin

lemma envelope_parts:
  assumes "length (ci_key c) = CIPHER_KEY_BYTES" "length iv = CIPHER_IV_BYTES"
    "otsardb_cipher_encrypt_with_aad enc c iv aad pt = Some (env, tag)"
  shows "\<exists>ct. enc (ci_key c) iv aad pt = Some (ct, tag) \<and> env = iv @ ct @ tag \<and>
    length ct = length pt \<and> length tag = CIPHER_TAG_BYTES \<and> length pt \<le> int_max \<and> length aad \<le> int_max"
  using assms enc_lengths [OF assms(1)]
  by (auto simp: otsardb_cipher_encrypt_with_aad_def split: if_splits option.splits)

lemma decrypt_envelope:
  assumes "length (ci_key c) = CIPHER_KEY_BYTES" "length iv = CIPHER_IV_BYTES"
    "otsardb_cipher_encrypt_with_aad enc c iv aad pt = Some (env, tag)" "length tag' = CIPHER_TAG_BYTES"
  shows "otsardb_cipher_decrypt gdec c (take (length env - CIPHER_TAG_BYTES) env @ tag') aad =
    (if tag' = tag then Some pt else None)"
proof -
  obtain ct where e: "enc (ci_key c) iv aad pt = Some (ct, tag)" and env: "env = iv @ ct @ tag"
    and len: "length ct = length pt" "length tag = CIPHER_TAG_BYTES" "length pt \<le> int_max" "length aad \<le> int_max"
    using envelope_parts [OF assms(1-3)] by blast
  have "take (length env - CIPHER_TAG_BYTES) env @ tag' = iv @ ct @ tag'" using len by (simp add: env)
  then show ?thesis
    using gdec_enc [OF assms(1) e assms(4)] assms(2,4) len
    by (simp add: otsardb_cipher_decrypt_def CIPHER_OVERHEAD_def mem_slice_def)
qed

lemma stream_of_envelope:
  assumes "length (ci_key c) = CIPHER_KEY_BYTES" "length iv = CIPHER_IV_BYTES"
    "otsardb_cipher_encrypt_stream enc (Some iv) c pt = Some (iv', stream)"
    "otsardb_cipher_encrypt_with_aad enc c iv' aad pt = Some (env, tag)"
  shows "env = iv @ stream @ tag"
proof -
  have iv: "iv' = iv" and s: "\<exists>t. enc (ci_key c) iv [] pt = Some (stream, t)"
    using assms(3) by (auto simp: otsardb_cipher_encrypt_stream_def split: if_splits option.splits)
  with envelope_parts [OF assms(1,2)] assms(4) enc_stream [OF assms(1)] show ?thesis by blast
qed

end

definition pure_enc :: gcm_encrypt where
  "pure_enc key iv aad pt = Some (otsardb_aes_gcm_pure_encrypt key iv aad pt)"

definition pure_dec :: gcm_decrypt where
  "pure_dec key iv aad ct tag = otsardb_aes_gcm_pure_decrypt key iv aad ct tag"

lemma pure_decrypt_encrypt:
  assumes "length key = 32" "length tag' = 16" "otsardb_aes_gcm_pure_encrypt key iv aad pt = (ct, tag)"
  shows "otsardb_aes_gcm_pure_decrypt key iv aad ct tag' = (if tag' = tag then Some pt else None)"
proof -
  let ?rk = "aes256_expand_key key"
  have rk: "length ?rk = 240" using assms(1) by simp
  have ct: "ct = gcm_ctr ?rk iv 2 pt" and tag: "tag = gcm_tag ?rk iv aad ct"
    using assms(3) by (auto simp: otsardb_aes_gcm_pure_encrypt_def Let_def)
  have "list_all (\<lambda>i. gcm_tag ?rk iv aad ct ! i = tag' ! i) [0..<16] \<longleftrightarrow> tag' = tag"
    using assms(2) rk by (auto simp: list_all_iff tag list_eq_iff_nth_eq)
  then show ?thesis by (simp add: otsardb_aes_gcm_pure_decrypt_def Let_def ct gcm_ctr_inverse rk)
qed

interpretation pure_gcm: aead pure_enc pure_dec
proof
  fix key iv aad pt ct tag
  assume key: "length key = CIPHER_KEY_BYTES" and e: "pure_enc key iv aad pt = Some (ct, tag)"
  then show "length ct = length pt \<and> length tag = CIPHER_TAG_BYTES"
    by (auto simp: pure_enc_def otsardb_aes_gcm_pure_encrypt_def Let_def CIPHER_KEY_BYTES_def CIPHER_TAG_BYTES_def
        length_gcm_ctr)
  show "ct' = ct" if "pure_enc key iv aad' pt = Some (ct', tag')" for aad' ct' tag'
    using that e by (auto simp: pure_enc_def otsardb_aes_gcm_pure_encrypt_def Let_def)
  show "pure_dec key iv aad ct tag' = (if tag' = tag then Some pt else None)" if "length tag' = CIPHER_TAG_BYTES" for tag'
    using pure_decrypt_encrypt [of key tag' iv aad pt ct tag] key e that
    by (simp add: pure_enc_def pure_dec_def CIPHER_KEY_BYTES_def CIPHER_TAG_BYTES_def)
qed

section \<open>Hexadecimal text\<close>

definition bytes_hex :: "bytes \<Rightarrow> string" where
  "bytes_hex bs = concat (map (\<lambda>b. [hex_digits ! unat (drop_bit 4 b), hex_digits ! unat (b AND 0x0f)]) bs)"

lemma bytes_hex_simps [simp]:
  "bytes_hex [] = []"
  "bytes_hex (b # bs) = hex_digits ! unat (drop_bit 4 b) # hex_digits ! unat (b AND 0x0f) # bytes_hex bs"
  by (simp_all add: bytes_hex_def)

lemma length_bytes_hex [simp]: "length (bytes_hex bs) = 2 * length bs"
  by (induction bs) simp_all

lemma nibbles_of_byte:
  "unat (drop_bit 4 (b :: byte)) < 16" "unat (b AND 0x0f) < 16" "push_bit 4 (drop_bit 4 b) OR (b AND 0x0f) = b"
proof -
  show "unat (drop_bit 4 b) < 16"
    using unsigned_less [where ?'a = nat, of b] by (simp add: drop_bit_eq_div unat_div less_mult_imp_div_less)
  have m: "b AND 0x0f = take_bit 4 b" by (simp add: take_bit_eq_mask mask_eq_exp_minus_1)
  then show "unat (b AND 0x0f) < 16"
    using take_bit_nat_less_exp [of 4 "unat b"] by (simp add: unsigned_take_bit_eq)
  show "push_bit 4 (drop_bit 4 b) OR (b AND 0x0f) = b"
    unfolding m by (rule bit_word_eqI) (auto simp: bit_simps)
qed

lemma hex_nibble_digit: "n < 16 \<Longrightarrow> hex_nibble (hex_digits ! n) = Some (of_nat n)"
proof -
  assume "n < 16"
  then have "n \<in> {0, 1, 2, 3, 4, 5, 6, 7, 8, 9, 10, 11, 12, 13, 14, 15}" by (simp; presburger)
  then show ?thesis by (auto simp: hex_nibble_def hex_digits_def)
qed

lemma hex_nibble_byte [simp]:
  "hex_nibble (hex_digits ! unat (drop_bit 4 (b :: byte))) = Some (drop_bit 4 b)"
  "hex_nibble (hex_digits ! unat (b AND 0x0f)) = Some (b AND 0x0f)"
  using hex_nibble_digit [OF nibbles_of_byte(1), of b] hex_nibble_digit [OF nibbles_of_byte(2), of b] by simp_all

lemma enc_hex_pairs_hex [simp]: "enc_hex_pairs (bytes_hex bs) = Some bs"
  by (induction bs) (simp_all add: nibbles_of_byte(3))

lemma bytes_hex_nth:
  "i < length bs \<Longrightarrow> bytes_hex bs ! (i * 2) = hex_digits ! unat (drop_bit 4 (bs ! i)) \<and>
     bytes_hex bs ! (i * 2 + 1) = hex_digits ! unat (bs ! i AND 0x0f)"
proof (induction bs arbitrary: i)
  case (Cons b bs)
  then show ?case by (cases i) simp_all
qed simp

lemma bytes_hex_digits: "list_all (\<lambda>c. hex_nibble c \<noteq> None) (bytes_hex bs)"
  by (induction bs) simp_all

lemma bytes_hex_no_quote: "quote \<notin> set (bytes_hex bs)"
proof -
  have "hex_nibble quote = None" by (simp add: hex_nibble_def)
  then show ?thesis using bytes_hex_digits [of bs] by (auto simp: list_all_iff)
qed

section \<open>Properties\<close>

text \<open>
  A key of 32 bytes given in hexadecimal is the key the cipher holds, and anything that is not 64
  hexadecimal digits gives no cipher.
\<close>

theorem cipher_key_round_trip:
  assumes "length key = CIPHER_KEY_BYTES" "\<not> (length bad = 64 \<and> list_all (\<lambda>c. hex_nibble c \<noteq> None) bad)"
  shows "otsardb_cipher_create_from_hex (bytes_hex key) = Some \<lparr>ci_key = key\<rparr> \<and>
    otsardb_cipher_create_from_hex bad = None"
proof
  have pair: "push_bit 4 (the (hex_nibble (bytes_hex key ! (i * 2)))) OR the (hex_nibble (bytes_hex key ! (i * 2 + 1))) = key ! i"
    if "i < length key" for i
    using bytes_hex_nth [OF that] by (simp add: nibbles_of_byte(3))
  have "map (\<lambda>i. push_bit 4 (the (hex_nibble (bytes_hex key ! (i * 2)))) OR the (hex_nibble (bytes_hex key ! (i * 2 + 1))))
      [0..<CIPHER_KEY_BYTES] = key"
    using assms(1) pair by (intro nth_equalityI) simp_all
  then show "otsardb_cipher_create_from_hex (bytes_hex key) = Some \<lparr>ci_key = key\<rparr>"
    using assms(1) bytes_hex_digits [of key]
    by (simp add: otsardb_cipher_create_from_hex_def otsardb_cipher_valid_hex_key_def otsardb_cipher_create_def
        CIPHER_KEY_HEX_LEN_def CIPHER_KEY_BYTES_def)
  show "otsardb_cipher_create_from_hex bad = None"
    using assms(2) by (simp add: otsardb_cipher_create_from_hex_def otsardb_cipher_valid_hex_key_def CIPHER_KEY_HEX_LEN_def)
qed

theorem cipher_key_round_trip_witness:
  "otsardb_cipher_create_from_hex (bytes_hex (replicate 32 171)) = Some \<lparr>ci_key = replicate 32 171\<rparr> \<and>
   otsardb_cipher_create_from_hex ''00ff'' = None"
  using cipher_key_round_trip [of "replicate 32 171" "''00ff''"] by (simp add: CIPHER_KEY_BYTES_def)

text \<open>
  (C17) Encrypting a segment in the two phases of the publisher, first the ciphertext stream and then, once
  the associated data is known, the envelope with the vector of the first phase, gives an envelope
  that holds exactly the stream, 28 bytes longer than the segment.  It decrypts to the segment, and
  with any other 16 bytes in the place of its tag it is refused.
\<close>

theorem envelope_authenticated:
  assumes "length (ci_key c) = CIPHER_KEY_BYTES" "length iv = CIPHER_IV_BYTES"
    "length pt \<le> int_max" "length aad \<le> int_max" "length tag' = CIPHER_TAG_BYTES"
  shows "\<exists>stream env tag. otsardb_cipher_encrypt_stream pure_enc (Some iv) c pt = Some (iv, stream) \<and>
    otsardb_cipher_encrypt_with_aad pure_enc c iv aad pt = Some (env, tag) \<and>
    env = iv @ stream @ tag \<and> length env = length pt + CIPHER_OVERHEAD \<and>
    otsardb_cipher_decrypt pure_dec c env aad = Some pt \<and>
    otsardb_cipher_decrypt pure_dec c (iv @ stream @ tag') aad = (if tag' = tag then Some pt else None)"
proof -
  have small: "\<not> length pt > int_max" "\<not> length aad > int_max" "\<not> length pt > size_max - CIPHER_OVERHEAD"
    using assms(3,4) by (simp_all add: int_max_def size_max_def CIPHER_OVERHEAD_def CIPHER_IV_BYTES_def CIPHER_TAG_BYTES_def)
  obtain stream where s: "otsardb_cipher_encrypt_stream pure_enc (Some iv) c pt = Some (iv, stream)"
    using small(1) by (cases "otsardb_aes_gcm_pure_encrypt (ci_key c) iv [] pt")
      (simp add: otsardb_cipher_encrypt_stream_def pure_enc_def)
  obtain env tag where e: "otsardb_cipher_encrypt_with_aad pure_enc c iv aad pt = Some (env, tag)"
    using small by (cases "otsardb_aes_gcm_pure_encrypt (ci_key c) iv aad pt")
      (simp add: otsardb_cipher_encrypt_with_aad_def pure_enc_def)
  have env: "env = iv @ stream @ tag" by (rule pure_gcm.stream_of_envelope [OF assms(1,2) s e])
  have len: "length tag = CIPHER_TAG_BYTES" "length stream = length pt"
    using pure_gcm.envelope_parts [OF assms(1,2) e] env by auto
  have "take (length env - CIPHER_TAG_BYTES) env = iv @ stream" using len by (simp add: env)
  then have d: "otsardb_cipher_decrypt pure_dec c (iv @ stream @ t) aad = (if t = tag then Some pt else None)"
    if "length t = CIPHER_TAG_BYTES" for t
    using pure_gcm.decrypt_envelope [OF assms(1,2) e that] by simp
  show ?thesis using s e env len d [OF len(1)] d [OF assms(5)] assms(2) by (auto simp: CIPHER_OVERHEAD_def)
qed

theorem envelope_authenticated_witness:
  "\<exists>stream env tag. otsardb_cipher_encrypt_stream pure_enc (Some (replicate 12 7)) \<lparr>ci_key = replicate 32 1\<rparr> [5] =
      Some (replicate 12 7, stream) \<and>
    otsardb_cipher_encrypt_with_aad pure_enc \<lparr>ci_key = replicate 32 1\<rparr> (replicate 12 7) [9] [5] = Some (env, tag) \<and>
    length env = 29 \<and> otsardb_cipher_decrypt pure_dec \<lparr>ci_key = replicate 32 1\<rparr> env [9] = Some [5]"
  using envelope_authenticated [of "\<lparr>ci_key = replicate 32 1\<rparr>" "replicate 12 7" "[5]" "[9]" "replicate 16 0"]
  by (auto simp: CIPHER_KEY_BYTES_def CIPHER_IV_BYTES_def CIPHER_TAG_BYTES_def CIPHER_OVERHEAD_def int_max_def)

end
