(* ===== verification/Commit_Publish.thy ===== *)
theory Commit_Publish
  imports Segment Cipher
begin

text \<open>
  Publishing a commit, the first half of \<open>src/storage/commit_publish.c\<close>: the segments are uploaded as
  immutable objects, then the manifest that names them, and only then HEAD is moved to the manifest.
  What a commit takes from outside, the digest, the compressor, the authenticated cipher, the random
  vectors and the cipher of the session, is the record \<open>publish_env\<close>.  The check of the write
  strategy against other integers and null payloads with a nonzero size have no counterpart in the
  types.
\<close>

section \<open>Requests and results\<close>

datatype write_strategy = STRATEGY_DEFAULT | STRATEGY_CAS | STRATEGY_SINGLE_WRITER

text \<open>A null page array is \<open>None\<close>, an unknown page set.\<close>

record segment_input =
  si_payload :: bytes
  si_pages :: "u32 list option"

record commit_request =
  rq_database_root :: string
  rq_database_id :: string
  rq_commit_id :: string
  rq_parent_commit_id :: "string option"
  rq_parent_manifest_sha256 :: "string option"
  rq_parent_generation :: u64
  rq_page_size :: u32
  rq_database_size_pages :: u64
  rq_segment_payload :: "bytes option"
  rq_segments :: "segment_input list option"
  rq_segment_count :: u32
  rq_post_apply_checksum :: "string option"
  rq_expected_head_etag :: "string option"
  rq_create_head_if_missing :: bool
  rq_write_strategy :: write_strategy
  rq_cipher :: "cipher option"

record commit_result =
  cr_head :: head
  cr_manifest :: commit_manifest
  cr_head_etag :: string

text \<open>Code outside the component; \<open>pe_entropy i\<close> is what the random generator gives for segment \<open>i\<close>.\<close>

record publish_env =
  pe_sha :: "bytes \<Rightarrow> bytes"
  pe_lz4c :: lz4_compress
  pe_gcm :: gcm_encrypt
  pe_entropy :: "nat \<Rightarrow> bytes option"
  pe_thread_cipher :: "cipher option"

section \<open>Immutable objects\<close>

definition root_join :: "string \<Rightarrow> string \<Rightarrow> nat \<Rightarrow> string option" where
  "root_join root name out_size = snprintf_fits (join_root root name) out_size"

definition existing_object_matches ::
  "'w object_store \<Rightarrow> 'w \<Rightarrow> string \<Rightarrow> bytes \<Rightarrow> journal_result \<times> 'w" where
  "existing_object_matches store w key data =
     (case otsardb_store_get store w key of (rc, existing, w') \<Rightarrow>
        if rc = STORE_NOT_FOUND then (JOURNAL_NOT_FOUND, w')
        else if rc \<noteq> STORE_OK then (JOURNAL_ERROR, w')
        else if length (so_data existing) = length data \<and> so_data existing = data then (JOURNAL_OK, w')
        else (JOURNAL_CONFLICT, w'))"

definition resolve_timeout ::
  "'w object_store \<Rightarrow> 'w \<Rightarrow> string \<Rightarrow> bytes \<Rightarrow> journal_result \<times> 'w" where
  "resolve_timeout store w key data =
     (case existing_object_matches store w key data of (resolved, w') \<Rightarrow>
        (if resolved = JOURNAL_NOT_FOUND then JOURNAL_AMBIGUOUS else resolved, w'))"

definition immutable_put :: "'w object_store \<Rightarrow> 'w \<Rightarrow> string \<Rightarrow> bytes \<Rightarrow> journal_result \<times> 'w" where
  "immutable_put store w key data =
     (if otsardb_store_supports store STORE_CAP_CONDITIONAL_CREATE then
        (case otsardb_store_put store w key data (no_options\<lparr>po_if_none_match := True\<rparr>) of (rc, _, w') \<Rightarrow>
           if rc = STORE_OK then (JOURNAL_OK, w')
           else if rc = STORE_PRECONDITION_FAILED then existing_object_matches store w' key data
           else if rc = STORE_TIMEOUT then resolve_timeout store w' key data
           else if rc = STORE_UNSUPPORTED then (JOURNAL_UNSUPPORTED, w')
           else (JOURNAL_ERROR, w'))
      else case existing_object_matches store w key data of (existing, w1) \<Rightarrow>
        if existing = JOURNAL_OK \<or> existing = JOURNAL_CONFLICT then (existing, w1)
        else if existing \<noteq> JOURNAL_NOT_FOUND then (existing, w1)
        else (case otsardb_store_put store w1 key data no_options of (rc, _, w') \<Rightarrow>
           if rc = STORE_OK then (JOURNAL_OK, w')
           else if rc = STORE_TIMEOUT then resolve_timeout store w' key data
           else if rc = STORE_UNSUPPORTED then (JOURNAL_UNSUPPORTED, w')
           else (JOURNAL_ERROR, w')))"

section \<open>Checks on the request\<close>

definition effective_strategy :: "commit_request \<Rightarrow> write_strategy" where
  "effective_strategy rq =
     (if rq_write_strategy rq = STRATEGY_DEFAULT then STRATEGY_CAS else rq_write_strategy rq)"

definition valid_parent_request :: "commit_request \<Rightarrow> bool" where
  "valid_parent_request rq \<longleftrightarrow>
     (if rq_create_head_if_missing rq then
        rq_parent_generation rq = 0 \<and>
        (rq_parent_commit_id rq = None \<or> rq_parent_commit_id rq = Some []) \<and>
        (rq_parent_manifest_sha256 rq = None \<or> rq_parent_manifest_sha256 rq = Some [])
      else rq_parent_generation rq > 0 \<and>
        (case rq_parent_commit_id rq of None \<Rightarrow> False | Some i \<Rightarrow> i \<noteq> []) \<and>
        (case rq_parent_manifest_sha256 rq of None \<Rightarrow> False | Some s \<Rightarrow> length s = MANIFEST_SHA256_HEX_SIZE))"

definition validate_single_writer_parent ::
  "'w object_store \<Rightarrow> 'w \<Rightarrow> commit_request \<Rightarrow> journal_result \<times> 'w" where
  "validate_single_writer_parent store w rq =
     (case otsardb_journal_read_head store w (rq_database_root rq) of (rc, res, w') \<Rightarrow>
        if rq_create_head_if_missing rq then
          (if rc = JOURNAL_NOT_FOUND then JOURNAL_OK
           else if rc = JOURNAL_OK then JOURNAL_CONFLICT else rc, w')
        else case res of
          None \<Rightarrow> (rc, w')
        | Some (current, etag) \<Rightarrow>
            if hd_database_id current \<noteq> rq_database_id rq \<or>
               hd_generation current \<noteq> rq_parent_generation rq \<or>
               Some (hd_commit_id current) \<noteq> rq_parent_commit_id rq \<or>
               Some (hd_commit_sha256 current) \<noteq> rq_parent_manifest_sha256 rq
            then (JOURNAL_CONFLICT, w') else (JOURNAL_OK, w'))"

text \<open>The single payload of the older interface is one segment with an unknown page set.\<close>

definition resolve_segment_inputs :: "commit_request \<Rightarrow> segment_input list option" where
  "resolve_segment_inputs rq =
     (case rq_segments rq of
        Some segments \<Rightarrow>
          if rq_segment_payload rq \<noteq> None then None
          else Some (take (unat (rq_segment_count rq)) segments)
      | None \<Rightarrow>
          (case rq_segment_payload rq of
             Some payload \<Rightarrow>
               if rq_segment_count rq \<noteq> 0 then None
               else Some [\<lparr>si_payload = payload, si_pages = None\<rparr>]
           | None \<Rightarrow> None))"

definition valid_page_input :: "u32 list \<Rightarrow> bool" where
  "valid_page_input pages \<longleftrightarrow>
     list_all (\<lambda>i. \<not> (pages ! i = 0) \<and> \<not> (i > 0 \<and> pages ! i \<le> pages ! (i - 1))) [0..<length pages]"

definition valid_segment_input :: "segment_input \<Rightarrow> bool" where
  "valid_segment_input s \<longleftrightarrow> (case si_pages s of None \<Rightarrow> True | Some pages \<Rightarrow> valid_page_input pages)"

section \<open>Encryption\<close>

definition segment_aad_build :: "string \<Rightarrow> string \<Rightarrow> bytes option" where
  "segment_aad_build absolute_key commit_id =
     (if length absolute_key > size_max - length commit_id - 2 then None
      else Some (bytes_of_string (absolute_key @ CHR 0x0A # commit_id)))"

definition segment_suffix :: "string \<Rightarrow> string" where
  "segment_suffix hash = ''segments/sha256/'' @ take 2 hash @ ''/'' @ hash @ ''.otsseg''"

definition segment_encrypt_envelope ::
  "publish_env \<Rightarrow> nat \<Rightarrow> cipher \<Rightarrow> string \<Rightarrow> string \<Rightarrow> bytes \<Rightarrow> (bytes \<times> segment_enc \<times> string) option" where
  "segment_encrypt_envelope env i c root commit_id data =
     do { (iv, stream) \<leftarrow> otsardb_cipher_encrypt_stream (pe_gcm env) (pe_entropy env i) c data;
          let key_hex = otsardb_sha256_hex (pe_sha env (iv @ stream));
          name \<leftarrow> snprintf_fits (segment_suffix key_hex) (KEY_MAX + 1);
          absolute_key \<leftarrow> root_join root name (KEY_MAX + 1);
          aad \<leftarrow> segment_aad_build absolute_key commit_id;
          (envelope, tag) \<leftarrow> otsardb_cipher_encrypt_with_aad (pe_gcm env) c iv aad data;
          Some (envelope, \<lparr>en_alg = CIPHER_ALG_NAME, en_iv = iv, en_tag = tag\<rparr>, key_hex) }"

definition enc_entry_text :: "segment_enc \<Rightarrow> string" where
  "enc_entry_text e =
     ''{'' @ json_str ''alg'' (en_alg e) @ '','' @ json_str ''iv'' (bytes_hex (en_iv e)) @ '','' @
     json_str ''tag'' (bytes_hex (en_tag e)) @ ''}''"

definition enc_entry_json_size :: "segment_enc option \<Rightarrow> nat" where
  "enc_entry_json_size entry = (case entry of None \<Rightarrow> 2 | Some e \<Rightarrow> length (enc_entry_text e))"

definition enc_entry_json_write :: "nat \<Rightarrow> segment_enc option \<Rightarrow> string option" where
  "enc_entry_json_write room entry =
     (case entry of
        None \<Rightarrow> if room < 3 then None else Some ''{}''
      | Some e \<Rightarrow> snprintf_fits (enc_entry_text e) room)"

fun enc_array_size :: "segment_enc option list \<Rightarrow> nat" where
  "enc_array_size [] = 0"
| "enc_array_size [e] = enc_entry_json_size e"
| "enc_array_size (e # d # es) = enc_entry_json_size e + 1 + enc_array_size (d # es)"

text \<open>Writing the entries behind the text \<open>out\<close> in a buffer of \<open>new_size\<close> bytes.\<close>

fun enc_array_write :: "nat \<Rightarrow> bool \<Rightarrow> segment_enc option list \<Rightarrow> string \<Rightarrow> string option" where
  "enc_array_write new_size first [] out = Some out"
| "enc_array_write new_size first (e # es) out =
     (let out = (if first then out else out @ '','') in
      (case enc_entry_json_write (new_size - length out) e of
         None \<Rightarrow> None
       | Some s \<Rightarrow> enc_array_write new_size False es (out @ s)))"

definition drop_newlines :: "string \<Rightarrow> nat" where
  "drop_newlines s = length (dropWhile (\<lambda>c. c = CHR 0x0A) (rev s))"

definition manifest_inject_segment_enc ::
  "(bytes \<Rightarrow> bytes) \<Rightarrow> string \<Rightarrow> segment_enc option list \<Rightarrow> (string \<times> string) option" where
  "manifest_inject_segment_enc sha json entries =
     (let header = '','' @ segment_enc_marker;
          inject_bytes = length header + enc_array_size entries + 1;
          closing = drop_newlines json in
      if closing = 0 \<or> json ! (closing - 1) \<noteq> CHR ''}'' then None
      else let new_size = length json + inject_bytes in
        if new_size > int_max then None
        else do { out \<leftarrow> enc_array_write new_size True entries (take (closing - 1) json @ header);
                  let out = out @ '']'' @ drop (closing - 1) json;
                  Some (out, otsardb_sha256_hex_data sha (bytes_of_string out)) })"

definition request_cipher :: "publish_env \<Rightarrow> commit_request \<Rightarrow> cipher option" where
  "request_cipher env rq = (case rq_cipher rq of Some c \<Rightarrow> Some c | None \<Rightarrow> pe_thread_cipher env)"

section \<open>Publishing\<close>

definition segment_bytes ::
  "publish_env \<Rightarrow> commit_request \<Rightarrow> nat \<Rightarrow> segment_input \<Rightarrow>
   (bytes \<times> string \<times> string \<times> segment_frame_info \<times> segment_enc option) option" where
  "segment_bytes env rq i input =
     do { (data, sha256, frames) \<leftarrow>
            otsardb_segment_encode_with_frames (pe_sha env) (pe_lz4c env) segment_wal_frames (rq_commit_id rq)
              (si_payload input) True;
          case request_cipher env rq of
            None \<Rightarrow> Some (data, sha256, sha256, frames, None)
          | Some c \<Rightarrow>
              do { (envelope, entry, key_hex) \<leftarrow>
                     segment_encrypt_envelope env i c (rq_database_root rq) (rq_commit_id rq) data;
                   Some (envelope, otsardb_sha256_hex_data (pe_sha env) envelope, key_hex, frames, Some entry) } }"

definition recorded_offsets :: "segment_enc option \<Rightarrow> segment_input \<Rightarrow> segment_frame_info \<Rightarrow> u64 list option" where
  "recorded_offsets entry input frames =
     (case (entry, si_pages input) of
        (None, Some pages) \<Rightarrow>
          if fi_page_nos frames = pages \<and> fi_offsets frames \<noteq> [] then Some (map of_nat (fi_offsets frames)) else None
      | _ \<Rightarrow> None)"

definition publish_segment ::
  "publish_env \<Rightarrow> 'w object_store \<Rightarrow> 'w \<Rightarrow> commit_request \<Rightarrow> nat \<Rightarrow> segment_input \<Rightarrow>
   (journal_result + manifest_segment_ref \<times> segment_enc option) \<times> 'w" where
  "publish_segment env store w rq i input =
     (case segment_bytes env rq i input of
        None \<Rightarrow> (Inl JOURNAL_ERROR, w)
      | Some (data, sha256, key_hash, frames, entry) \<Rightarrow>
     (case snprintf_fits (segment_suffix key_hash) (KEY_MAX + 1) of
        None \<Rightarrow> (Inl JOURNAL_INVALID, w)
      | Some name \<Rightarrow>
     (case root_join (rq_database_root rq) name (KEY_MAX + 1) of
        None \<Rightarrow> (Inl JOURNAL_INVALID, w)
      | Some key \<Rightarrow>
     (case immutable_put store w key data of (rc, w') \<Rightarrow>
        if rc \<noteq> JOURNAL_OK then (Inl rc, w')
        else if length name = 0 \<or> length name \<ge> MANIFEST_SEGMENT_KEY_MAX + 1 then (Inl JOURNAL_INVALID, w')
        else (Inr (\<lparr>sg_key = name, sg_sha256 = sha256, sg_size = of_nat (length data),
                    sg_pages = (case si_pages input of None \<Rightarrow> [] | Some pages \<Rightarrow> pages),
                    sg_frame_offsets = recorded_offsets entry input frames\<rparr>, entry), w')))))"

fun publish_segments ::
  "publish_env \<Rightarrow> 'w object_store \<Rightarrow> 'w \<Rightarrow> commit_request \<Rightarrow> nat \<Rightarrow> segment_input list \<Rightarrow>
   (journal_result + (manifest_segment_ref \<times> segment_enc option) list) \<times> 'w" where
  "publish_segments env store w rq i [] = (Inr [], w)"
| "publish_segments env store w rq i (input # inputs) =
     (case publish_segment env store w rq i input of
        (Inl rc, w') \<Rightarrow> (Inl rc, w')
      | (Inr s, w') \<Rightarrow>
          (case publish_segments env store w' rq (Suc i) inputs of
             (Inl rc, w'') \<Rightarrow> (Inl rc, w'')
           | (Inr ss, w'') \<Rightarrow> (Inr (s # ss), w'')))"

definition string_or_empty :: "string option \<Rightarrow> string" where
  "string_or_empty s = (case s of None \<Rightarrow> [] | Some s \<Rightarrow> s)"

definition request_manifest :: "commit_request \<Rightarrow> manifest_segment_ref list \<Rightarrow> commit_manifest" where
  "request_manifest rq refs =
     \<lparr>cm_format_version = COMMIT_MANIFEST_VERSION,
      cm_generation = rq_parent_generation rq + 1,
      cm_parent_generation = rq_parent_generation rq,
      cm_page_size = rq_page_size rq,
      cm_database_size_pages = rq_database_size_pages rq,
      cm_database_id = take MANIFEST_ID_MAX (rq_database_id rq),
      cm_commit_id = take MANIFEST_ID_MAX (rq_commit_id rq),
      cm_parent_commit_id = take MANIFEST_ID_MAX (string_or_empty (rq_parent_commit_id rq)),
      cm_parent_manifest_sha256 = take MANIFEST_SHA256_HEX_SIZE (string_or_empty (rq_parent_manifest_sha256 rq)),
      cm_segments = refs,
      cm_post_apply_checksum = take 16 (string_or_empty (rq_post_apply_checksum rq))\<rparr>"

definition manifest_bytes ::
  "publish_env \<Rightarrow> commit_request \<Rightarrow> (manifest_segment_ref \<times> segment_enc option) list \<Rightarrow> (string \<times> string) option" where
  "manifest_bytes env rq segs =
     do { (json, hash) \<leftarrow> otsardb_commit_manifest_encode_json (pe_sha env) (request_manifest rq (map fst segs));
          if list_ex (\<lambda>s. snd s \<noteq> None) segs
          then manifest_inject_segment_enc (pe_sha env) json (map snd segs)
          else Some (json, hash) }"

definition commit_name :: "string \<Rightarrow> string" where
  "commit_name commit_id = ''commits/'' @ commit_id @ ''.json''"

definition request_head :: "commit_request \<Rightarrow> string \<Rightarrow> string \<Rightarrow> head" where
  "request_head rq manifest_key manifest_sha256 =
     \<lparr>hd_format_version = 1, hd_generation = rq_parent_generation rq + 1,
      hd_database_id = take COMMIT_ID_MAX (rq_database_id rq),
      hd_commit_id = take COMMIT_ID_MAX (rq_commit_id rq),
      hd_commit_key = take KEY_MAX manifest_key,
      hd_commit_sha256 = take SHA256_HEX_MAX manifest_sha256\<rparr>"

definition publish_head_step ::
  "'w object_store \<Rightarrow> 'w \<Rightarrow> commit_request \<Rightarrow> head \<Rightarrow> journal_result \<times> string option \<times> 'w" where
  "publish_head_step store w rq h =
     (if effective_strategy rq = STRATEGY_CAS then
        otsardb_journal_publish_head store w (rq_database_root rq) h (rq_expected_head_etag rq)
          (rq_create_head_if_missing rq)
      else otsardb_journal_publish_head_unconditional store w (rq_database_root rq) h)"

definition request_valid :: "commit_request \<Rightarrow> segment_input list option \<Rightarrow> bool" where
  "request_valid rq inputs \<longleftrightarrow>
     \<not> (rq_commit_id rq = [] \<or> rq_page_size rq = 0 \<or> inputs = None \<or>
        length (the inputs) = 0 \<or> length (the inputs) > MANIFEST_MAX_SEGMENTS \<or>
        length (rq_database_id rq) > COMMIT_ID_MAX \<or> length (rq_commit_id rq) > COMMIT_ID_MAX \<or>
        length (string_or_empty (rq_parent_commit_id rq)) > COMMIT_ID_MAX \<or> \<not> valid_parent_request rq)"

text \<open>The checks against the capabilities of the store, and the parent check of a single writer.\<close>

definition strategy_check :: "'w object_store \<Rightarrow> 'w \<Rightarrow> commit_request \<Rightarrow> journal_result \<times> 'w" where
  "strategy_check store w rq =
     (if effective_strategy rq = STRATEGY_CAS then
        (if rq_create_head_if_missing rq then
           (if \<not> otsardb_store_supports store STORE_CAP_CONDITIONAL_CREATE then JOURNAL_UNSUPPORTED
            else if rq_expected_head_etag rq \<noteq> None then JOURNAL_INVALID else JOURNAL_OK)
         else if \<not> otsardb_store_supports store STORE_CAP_CONDITIONAL_UPDATE then JOURNAL_UNSUPPORTED
         else if rq_expected_head_etag rq = None then JOURNAL_INVALID else JOURNAL_OK, w)
      else if rq_expected_head_etag rq \<noteq> None then (JOURNAL_INVALID, w)
      else validate_single_writer_parent store w rq)"

definition publish_manifest ::
  "publish_env \<Rightarrow> 'w object_store \<Rightarrow> 'w \<Rightarrow> commit_request \<Rightarrow> (manifest_segment_ref \<times> segment_enc option) list \<Rightarrow>
   journal_result \<times> commit_result option \<times> 'w" where
  "publish_manifest env store w rq segs =
     (case manifest_bytes env rq segs of
        None \<Rightarrow> (JOURNAL_ERROR, None, w)
      | Some (json, hash) \<Rightarrow>
     (case snprintf_fits (commit_name (rq_commit_id rq)) (KEY_MAX + 1) of
        None \<Rightarrow> (JOURNAL_INVALID, None, w)
      | Some name \<Rightarrow>
     (case root_join (rq_database_root rq) name (KEY_MAX + 1) of
        None \<Rightarrow> (JOURNAL_INVALID, None, w)
      | Some key \<Rightarrow>
     (case immutable_put store w key (bytes_of_string json) of (rc, w1) \<Rightarrow>
        if rc \<noteq> JOURNAL_OK then (rc, None, w1)
        else let h = request_head rq key hash in
          (case publish_head_step store w1 rq h of (rc, etag, w2) \<Rightarrow>
             if rc \<noteq> JOURNAL_OK then (rc, None, w2)
             else (JOURNAL_OK,
                   Some \<lparr>cr_head = h,
                         cr_manifest = request_manifest rq (map (\<lambda>s. (fst s)\<lparr>sg_frame_offsets := None\<rparr>) segs),
                         cr_head_etag = take 127 (string_or_empty etag)\<rparr>, w2))))))"

definition otsardb_publish_commit ::
  "publish_env \<Rightarrow> 'w object_store \<Rightarrow> 'w \<Rightarrow> commit_request \<Rightarrow> journal_result \<times> commit_result option \<times> 'w" where
  "otsardb_publish_commit env store w rq =
     (let inputs = resolve_segment_inputs rq in
      if \<not> request_valid rq inputs then (JOURNAL_INVALID, None, w)
      else if \<not> list_all valid_segment_input (the inputs) then (JOURNAL_INVALID, None, w)
      else case strategy_check store w rq of (rc, w1) \<Rightarrow>
        if rc \<noteq> JOURNAL_OK then (rc, None, w1)
        else (case publish_segments env store w1 rq 0 (the inputs) of
           (Inl rc, w2) \<Rightarrow> (rc, None, w2)
         | (Inr segs, w2) \<Rightarrow> publish_manifest env store w2 rq segs))"

section \<open>Immutability\<close>

definition holds_data :: "(string \<rightharpoonup> store_object) \<Rightarrow> string \<Rightarrow> bytes \<Rightarrow> bool" where
  "holds_data contents key data \<longleftrightarrow> (\<exists>ob. contents key = Some ob \<and> so_data ob = data)"

lemma holds_data_mono: "holds_data m k d \<Longrightarrow> m \<subseteq>\<^sub>m m' \<Longrightarrow> holds_data m' k d"
  unfolding holds_data_def map_le_def by (metis domI)

lemma map_le_created: "m k = None \<Longrightarrow> m \<subseteq>\<^sub>m m(k \<mapsto> x)"
  by (auto simp: map_le_def)

lemma join_root_inject [simp]: "join_root root a = join_root root b \<longleftrightarrow> a = b"
  by (simp add: join_root_def)

context object_store_laws
begin

lemma existing_object_matches_law:
  assumes "existing_object_matches store w key data = (rc, w')" "valid w"
  shows "valid w' \<and> objs w' = objs w \<and> (rc = JOURNAL_OK \<longrightarrow> holds_data (objs w) key data) \<and>
    (rc = JOURNAL_NOT_FOUND \<longrightarrow> objs w key = None)"
proof -
  obtain src ob w2 where get: "otsardb_store_get store w key = (src, ob, w2)" by (cases "otsardb_store_get store w key")
  from get_law [OF get assms(2)] assms(1) get show ?thesis
    by (auto simp: existing_object_matches_def holds_data_def split: if_splits)
qed

lemma resolve_timeout_law:
  assumes "resolve_timeout store w key data = (rc, w')" "valid w"
  shows "valid w' \<and> objs w' = objs w \<and> (rc = JOURNAL_OK \<longrightarrow> holds_data (objs w) key data)"
proof -
  obtain r w2 where m: "existing_object_matches store w key data = (r, w2)" by (cases "existing_object_matches store w key data")
  from existing_object_matches_law [OF m assms(2)] assms(1) m show ?thesis
    by (auto simp: resolve_timeout_def split: if_splits)
qed

text \<open>An unconditional write of an absent object, or a conditional creation.\<close>

lemma creating_put_law:
  assumes "otsardb_store_put store w key data options = (src, etag, w')" "valid w"
    "po_if_none_match options \<or> objs w key = None"
  shows "valid w' \<and> objs w \<subseteq>\<^sub>m objs w' \<and> (\<forall>k. k \<noteq> key \<longrightarrow> objs w' k = objs w k) \<and>
    (src = STORE_OK \<longrightarrow> holds_data (objs w') key data)"
proof -
  note law = put_law [OF assms(1,2)]
  have absent: "put_allowed options (objs w key) \<Longrightarrow> objs w key = None"
    using assms(3) by (auto simp: put_allowed_def)
  have "objs w \<subseteq>\<^sub>m objs w' \<and> (\<forall>k. k \<noteq> key \<longrightarrow> objs w' k = objs w k)"
    using put_cases [OF assms(1,2)] absent map_le_created [of "objs w" key] by auto
  with law show ?thesis unfolding put_stored_def holds_data_def by (metis fun_upd_same)
qed

lemma immutable_put_law:
  assumes "immutable_put store w key data = (rc, w')" "valid w"
  shows "valid w' \<and> objs w \<subseteq>\<^sub>m objs w' \<and> (\<forall>k. k \<noteq> key \<longrightarrow> objs w' k = objs w k) \<and>
    (rc = JOURNAL_OK \<longrightarrow> holds_data (objs w') key data)"
proof -
  let ?create = "no_options\<lparr>po_if_none_match := True\<rparr>"
  have settle: "valid w' \<and> objs w \<subseteq>\<^sub>m objs w' \<and> (\<forall>k. k \<noteq> key \<longrightarrow> objs w' k = objs w k) \<and>
      (rc = JOURNAL_OK \<longrightarrow> holds_data (objs w') key data)"
    if put: "otsardb_store_put store w1 key data options = (src, e, w2)" "valid w1" "objs w1 = objs w"
      "po_if_none_match options \<or> objs w1 key = None"
      and rest: "if src = STORE_OK then (rc, w') = (JOURNAL_OK, w2)
        else (rc, w') = existing_object_matches store w2 key data \<or> (rc, w') = resolve_timeout store w2 key data \<or>
          w' = w2 \<and> rc \<noteq> JOURNAL_OK" for w1 options src e w2
  proof -
    note law = creating_put_law [OF put(1,2,4)]
    show ?thesis
    proof (cases "src = STORE_OK")
      case True
      then show ?thesis using law rest put(3) by simp
    next
      case False
      then consider "existing_object_matches store w2 key data = (rc, w')" | "resolve_timeout store w2 key data = (rc, w')"
        | "w' = w2" "rc \<noteq> JOURNAL_OK" using rest by fastforce
      then show ?thesis
        using law put(3) existing_object_matches_law [of w2 key data rc w'] resolve_timeout_law [of w2 key data rc w']
        by cases simp_all
    qed
  qed
  show ?thesis
  proof (cases "otsardb_store_supports store STORE_CAP_CONDITIONAL_CREATE")
    case True
    obtain src e w2 where put: "otsardb_store_put store w key data ?create = (src, e, w2)"
      by (cases "otsardb_store_put store w key data ?create")
    show ?thesis
      using assms(1) True put by (intro settle [OF put assms(2) refl]) (auto simp: immutable_put_def split: if_splits)
  next
    case False
    obtain r w1 where m: "existing_object_matches store w key data = (r, w1)"
      by (cases "existing_object_matches store w key data")
    note same = existing_object_matches_law [OF m assms(2)]
    obtain src e w2 where put: "otsardb_store_put store w1 key data no_options = (src, e, w2)"
      by (cases "otsardb_store_put store w1 key data no_options")
    show ?thesis
    proof (cases "r = JOURNAL_NOT_FOUND")
      case True
      with same put assms(1) m False show ?thesis
        by (intro settle [OF put]) (auto simp: immutable_put_def split: if_splits)
    next
      case r: False
      then have "rc = r" "w' = w1" using assms(1) m False by (auto simp: immutable_put_def split: if_splits)
      with same show ?thesis by simp
    qed
  qed
qed

end

section \<open>Durability\<close>

text \<open>The object a manifest refers to is in the store, with the size and the digest the manifest records.\<close>

definition segment_durable :: "(bytes \<Rightarrow> bytes) \<Rightarrow> (string \<rightharpoonup> store_object) \<Rightarrow> string \<Rightarrow> manifest_segment_ref \<Rightarrow> bool" where
  "segment_durable sha contents root ref \<longleftrightarrow>
     (\<exists>data. holds_data contents (join_root root (sg_key ref)) data \<and>
       otsardb_sha256_hex_data sha data = sg_sha256 ref \<and> of_nat (length data) = sg_size ref)"

definition manifest_durable ::
  "publish_env \<Rightarrow> (string \<rightharpoonup> store_object) \<Rightarrow> commit_request \<Rightarrow> string \<Rightarrow> string \<Rightarrow> bool" where
  "manifest_durable env contents rq key hash \<longleftrightarrow>
     (\<exists>segs json. length segs = length (the (resolve_segment_inputs rq)) \<and>
       manifest_bytes env rq segs = Some (json, hash) \<and>
       key = join_root (rq_database_root rq) (commit_name (rq_commit_id rq)) \<and>
       holds_data contents key (bytes_of_string json) \<and> 
       list_all (\<lambda>s. segment_durable (pe_sha env) contents (rq_database_root rq) (fst s)) segs)"

lemma encode_with_frames_hash:
  assumes "otsardb_segment_encode_with_frames sha lz4c kind cid payload compress = Some (data, hash, frames)"
  shows "hash = otsardb_sha256_hex_data sha data"
proof -
  have v2: "hash = otsardb_sha256_hex_data sha data"
    if "otsardb_segment_encode sha lz4c kind cid payload compress = Some (data, hash)"
    using that by (auto simp: otsardb_segment_encode_def Let_def split: if_splits option.splits prod.splits)
  have v3: "hash = otsardb_sha256_hex_data sha data"
    if "segment_encode_v3 sha lz4c cid payload compress = Some (data, hash, frames)"
    using that by (auto simp: segment_encode_v3_def Let_def split: if_splits option.splits)
  show ?thesis
    using assms v2 v3 by (auto simp: otsardb_segment_encode_with_frames_def Let_def split: if_splits option.splits)
qed

lemma segment_bytes_hash:
  assumes "segment_bytes env rq i input = Some (data, hash, key_hash, frames, entry)"
  shows "hash = otsardb_sha256_hex_data (pe_sha env) data"
  using assms encode_with_frames_hash
  by (auto simp: segment_bytes_def bind_eq_Some_conv split: option.splits)

lemma segment_suffix_not_head: "join_root root (segment_suffix h) \<noteq> head_key root"
  "join_root root (commit_name c) \<noteq> head_key root"
  by (simp_all add: segment_suffix_def head_key_def commit_name_def)

lemma root_join_Some [simp]:
  "root_join root name n = Some key \<longleftrightarrow> key = join_root root name \<and> 0 < length key \<and> length key < n"
  by (auto simp: root_join_def snprintf_fits_def)

lemma snprintf_fits_Some [simp]:
  "snprintf_fits s n = Some t \<longleftrightarrow> t = s \<and> 0 < length s \<and> length s < n"
  by (auto simp: snprintf_fits_def)

lemma segment_durable_mono: "segment_durable sha m root ref \<Longrightarrow> m \<subseteq>\<^sub>m m' \<Longrightarrow> segment_durable sha m' root ref"
  unfolding segment_durable_def using holds_data_mono by blast

context object_store_laws
begin

lemma publish_segment_law:
  assumes "publish_segment env store w rq i input = (res, w')" "valid w"
  shows "valid w' \<and> objs w \<subseteq>\<^sub>m objs w' \<and> objs w' (head_key (rq_database_root rq)) = objs w (head_key (rq_database_root rq)) \<and>
    (\<forall>e. res = Inl e \<longrightarrow> e \<noteq> JOURNAL_OK) \<and>
    (\<forall>s. res = Inr s \<longrightarrow> segment_durable (pe_sha env) (objs w') (rq_database_root rq) (fst s) \<and>
       (\<exists>h. sg_key (fst s) = segment_suffix h))"
proof (cases "\<exists>data hash key_hash frames entry. segment_bytes env rq i input = Some (data, hash, key_hash, frames, entry) \<and>
    snprintf_fits (segment_suffix key_hash) (KEY_MAX + 1) = Some (segment_suffix key_hash) \<and>
    root_join (rq_database_root rq) (segment_suffix key_hash) (KEY_MAX + 1) \<noteq> None")
  case False
  then have "w' = w" "\<exists>e. res = Inl e \<and> e \<noteq> JOURNAL_OK"
    using assms(1) by (auto simp: publish_segment_def split: option.splits prod.splits)
  then show ?thesis using assms(2) by auto
next
  case True
  then obtain data hash key_hash frames entry where
    sb: "segment_bytes env rq i input = Some (data, hash, key_hash, frames, entry)"
    and fits: "snprintf_fits (segment_suffix key_hash) (KEY_MAX + 1) = Some (segment_suffix key_hash)"
      "root_join (rq_database_root rq) (segment_suffix key_hash) (KEY_MAX + 1) =
         Some (join_root (rq_database_root rq) (segment_suffix key_hash))"
    by auto
  let ?key = "join_root (rq_database_root rq) (segment_suffix key_hash)"
  obtain rc w1 where put: "immutable_put store w ?key data = (rc, w1)" by (cases "immutable_put store w ?key data")
  note law = immutable_put_law [OF put assms(2)]
  have w: "w' = w1" and e: "\<And>e. res = Inl e \<Longrightarrow> e \<noteq> JOURNAL_OK"
    and r: "\<And>s. res = Inr s \<Longrightarrow> rc = JOURNAL_OK \<and> sg_key (fst s) = segment_suffix key_hash \<and>
      sg_sha256 (fst s) = hash \<and> sg_size (fst s) = of_nat (length data)"
    using assms(1) sb fits put by (auto simp: publish_segment_def simp del: snprintf_fits_Some root_join_Some split: if_splits)
  show ?thesis
    using law segment_bytes_hash [OF sb] segment_suffix_not_head(1) [of "rq_database_root rq" key_hash] r e
    unfolding w segment_durable_def by (metis (no_types, lifting))
qed

lemma publish_segments_law:
  assumes "publish_segments env store w rq i inputs = (res, w')" "valid w"
  shows "valid w' \<and> objs w \<subseteq>\<^sub>m objs w' \<and> objs w' (head_key (rq_database_root rq)) = objs w (head_key (rq_database_root rq)) \<and>
    (\<forall>e. res = Inl e \<longrightarrow> e \<noteq> JOURNAL_OK) \<and>
    (\<forall>ss. res = Inr ss \<longrightarrow> length ss = length inputs \<and>
       list_all (\<lambda>s. segment_durable (pe_sha env) (objs w') (rq_database_root rq) (fst s) \<and>
         (\<exists>h. sg_key (fst s) = segment_suffix h)) ss)"
  using assms
proof (induction inputs arbitrary: i w res w')
  case Nil
  then show ?case by auto
next
  case (Cons input inputs)
  obtain r1 w1 where one: "publish_segment env store w rq i input = (r1, w1)" by (cases "publish_segment env store w rq i input")
  note first = publish_segment_law [OF one Cons.prems(2)]
  show ?case
  proof (cases r1)
    case (Inl e)
    then show ?thesis using Cons.prems(1) one first by auto
  next
    case (Inr s)
    obtain r2 w2 where more: "publish_segments env store w1 rq (Suc i) inputs = (r2, w2)"
      by (cases "publish_segments env store w1 rq (Suc i) inputs")
    note rest = Cons.IH [OF more] 
    have w: "w' = w2" and e: "\<And>e. res = Inl e \<Longrightarrow> r2 = Inl e" and r: "\<And>ss. res = Inr ss \<Longrightarrow> \<exists>ss'. r2 = Inr ss' \<and> ss = s # ss'"
      using Cons.prems(1) one more Inr by (auto split: sum.splits)
    show ?thesis
      using first rest Inr r e map_le_trans [of "objs w" "objs w1" "objs w2"] segment_durable_mono
      unfolding w by fastforce
  qed
qed

end

text \<open>
  What HEAD must have been for a commit to replace it: absent for a first commit, otherwise the version
  with the expected etag, or for a single writer the HEAD of the parent commit.
\<close>

definition head_condition :: "commit_request \<Rightarrow> (string \<rightharpoonup> store_object) \<Rightarrow> bool" where
  "head_condition rq contents \<longleftrightarrow>
     (if rq_create_head_if_missing rq then contents (head_key (rq_database_root rq)) = None
      else if effective_strategy rq = STRATEGY_CAS then
        \<exists>ob. contents (head_key (rq_database_root rq)) = Some ob \<and> so_etag ob = rq_expected_head_etag rq
      else \<exists>h. stored_head contents (rq_database_root rq) = Some h \<and> hd_database_id h = rq_database_id rq \<and>
        hd_generation h = rq_parent_generation rq \<and> Some (hd_commit_id h) = rq_parent_commit_id rq \<and>
        Some (hd_commit_sha256 h) = rq_parent_manifest_sha256 rq)"

definition head_moved :: "publish_env \<Rightarrow> commit_request \<Rightarrow> (string \<rightharpoonup> store_object) \<Rightarrow> head \<Rightarrow> bool" where
  "head_moved env rq contents h \<longleftrightarrow>
     (\<exists>key hash. h = request_head rq key hash \<and> length key \<le> KEY_MAX \<and>
       holds_data contents (head_key (rq_database_root rq)) (bytes_of_string (otsardb_head_encode_json h)) \<and>
       manifest_durable env contents rq key hash)"

lemma head_moved_intro:
  assumes mb: "manifest_bytes env rq segs = Some (json, hash)"
    and segs: "length segs = length (the (resolve_segment_inputs rq))"
      "list_all (\<lambda>s. segment_durable (pe_sha env) m (rq_database_root rq) (fst s) \<and>
         (\<exists>h. sg_key (fst s) = segment_suffix h)) segs"
    and put: "m \<subseteq>\<^sub>m m1" "holds_data m1 (join_root (rq_database_root rq) (commit_name (rq_commit_id rq))) (bytes_of_string json)"
    and frame: "\<forall>k. k \<noteq> head_key (rq_database_root rq) \<longrightarrow> m2 k = m1 k"
    and h: "holds_data m2 (head_key (rq_database_root rq)) (bytes_of_string (otsardb_head_encode_json
      (request_head rq (join_root (rq_database_root rq) (commit_name (rq_commit_id rq))) hash)))"
    and len: "length (join_root (rq_database_root rq) (commit_name (rq_commit_id rq))) \<le> KEY_MAX"
  shows "head_moved env rq m2 (request_head rq (join_root (rq_database_root rq) (commit_name (rq_commit_id rq))) hash)"
proof -
  let ?root = "rq_database_root rq"
  let ?key = "join_root ?root (commit_name (rq_commit_id rq))"
  have "holds_data m2 ?key (bytes_of_string json)"
    using put(2) frame segment_suffix_not_head(2) [of ?root "rq_commit_id rq"] by (simp add: holds_data_def)
  moreover have "segment_durable (pe_sha env) m2 ?root (fst s)" if "s \<in> set segs" for s
  proof -
    from that segs(2) obtain x where d: "segment_durable (pe_sha env) m ?root (fst s)"
      and x: "sg_key (fst s) = segment_suffix x" by (auto simp: list_all_iff)
    from segment_durable_mono [OF d put(1)] frame segment_suffix_not_head(1) [of ?root x] x
    show ?thesis by (simp add: segment_durable_def holds_data_def)
  qed
  ultimately have "manifest_durable env m2 rq ?key hash"
    using mb segs(1) unfolding manifest_durable_def list_all_iff by blast
  then show ?thesis using h len by (auto simp: head_moved_def)
qed

lemma effective_strategy_cases: "effective_strategy rq = STRATEGY_CAS \<or> effective_strategy rq = STRATEGY_SINGLE_WRITER"
  by (cases "rq_write_strategy rq") (auto simp: effective_strategy_def)

lemma head_condition_cong:
  assumes "contents' (head_key (rq_database_root rq)) = contents (head_key (rq_database_root rq))"
  shows "head_condition rq contents' = head_condition rq contents"
  using assms by (simp add: head_condition_def stored_head_def)

context object_store_laws
begin

lemma strategy_check_law:
  assumes "strategy_check store w rq = (rc, w')" "valid w"
  shows "valid w' \<and> objs w' = objs w \<and>
    (rc = JOURNAL_OK \<and> effective_strategy rq \<noteq> STRATEGY_CAS \<longrightarrow> head_condition rq (objs w))"
proof (cases "effective_strategy rq = STRATEGY_CAS \<or> rq_expected_head_etag rq \<noteq> None")
  case True
  then show ?thesis using assms by (auto simp: strategy_check_def split: if_splits)
next
  case False
  obtain r res w1 where rd: "otsardb_journal_read_head store w (rq_database_root rq) = (r, res, w1)"
    by (cases "otsardb_journal_read_head store w (rq_database_root rq)")
  note law = read_head_law [OF rd assms(2)]
  have v: "validate_single_writer_parent store w rq = (rc, w')" using assms(1) False by (simp add: strategy_check_def)
  show ?thesis
  proof (cases "rq_create_head_if_missing rq")
    case True
    with law rd v show ?thesis by (auto simp: validate_single_writer_parent_def head_condition_def split: if_splits)
  next
    case create: False
    show ?thesis
    proof (cases res)
      case None
      with law rd v create show ?thesis by (auto simp: validate_single_writer_parent_def)
    next
      case (Some he)
      obtain h e where he: "he = (h, e)" by (cases he)
      from law Some he have "stored_head (objs w) (rq_database_root rq) = Some h" by simp
      then show ?thesis
        using law rd v Some he create False
        by (auto simp: validate_single_writer_parent_def head_condition_def split: if_splits)
    qed
  qed
qed

lemma publish_head_step_law:
  assumes "publish_head_step store w rq h = (rc, etag, w')" "valid w"
    "effective_strategy rq = STRATEGY_CAS \<or> head_condition rq (objs w)"
  shows "valid w' \<and> (\<forall>k. k \<noteq> head_key (rq_database_root rq) \<longrightarrow> objs w' k = objs w k) \<and>
    (objs w' = objs w \<or> head_condition rq (objs w) \<and>
       holds_data (objs w') (head_key (rq_database_root rq)) (bytes_of_string (otsardb_head_encode_json h))) \<and>
    (rc = JOURNAL_OK \<longrightarrow> head_condition rq (objs w) \<and>
       holds_data (objs w') (head_key (rq_database_root rq)) (bytes_of_string (otsardb_head_encode_json h)))"
proof (cases "effective_strategy rq = STRATEGY_CAS \<and> \<not> rq_create_head_if_missing rq \<and> rq_expected_head_etag rq = None")
  case True
  then show ?thesis using assms(1,2) by (auto simp: publish_head_step_def otsardb_journal_publish_head_def)
next
  case False
  define options where "options = (if effective_strategy rq = STRATEGY_CAS
    then \<lparr>po_if_none_match = rq_create_head_if_missing rq,
          po_if_match_etag = (if rq_create_head_if_missing rq then None else rq_expected_head_etag rq)\<rparr> else no_options)"
  have p: "publish_head_json store w (rq_database_root rq) h options = (rc, etag, w')"
    using assms(1) False by (auto simp: publish_head_step_def options_def otsardb_journal_publish_head_def
        otsardb_journal_publish_head_unconditional_def)
  have cond: "head_condition rq (objs w)" if "put_allowed options (objs w (head_key (rq_database_root rq)))"
    using that assms(3) False
    by (cases "rq_expected_head_etag rq") (auto simp: put_allowed_def options_def head_condition_def no_options_def split: if_splits)
  have stored: "holds_data m' k d" "\<forall>j. j \<noteq> k \<longrightarrow> m' j = m j" if "put_stored m k d m'" for m k d m'
    using that by (auto simp: put_stored_def holds_data_def)
  show ?thesis
    using publish_head_json_law [OF p assms(2)] cond stored [of "objs w" "head_key (rq_database_root rq)" _ "objs w'"]
    by metis
qed

lemma publish_manifest_law:
  assumes "publish_manifest env store w rq segs = (rc, res, w')" "valid w"
    "effective_strategy rq = STRATEGY_CAS \<or> head_condition rq (objs w)"
    "length segs = length (the (resolve_segment_inputs rq))"
    "list_all (\<lambda>s. segment_durable (pe_sha env) (objs w) (rq_database_root rq) (fst s) \<and>
         (\<exists>h. sg_key (fst s) = segment_suffix h)) segs"
  shows "valid w' \<and> (\<forall>k ob. k \<noteq> head_key (rq_database_root rq) \<longrightarrow> objs w k = Some ob \<longrightarrow> objs w' k = Some ob) \<and>
    (objs w' (head_key (rq_database_root rq)) = objs w (head_key (rq_database_root rq)) \<or>
       head_condition rq (objs w) \<and> (\<exists>h. head_moved env rq (objs w') h)) \<and>
    (rc = JOURNAL_OK \<longrightarrow> head_condition rq (objs w) \<and> (\<exists>r. res = Some r \<and> head_moved env rq (objs w') (cr_head r)))"
proof (cases "\<exists>json hash. manifest_bytes env rq segs = Some (json, hash) \<and>
    snprintf_fits (commit_name (rq_commit_id rq)) (KEY_MAX + 1) \<noteq> None \<and>
    root_join (rq_database_root rq) (commit_name (rq_commit_id rq)) (KEY_MAX + 1) \<noteq> None")
  case False
  then have "w' = w" "rc \<noteq> JOURNAL_OK"
    using assms(1) by (auto simp: publish_manifest_def split: option.splits prod.splits)
  then show ?thesis using assms(2) by simp
next
  case True
  let ?root = "rq_database_root rq"
  let ?hk = "head_key ?root"
  let ?key = "join_root ?root (commit_name (rq_commit_id rq))"
  from True obtain json hash where mb: "manifest_bytes env rq segs = Some (json, hash)"
    and fits: "snprintf_fits (commit_name (rq_commit_id rq)) (KEY_MAX + 1) = Some (commit_name (rq_commit_id rq))"
      "root_join ?root (commit_name (rq_commit_id rq)) (KEY_MAX + 1) = Some ?key" and len: "length ?key \<le> KEY_MAX"
    by auto
  define h where "h = request_head rq ?key hash"
  obtain r1 w1 where put: "immutable_put store w ?key (bytes_of_string json) = (r1, w1)"
    by (cases "immutable_put store w ?key (bytes_of_string json)")
  obtain r2 e w2 where hs: "publish_head_step store w1 rq h = (r2, e, w2)" by (cases "publish_head_step store w1 rq h")
  note law1 = immutable_put_law [OF put assms(2)]
  have same: "objs w1 ?hk = objs w ?hk" using law1 segment_suffix_not_head(2) by metis
  have c1: "head_condition rq (objs w1) = head_condition rq (objs w)" using head_condition_cong [of "objs w1" rq "objs w"] same by simp
  show ?thesis
  proof (cases "r1 = JOURNAL_OK")
    case False
    then have "w' = w1" "rc \<noteq> JOURNAL_OK"
      using assms(1) mb fits put by (auto simp: publish_manifest_def simp del: snprintf_fits_Some root_join_Some)
    then show ?thesis using law1 same by (auto simp: map_le_def dom_def)
  next
    case True
    have w: "w' = w2" and rc: "rc = JOURNAL_OK \<Longrightarrow> r2 = JOURNAL_OK \<and> (\<exists>r. res = Some r \<and> cr_head r = h)"
      using assms(1) mb fits put hs True
      by (auto simp: publish_manifest_def h_def Let_def simp del: snprintf_fits_Some root_join_Some split: if_splits)
    note law2 = publish_head_step_law [OF hs conjunct1 [OF law1], unfolded c1, OF assms(3)]
    have moved: "head_moved env rq (objs w2) h"
      if "holds_data (objs w2) ?hk (bytes_of_string (otsardb_head_encode_json h))"
      using head_moved_intro [OF mb assms(4,5) _ _ _ _ len, of "objs w1" "objs w2"] law1 law2 True that
      by (simp add: h_def)
    have "objs w2 k = Some ob" if "k \<noteq> ?hk" "objs w k = Some ob" for k ob
      using that law1 law2 by (auto simp: map_le_def dom_def)
    then show ?thesis using law2 moved rc same unfolding w by metis
  qed
qed

end

context object_store_laws
begin

lemma publish_commit_law:
  assumes "otsardb_publish_commit env store w rq = (rc, res, w')" "valid w"
  shows "valid w' \<and> (\<forall>k ob. k \<noteq> head_key (rq_database_root rq) \<longrightarrow> objs w k = Some ob \<longrightarrow> objs w' k = Some ob) \<and>
    (objs w' (head_key (rq_database_root rq)) = objs w (head_key (rq_database_root rq)) \<or>
       head_condition rq (objs w) \<and> (\<exists>h. head_moved env rq (objs w') h)) \<and>
    (rc = JOURNAL_OK \<longrightarrow> head_condition rq (objs w) \<and> (\<exists>r. res = Some r \<and> head_moved env rq (objs w') (cr_head r)))"
proof -
  let ?inputs = "resolve_segment_inputs rq"
  obtain r1 w1 where sc: "strategy_check store w rq = (r1, w1)" by (cases "strategy_check store w rq")
  obtain r2 w2 where ps: "publish_segments env store w1 rq 0 (the ?inputs) = (r2, w2)"
    by (cases "publish_segments env store w1 rq 0 (the ?inputs)")
  note law1 = strategy_check_law [OF sc assms(2)]
  note law2 = publish_segments_law [OF ps conjunct1 [OF law1]]
  have same: "head_condition rq (objs w2) = head_condition rq (objs w)"
    using head_condition_cong [of "objs w2" rq "objs w"] law1 law2 by simp
  consider "w' = w" "rc \<noteq> JOURNAL_OK" | "r1 \<noteq> JOURNAL_OK" "w' = w1" "rc = r1"
    | e where "r1 = JOURNAL_OK" "r2 = Inl e" "w' = w2" "rc = e"
    | segs where "r1 = JOURNAL_OK" "r2 = Inr segs" "publish_manifest env store w2 rq segs = (rc, res, w')"
    using assms(1) sc ps by (auto simp: otsardb_publish_commit_def Let_def split: if_splits sum.splits)
  then show ?thesis
  proof cases
    case 1
    then show ?thesis using assms(2) by simp
  next
    case 2
    then show ?thesis using law1 by simp
  next
    case 3
    then show ?thesis using law1 law2 by (auto simp: map_le_def dom_def)
  next
    case (4 segs)
    have cond: "effective_strategy rq = STRATEGY_CAS \<or> head_condition rq (objs w2)" using law1 same 4(1) by auto
    have "length segs = length (the ?inputs)" "list_all (\<lambda>s. segment_durable (pe_sha env) (objs w2) (rq_database_root rq) (fst s) \<and>
         (\<exists>h. sg_key (fst s) = segment_suffix h)) segs" using law2 4(2) by auto
    note law3 = publish_manifest_law [OF 4(3) conjunct1 [OF law2] cond this]
    have "objs w2 k = Some ob" if "objs w k = Some ob" for k ob
      using that law1 law2 by (auto simp: map_le_def dom_def)
    then show ?thesis using law1 law2 law3 same by auto
  qed
qed

end

section \<open>The array of an encrypted commit\<close>

definition enc_entry_wf :: "segment_enc option \<Rightarrow> bool" where
  "enc_entry_wf entry \<longleftrightarrow> (case entry of None \<Rightarrow> True
     | Some e \<Rightarrow> en_alg e = CIPHER_ALG_NAME \<and> length (en_iv e) = CIPHER_IV_BYTES \<and> length (en_tag e) = CIPHER_TAG_BYTES)"

definition enc_entry_str :: "segment_enc option \<Rightarrow> string" where
  "enc_entry_str entry = (case entry of None \<Rightarrow> ''{}'' | Some e \<Rightarrow> enc_entry_text e)"

fun enc_array_text :: "bool \<Rightarrow> segment_enc option list \<Rightarrow> string" where
  "enc_array_text first [] = []"
| "enc_array_text first (e # es) = (if first then [] else '','') @ enc_entry_str e @ enc_array_text False es"

definition enc_field :: "segment_enc option list \<Rightarrow> string" where
  "enc_field entries = '','' @ segment_enc_marker @ enc_array_text True entries @ '']''"

lemma enc_entry_json_size_text: "enc_entry_json_size e = length (enc_entry_str e)"
  by (simp add: enc_entry_json_size_def enc_entry_str_def split: option.splits)

lemma enc_array_size_text: "enc_array_size es = length (enc_array_text True es)"
  by (induction es rule: enc_array_size.induct) (simp_all add: enc_entry_json_size_text)

lemma enc_entry_json_write_ok:
  "length (enc_entry_str e) < room \<Longrightarrow> enc_entry_json_write room e = Some (enc_entry_str e)"
  by (auto simp: enc_entry_json_write_def enc_entry_str_def enc_entry_text_def split: option.splits)

lemma enc_array_write_ok:
  "length out + length (enc_array_text first es) < new_size \<Longrightarrow>
   enc_array_write new_size first es out = Some (out @ enc_array_text first es)"
  by (induction new_size first es out rule: enc_array_write.induct)
    (auto simp: Let_def enc_entry_json_write_ok)

lemma manifest_inject_ok:
  assumes "length body + length (enc_field entries) + 2 \<le> int_max"
  shows "manifest_inject_segment_enc sha (body @ [CHR ''}'', CHR 0x0A]) entries =
    Some (body @ enc_field entries @ [CHR ''}'', CHR 0x0A],
      otsardb_sha256_hex_data sha (bytes_of_string (body @ enc_field entries @ [CHR ''}'', CHR 0x0A])))"
proof -
  have c: "drop_newlines (body @ [CHR ''}'', CHR 0x0A]) = length body + 1" by (simp add: drop_newlines_def)
  show ?thesis
    using assms
    by (simp add: manifest_inject_segment_enc_def c Let_def enc_array_size_text enc_field_def enc_array_write_ok nth_append)
qed

lemma skip_space_stop: "c \<notin> {CHR '' '', CHR 0x09, CHR 0x0A, CHR 0x0D} \<Longrightarrow> skip_space (c # p) = c # p"
  by (simp add: skip_space_def)

lemma enc_parse_fields_text:
  assumes "en_alg e = CIPHER_ALG_NAME" "length (en_iv e) = CIPHER_IV_BYTES" "length (en_tag e) = CIPHER_TAG_BYTES"
  shows "enc_parse_fields (tl (enc_entry_text e) @ rest) = Some (Some e, rest)"
proof -
  have alg: "quote \<notin> set CIPHER_ALG_NAME" by (simp add: CIPHER_ALG_NAME_def)
  have doc: "tl (enc_entry_text e) @ rest = pattern_str ''alg'' @ CIPHER_ALG_NAME @ quote # ('','' @ pattern_str ''iv'') @
      bytes_hex (en_iv e) @ quote # ('','' @ pattern_str ''tag'') @ bytes_hex (en_tag e) @ quote # CHR ''}'' # rest"
    using assms(1) by (simp add: enc_entry_text_def json_str_def pattern_str_def)
  have hit: "skip_marker (CHR '','' # pattern_str k) (CHR '','' # pattern_str k @ t) = Some t" for k t
    using skip_marker_hit [of "CHR '','' # pattern_str k" t] by simp
  show ?thesis
    unfolding doc enc_parse_fields_def
    using assms
    by (simp add: skip_marker_hit hit until_quote_hit [OF alg] until_quote_hit [OF bytes_hex_no_quote] require_def
        enc_parse_hex_def skip_space_stop next_char_def)
qed

lemma enc_parse_entry_text:
  assumes "enc_entry_wf e"
  shows "enc_parse_entry (enc_entry_str e @ rest) = Some (e, rest)"
proof (cases e)
  case None
  then show ?thesis by (simp add: enc_parse_entry_def enc_entry_str_def skip_space_stop next_char_def)
next
  case (Some x)
  obtain t where start: "enc_entry_text x = CHR ''{'' # quote # t"
    by (simp add: enc_entry_text_def json_str_def pattern_str_def)
  have "enc_parse_fields (tl (enc_entry_text x) @ rest) = Some (e, rest)"
    using assms Some by (simp add: enc_entry_wf_def enc_parse_fields_text)
  then show ?thesis
    using Some by (simp add: enc_parse_entry_def enc_entry_str_def start skip_space_stop next_char_def)
qed

lemma enc_parse_loop_text:
  assumes "list_all enc_entry_wf es" "es \<noteq> []" "length es \<le> room"
  shows "enc_parse_loop room acc (enc_array_text True es @ CHR '']'' # rest) = Some (acc @ es, CHR '']'' # rest)"
  using assms
proof (induction es arbitrary: room acc)
  case (Cons e es)
  then obtain r where room: "room = Suc r" by (cases room) simp_all
  have e: "enc_parse_entry (enc_entry_str e @ t) = Some (e, t)" for t using Cons.prems(1) by (simp add: enc_parse_entry_text)
  show ?case
  proof (cases es)
    case Nil
    then show ?thesis by (simp add: room e skip_space_stop)
  next
    case (Cons d ds)
    have more: "enc_array_text False es = CHR '','' # enc_array_text True es" by (simp add: Cons)
    have "enc_parse_loop r (acc @ [e]) (enc_array_text True es @ CHR '']'' # rest) = Some ((acc @ [e]) @ es, CHR '']'' # rest)"
      using Cons.IH [of r "acc @ [e]"] Cons.prems Cons room by simp
    then show ?thesis by (simp add: room e more skip_space_stop)
  qed
qed simp

lemma strstr_skip_entry:
  assumes "enc_entry_wf e" "json_name n" "n \<notin> {''alg'', ''iv'', ''tag''}"
  shows "strstr (enc_entry_str e @ rest) (quote # n @ quote # CHR '':'' # x) = strstr rest (quote # n @ quote # CHR '':'' # x)"
proof -
  have alg: "quote \<notin> set CIPHER_ALG_NAME" by (simp add: CIPHER_ALG_NAME_def)
  have "k \<noteq> n" if "k \<in> {''alg'', ''iv'', ''tag''}" for k using assms(3) that by blast
  then show ?thesis
    using assms(1,2) alg bytes_hex_no_quote
    by (cases e) (simp_all add: enc_entry_str_def enc_entry_text_def enc_entry_wf_def strstr_skip_char strstr_skip_str)
qed

lemma strstr_skip_entries:
  assumes "list_all enc_entry_wf es" "json_name n" "n \<notin> {''alg'', ''iv'', ''tag''}"
  shows "strstr (enc_array_text first es @ rest) (quote # n @ quote # CHR '':'' # x) =
    strstr rest (quote # n @ quote # CHR '':'' # x)"
  using assms(1)
  by (induction first es rule: enc_array_text.induct) (simp_all add: strstr_skip_entry [OF _ assms(2,3)] strstr_skip_char)

lemma enc_array_text_no_nul: "list_all enc_entry_wf es \<Longrightarrow> CHR 0x00 \<notin> set (enc_array_text first es)"
proof (induction first es rule: enc_array_text.induct)
  case (2 first e es)
  have "hex_nibble (CHR 0x00) = None" by (simp add: hex_nibble_def)
  then have h: "CHR 0x00 \<notin> set (bytes_hex bs)" for bs using bytes_hex_digits [of bs] by (auto simp: list_all_iff)
  have "CHR 0x00 \<notin> set (enc_entry_str e)"
    using h 2(2) by (cases e) (simp_all add: enc_entry_str_def enc_entry_text_def json_str_def pattern_str_def enc_entry_wf_def
        CIPHER_ALG_NAME_def)
  then show ?case using 2 by simp
qed simp

lemma enc_field_ok:
  assumes "list_all enc_entry_wf es"
  shows "extension_ok (enc_field es)"
proof -
  have n: "json_name ''post_apply_checksum''" by (simp add: json_name_def)
  have "strstr (enc_field es @ [CHR ''}'', CHR 0x0A]) (pattern_str ''post_apply_checksum'') =
      strstr (enc_array_text True es @ '']'' @ [CHR ''}'', CHR 0x0A]) (pattern_str ''post_apply_checksum'')"
    unfolding pattern_str_cons enc_field_def segment_enc_marker_def
    by (simp add: strstr_skip_char strstr_skip_key [OF n, simplified])
  also have "\<dots> = strstr ('']'' @ [CHR ''}'', CHR 0x0A]) (pattern_str ''post_apply_checksum'')"
    unfolding pattern_str_cons by (rule strstr_skip_entries [OF assms n]) simp
  also have "\<dots> = None" by (simp add: pattern_str_def strstr.simps)
  finally show ?thesis
    using enc_array_text_no_nul [OF assms, of True]
    by (simp add: extension_ok_def enc_field_def segment_enc_marker_def pattern_defs)
qed

lemma segment_enc_found:
  assumes "manifest_wf m" "manifest_valid m" "cm_format_version m \<ge> 3"
  shows "strstr (manifest_extended m (enc_field es)) segment_enc_marker =
    Some (segment_enc_marker @ enc_array_text True es @ CHR '']'' # [CHR ''}'', CHR 0x0A])"
proof -
  note wf = assms(1) [unfolded manifest_wf_def plain_string_def list_all_iff]
  have n: "json_name ''segment_enc''" by (simp add: json_name_def)
  have p: "segment_enc_marker = quote # ''segment_enc'' @ quote # CHR '':'' # ''[''"
    by (simp add: segment_enc_marker_def pattern_u64_def)
  let ?f = "segment_enc_marker @ enc_array_text True es @ CHR '']'' # [CHR ''}'', CHR 0x0A]"
  note skip = strstr_skip_u64 [OF n] strstr_skip_str [OF n] strstr_skip_char strstr_skip_key [OF n]
    strstr_skip_segments [OF _ n]
  have "strstr (manifest_extended m (enc_field es)) segment_enc_marker =
      strstr (manifest_trailer_open m @ '','' @ ?f) segment_enc_marker"
    unfolding p using wf
    by (simp add: manifest_extended_def common_fields_def list_fields_def segments_marker_def enc_field_def
        skip [simplified] p [simplified])
  also have "\<dots> = strstr ?f segment_enc_marker"
    unfolding p using wf checksum_field_plain [of "cm_post_apply_checksum m"]
    by (simp add: manifest_trailer_open_def skip [simplified] plain_string_def)
  also have "\<dots> = Some ?f" by (rule strstr_hit)
  finally show ?thesis .
qed

lemma inject_round_trip:
  assumes "manifest_wf m" "cm_format_version m = COMMIT_MANIFEST_VERSION"
    and entries: "list_all enc_entry_wf entries" "length entries = length (cm_segments m)"
    and enc: "otsardb_commit_manifest_encode_json sha m = Some (json, hash)"
    and inj: "manifest_inject_segment_enc sha json entries = Some (out, out_hash)"
  shows "otsardb_commit_manifest_decode_json (bytes_of_string out) = Some m \<and>
    otsardb_segment_enc_parse_json (bytes_of_string out) = Some \<lparr>es_entries = entries, es_present = True\<rparr> \<and>
    out_hash = otsardb_sha256_hex_data sha (bytes_of_string out)"
proof -
  have valid: "manifest_valid m" and json: "json = manifest_document m"
    using enc by (auto simp: otsardb_commit_manifest_encode_json_def manifest_text_exact split: if_splits)
  have f: "cm_format_version m \<ge> 3" "cm_format_version m \<ge> 4"
    using assms(2) by (simp_all add: COMMIT_MANIFEST_VERSION_def)
  have n: "entries \<noteq> []" "length entries \<le> SEGMENT_ENC_MAX"
    using valid entries(2) by (auto simp: manifest_valid_def manifest_segments_valid_def MANIFEST_MAX_SEGMENTS_def
        SEGMENT_ENC_MAX_def split: if_splits)
  obtain body where body: "manifest_extended m ext = body @ ext @ [CHR ''}'', CHR 0x0A]" for ext
    by (simp add: manifest_extended_def list_fields_def)
  have doc: "json = body @ [CHR ''}'', CHR 0x0A]"
    using json f body [of "[]"] by (simp add: manifest_document_def manifest_list_extended)
  have short: "length body + length (enc_field entries) + 2 \<le> int_max"
    using inj by (auto simp: manifest_inject_segment_enc_def doc Let_def enc_array_size_text enc_field_def split: if_splits)
  from manifest_inject_ok [OF short, of sha] inj doc body [of "enc_field entries"]
  have out: "out = manifest_extended m (enc_field entries)"
    and hash: "out_hash = otsardb_sha256_hex_data sha (bytes_of_string out)"
    by auto
  have len: "length out < size_max" using short by (simp add: out body int_max_def size_max_def)
  note ok = enc_field_ok [OF entries(1)]
  have copy: "c_str out = out"
    using manifest_extended_no_nul [OF assms(1) ok] by (simp add: c_str_id out)
  have "bytes_of_string out \<noteq> []" by (simp add: out body bytes_of_string_def)
  then have "otsardb_segment_enc_parse_json (bytes_of_string out) = Some \<lparr>es_entries = entries, es_present = True\<rparr>"
    using segment_enc_found [OF assms(1) valid f(1), of entries]
      enc_parse_loop_text [OF entries(1) n, of "[]" "[CHR ''}'', CHR 0x0A]"] n
    by (simp add: otsardb_segment_enc_parse_json_def copy out [symmetric] after_pattern_def require_def)
  with manifest_decode_extended [OF assms(1) valid f(1) ok] hash len manifest_stored_v4 [OF f(2)] show ?thesis
    by (simp add: out)
qed

section \<open>Properties\<close>

text \<open>
  (C5) A commit is atomic and durable, on every store that keeps the laws and whatever calls of it fail or
  time out.  No object other than HEAD is changed once it exists.  HEAD either stays as it was or is
  moved, and it is moved only when it was what the request expects (absent, the version with the
  expected etag, or the parent commit for a single writer) and only to a manifest that is in the
  store together with every segment it names, each with the recorded size and digest.  When the call
  reports success, HEAD has been moved.
\<close>

theorem publish_commit_atomic:
  assumes laws: "object_store_laws store objs valid" and w: "valid w"
    and pub: "otsardb_publish_commit env store w rq = (rc, res, w')"
  shows "(\<forall>k ob. k \<noteq> head_key (rq_database_root rq) \<longrightarrow> objs w k = Some ob \<longrightarrow> objs w' k = Some ob) \<and>
    (objs w' (head_key (rq_database_root rq)) = objs w (head_key (rq_database_root rq)) \<or>
       head_condition rq (objs w) \<and> (\<exists>h. head_moved env rq (objs w') h)) \<and>
    (rc = JOURNAL_OK \<longrightarrow> head_condition rq (objs w) \<and> (\<exists>r. res = Some r \<and> head_moved env rq (objs w') (cr_head r)))"
  using object_store_laws.publish_commit_law [OF laws pub w] by blast

definition sample_request :: commit_request where
  "sample_request = \<lparr>rq_database_root = ''db'', rq_database_id = ''d1'', rq_commit_id = ''c1'',
     rq_parent_commit_id = None, rq_parent_manifest_sha256 = None, rq_parent_generation = 0,
     rq_page_size = 512, rq_database_size_pages = 1, rq_segment_payload = Some [1, 2], rq_segments = None,
     rq_segment_count = 0, rq_post_apply_checksum = None, rq_expected_head_etag = None,
     rq_create_head_if_missing = True, rq_write_strategy = STRATEGY_DEFAULT, rq_cipher = None\<rparr>"

definition sample_env :: publish_env where
  "sample_env = \<lparr>pe_sha = (\<lambda>_. replicate 32 0), pe_lz4c = (\<lambda>_ _. None), pe_gcm = (\<lambda>_ _ _ _. None),
     pe_entropy = (\<lambda>_. None), pe_thread_cipher = None\<rparr>"

text \<open>A first commit with one segment, published into an empty in-memory store.\<close>

definition sample_hash :: string where
  "sample_hash = replicate 64 (CHR ''0'')"

definition sample_object :: bytes where
  "sample_object = segment_object (pe_sha sample_env) 2 segment_wal_frames ''c1'' 0 [1, 2]"

definition sample_ref :: manifest_segment_ref where
  "sample_ref = \<lparr>sg_key = segment_suffix sample_hash, sg_sha256 = sample_hash, sg_size = 64, sg_pages = [],
     sg_frame_offsets = None\<rparr>"

definition sample_json :: string where
  "sample_json = manifest_document (request_manifest sample_request [sample_ref])"

lemma sample_hash_eq: "otsardb_sha256_hex_data (pe_sha sample_env) d = sample_hash"
  by (simp add: otsardb_sha256_hex_data_def otsardb_sha256_hex_def sample_env_def sample_hash_def sha256_hex_digits_def
      numeral_eq_Suc)

lemma sample_object_length: "length sample_object = 64"
  by (simp add: sample_object_def segment_object_def segment_magic_def sample_env_def)

lemma sample_segment:
  "segment_bytes sample_env sample_request i \<lparr>si_payload = [1, 2], si_pages = None\<rparr> =
     Some (sample_object, sample_hash, sample_hash, \<lparr>fi_offsets = [], fi_page_nos = []\<rparr>, None)"
  by (simp add: segment_bytes_def request_cipher_def otsardb_segment_encode_with_frames_def segment_encode_v3_def
      otsardb_wal_batch_decode_def wal_batch_header_size_def otsardb_segment_encode_def segment_commit_id_max_def
      segment_header_size_def size_max_def sample_hash_eq sample_object_def segment_wal_frames_def sample_request_def
      Let_def) (simp add: sample_env_def)

lemma sample_manifest_ok:
  "manifest_bytes sample_env sample_request [(sample_ref, None)] = Some (sample_json, sample_hash)"
proof -
  let ?m = "request_manifest sample_request [sample_ref]"
  have valid: "manifest_valid ?m"
    by (simp add: manifest_valid_def request_manifest_def sample_request_def sample_ref_def format_allowed_def
        COMMIT_MANIFEST_VERSION_def string_or_empty_def MANIFEST_ID_MAX_def sample_hash_def
      manifest_parent_is_valid_def manifest_segments_valid_def manifest_segment_valid_def MANIFEST_MAX_SEGMENTS_def
      MANIFEST_SHA256_HEX_SIZE_def pages_list_valid_def frame_offsets_valid_def segment_suffix_def)
  have d: "length (dec n) \<le> 4" if "n < 10000" for n using length_dec_le [of n 3] that by simp
  have "length (manifest_document ?m) \<le> int_max"
    using d [of 1] d [of 4] d [of 0] d [of 512] d [of 64]
    by (simp add: manifest_document_def manifest_list_text_def manifest_header_def manifest_trailer_def
        request_manifest_def sample_request_def sample_ref_def COMMIT_MANIFEST_VERSION_def string_or_empty_def
        MANIFEST_ID_MAX_def sample_hash_def segment_suffix_def
        segment_text_def segment_head_def segment_offsets_def array_text_def json_u64_def json_str_def pattern_defs
        segments_marker_def int_max_def)
  with valid show ?thesis
    by (simp add: manifest_bytes_def otsardb_commit_manifest_encode_json_def manifest_text_exact sample_hash_eq sample_json_def)
qed

definition sample_committed :: memory_store where
  "sample_committed = \<lparr>ms_entries =
     [\<lparr>me_key = ''db/'' @ segment_suffix sample_hash, me_data = sample_object, me_version = 1, me_last_modified = 0\<rparr>,
      \<lparr>me_key = ''db/commits/c1.json'', me_data = bytes_of_string sample_json, me_version = 2, me_last_modified = 0\<rparr>,
      \<lparr>me_key = ''db/HEAD.json'', 
       me_data = bytes_of_string (otsardb_head_encode_json (request_head sample_request ''db/commits/c1.json'' sample_hash)),
       me_version = 3, me_last_modified = 0\<rparr>],
     ms_next_version = 3, ms_supported = memory_capabilities, ms_clock = 0\<rparr>"

lemma sample_request_valid:
  "resolve_segment_inputs sample_request = Some [\<lparr>si_payload = [1, 2], si_pages = None\<rparr>]"
  "request_valid sample_request (Some [\<lparr>si_payload = [1, 2], si_pages = None\<rparr>])"
  "strategy_check (memory_object_store memory_capabilities) w sample_request = (JOURNAL_OK, w)"
  by (simp_all add: resolve_segment_inputs_def request_valid_def sample_request_def valid_parent_request_def
      string_or_empty_def MANIFEST_MAX_SEGMENTS_def COMMIT_ID_MAX_def strategy_check_def effective_strategy_def memory_eval)

lemma sample_put_segment:
  "publish_segments sample_env (memory_object_store memory_capabilities) empty_memory sample_request 0
     [\<lparr>si_payload = [1, 2], si_pages = None\<rparr>] =
   (Inr [(sample_ref, None)], sample_committed\<lparr>ms_entries := take 1 (ms_entries sample_committed), ms_next_version := 1\<rparr>)"
proof -
  have len: "length (segment_suffix sample_hash) = 90" "segment_suffix sample_hash \<noteq> []"
    by (simp_all add: segment_suffix_def sample_hash_def)
  have j: "join_root ''db'' n = ''db/'' @ n" for n by (simp add: join_root_def)
  have "immutable_put (memory_object_store memory_capabilities) empty_memory (''db/'' @ segment_suffix sample_hash) sample_object =
      (JOURNAL_OK, sample_committed\<lparr>ms_entries := take 1 (ms_entries sample_committed), ms_next_version := 1\<rparr>)"
    by (simp add: immutable_put_def memory_eval empty_memory_def sample_committed_def Let_def)
  then show ?thesis
    using len sample_object_length
    by (simp add: publish_segment_def sample_segment root_join_def snprintf_fits_def j KEY_MAX_def)
      (simp add: sample_request_def j MANIFEST_SEGMENT_KEY_MAX_def sample_ref_def recorded_offsets_def)
qed

lemma sample_publish_ok:
  "\<exists>r. otsardb_publish_commit sample_env (memory_object_store memory_capabilities) empty_memory sample_request =
     (JOURNAL_OK, Some r, sample_committed)"
proof -
  let ?store = "memory_object_store memory_capabilities"
  let ?m = "\<lambda>n. sample_committed\<lparr>ms_entries := take n (ms_entries sample_committed), ms_next_version := of_nat n\<rparr>"
  have k: "segment_suffix sample_hash \<noteq> ''commits/c1.json''" "segment_suffix sample_hash \<noteq> ''HEAD.json''"
    by (simp_all add: segment_suffix_def)
  have p2: "immutable_put ?store (?m 1) ''db/commits/c1.json'' (bytes_of_string sample_json) = (JOURNAL_OK, ?m 2)"
    by (simp add: immutable_put_def memory_eval sample_committed_def Let_def k)
  have p3: "publish_head_step ?store (?m 2) sample_request (request_head sample_request ''db/commits/c1.json'' sample_hash) =
      (JOURNAL_OK, Some (make_etag 3), sample_committed)"
    by (simp add: publish_head_step_def otsardb_journal_publish_head_def publish_head_json_def build_head_key_def
        snprintf_fits_def join_root_def KEY_MAX_def effective_strategy_def)
     (simp add: sample_request_def sample_committed_def memory_eval k Let_def)
  have j: "rq_database_root sample_request = ''db''" "rq_commit_id sample_request = ''c1''" by (simp_all add: sample_request_def)
  have "publish_manifest sample_env ?store (?m 1) sample_request [(sample_ref, None)] =
      (JOURNAL_OK, Some \<lparr>cr_head = request_head sample_request ''db/commits/c1.json'' sample_hash,
        cr_manifest = request_manifest sample_request [sample_ref\<lparr>sg_frame_offsets := None\<rparr>],
        cr_head_etag = take 127 (make_etag 3)\<rparr>, sample_committed)"
    using p2 p3 by (simp add: publish_manifest_def sample_manifest_ok root_join_def snprintf_fits_def join_root_def KEY_MAX_def
        commit_name_def j string_or_empty_def)
  then show ?thesis
    using sample_put_segment
    by (simp add: otsardb_publish_commit_def sample_request_valid valid_segment_input_def Let_def)
qed

theorem publish_commit_atomic_witness:
  "head_condition sample_request (memory_objs empty_memory) \<and>
   (\<exists>h. head_moved sample_env sample_request (memory_objs sample_committed) h)"
  using sample_publish_ok publish_commit_atomic [OF mem.object_store_laws_axioms empty_memory_valid] by blast

text \<open>
  (C37) The manifest of an encrypted commit is the plain manifest with the vectors and tags spliced in before
  its closing brace.  Both readers get back what was written: the manifest decoder still gives the
  manifest, and the parser of \<open>segment_enc\<close> gives one entry per segment, in order.
\<close>

theorem encrypted_manifest_round_trip:
  assumes "manifest_wf m" "cm_format_version m = COMMIT_MANIFEST_VERSION"
    and entries: "list_all enc_entry_wf entries" "length entries = length (cm_segments m)"
    and enc: "otsardb_commit_manifest_encode_json sha m = Some (json, hash)"
    and inj: "manifest_inject_segment_enc sha json entries = Some (out, out_hash)"
  shows "otsardb_commit_manifest_decode_json (bytes_of_string out) = Some m \<and>
    otsardb_segment_enc_parse_json (bytes_of_string out) = Some \<lparr>es_entries = entries, es_present = True\<rparr> \<and>
    out_hash = otsardb_sha256_hex_data sha (bytes_of_string out)"
  by (rule inject_round_trip [OF assms])

definition sample_entry :: segment_enc where
  "sample_entry = \<lparr>en_alg = CIPHER_ALG_NAME, en_iv = replicate 12 7, en_tag = replicate 16 9\<rparr>"

theorem encrypted_manifest_round_trip_witness:
  "\<exists>out hash. manifest_inject_segment_enc id (manifest_document sample_manifest) [Some sample_entry] = Some (out, hash) \<and>
     otsardb_commit_manifest_decode_json (bytes_of_string out) = Some sample_manifest \<and>
     otsardb_segment_enc_parse_json (bytes_of_string out) = Some \<lparr>es_entries = [Some sample_entry], es_present = True\<rparr>"
proof -
  have enc: "otsardb_commit_manifest_encode_json id sample_manifest =
      Some (manifest_document sample_manifest, otsardb_sha256_hex_data id (bytes_of_string (manifest_document sample_manifest)))"
    using sample_manifest_valid sample_manifest_short by (simp add: otsardb_commit_manifest_encode_json_def manifest_text_exact)
  have wf: "list_all enc_entry_wf [Some sample_entry]"
    by (simp add: enc_entry_wf_def sample_entry_def CIPHER_IV_BYTES_def CIPHER_TAG_BYTES_def)
  have v: "cm_format_version sample_manifest = COMMIT_MANIFEST_VERSION" "length (cm_segments sample_manifest) = 1"
    by (simp_all add: sample_manifest_def COMMIT_MANIFEST_VERSION_def)
  obtain body where body: "manifest_extended sample_manifest ext = body @ ext @ [CHR ''}'', CHR 0x0A]" for ext
    by (simp add: manifest_extended_def list_fields_def)
  have doc: "manifest_document sample_manifest = body @ [CHR ''}'', CHR 0x0A]"
    using body [of "[]"] v by (simp add: manifest_document_def manifest_list_extended COMMIT_MANIFEST_VERSION_def)
  have "length (enc_field [Some sample_entry]) \<le> 200"
    by (simp add: enc_field_def segment_enc_marker_def enc_entry_str_def enc_entry_text_def sample_entry_def json_str_def
        pattern_defs CIPHER_ALG_NAME_def)
  moreover have "length body \<le> 1000" using sample_manifest_small by (simp add: doc)
  ultimately have "length body + length (enc_field [Some sample_entry]) + 2 \<le> int_max" by (simp add: int_max_def)
  from manifest_inject_ok [OF this, of id]
  obtain out hash where inj: "manifest_inject_segment_enc id (manifest_document sample_manifest) [Some sample_entry] = Some (out, hash)"
    unfolding doc by blast
  from encrypted_manifest_round_trip [OF sample_manifest_wf v(1) wf _ enc inj] v(2) inj show ?thesis by simp
qed

end
