(* ===== verification/Commit_Resolve.thy ===== *)
theory Commit_Resolve
  imports Commit_Publish
begin

text \<open>
  What became of a commit, the second half of \<open>src/storage/commit_publish.c\<close>: after a lost answer the
  publisher walks the chain of manifests from HEAD to find out whether its commit is on it, and after
  a lost race whether the commits in between touched its pages.  The walk reads at most one less than
  \<open>RECOVERY_MAX_COMMITS\<close> manifests, which is the bound of the recursion.
\<close>

section \<open>Positions on the chain\<close>

datatype commit_state = STATE_UNKNOWN | STATE_COMMITTED | STATE_NOT_COMMITTED | STATE_SUPERSEDED

definition RECOVERY_MAX_COMMITS :: nat where "RECOVERY_MAX_COMMITS = 1000000"

text \<open>The local variables of the walk.\<close>

record chain_pos =
  pos_commit_id :: string
  pos_key :: string
  pos_sha256 :: string
  pos_generation :: u64

definition build_manifest_key :: "string \<Rightarrow> string \<Rightarrow> nat \<Rightarrow> string option" where
  "build_manifest_key root commit_id out_size =
     (case snprintf_fits (commit_name commit_id) (KEY_MAX + 1) of
        None \<Rightarrow> None
      | Some name \<Rightarrow> root_join root name out_size)"

definition read_manifest ::
  "(bytes \<Rightarrow> bytes) \<Rightarrow> 'w object_store \<Rightarrow> 'w \<Rightarrow> string \<Rightarrow> string \<Rightarrow> journal_result \<times> commit_manifest option \<times> 'w" where
  "read_manifest sha store w key expected_sha256 =
     (case otsardb_store_get store w key of (rc, ob, w') \<Rightarrow>
        if rc = STORE_NOT_FOUND then (JOURNAL_NOT_FOUND, None, w')
        else if rc \<noteq> STORE_OK then (JOURNAL_ERROR, None, w')
        else if \<not> (expected_sha256 = [] \<or> otsardb_sha256_hex_data sha (so_data ob) = expected_sha256)
        then (JOURNAL_INVALID, None, w')
        else (case otsardb_commit_manifest_decode_json (so_data ob) of
                None \<Rightarrow> (JOURNAL_INVALID, None, w')
              | Some m \<Rightarrow> (JOURNAL_OK, Some m, w')))"

definition head_pos :: "head \<Rightarrow> chain_pos" where
  "head_pos h = \<lparr>pos_commit_id = take COMMIT_ID_MAX (hd_commit_id h), pos_key = take KEY_MAX (hd_commit_key h),
     pos_sha256 = take MANIFEST_SHA256_HEX_SIZE (hd_commit_sha256 h), pos_generation = hd_generation h\<rparr>"

definition parent_pos :: "string \<Rightarrow> commit_manifest \<Rightarrow> chain_pos option" where
  "parent_pos root m =
     (let commit_id = take COMMIT_ID_MAX (cm_parent_commit_id m) in
      (case build_manifest_key root commit_id (KEY_MAX + 1) of
         None \<Rightarrow> None
       | Some key \<Rightarrow>
           Some \<lparr>pos_commit_id = commit_id, pos_key = key,
                 pos_sha256 = (if cm_format_version m \<ge> 2
                              then take MANIFEST_SHA256_HEX_SIZE (cm_parent_manifest_sha256 m) else []),
                 pos_generation = cm_parent_generation m\<rparr>))"

section \<open>The boundary of the checkpoint\<close>

definition extract_u64_field :: "string \<Rightarrow> string \<Rightarrow> u64 option" where
  "extract_u64_field json name =
     (if length (pattern_u64 name) \<ge> 80 then None
      else case strstr json (pattern_u64 name) of
        None \<Rightarrow> None
      | Some p \<Rightarrow> map_option fst (strict_strtoull (skip_blanks (after_pattern (pattern_u64 name) p))))"

definition extract_string_field :: "string \<Rightarrow> string \<Rightarrow> nat \<Rightarrow> string option" where
  "extract_string_field json name out_size =
     (if length (pattern_str name) \<ge> 80 then None
      else case strstr json (pattern_str name) of
        None \<Rightarrow> None
      | Some p \<Rightarrow>
          let v = after_pattern (pattern_str name) p in
          (case strchr v quote of
             None \<Rightarrow> None
           | Some e \<Rightarrow>
               let len = length v - length e in
               if len \<ge> out_size then None else Some (take len v)))"

text \<open>
  The source searches the bytes of the object as a C string; here the string ends with the object.
\<close>

definition covered_pointer :: "bytes \<Rightarrow> (u64 \<times> string \<times> string) option" where
  "covered_pointer data =
     (let json = c_str (string_of_bytes data) in
      do { covered \<leftarrow> extract_u64_field json ''covered_generation'';
           cp_sha \<leftarrow> extract_string_field json ''checkpoint_sha256'' (SHA256_HEX_MAX + 1);
           require (length cp_sha = SHA256_HEX_MAX);
           cp_key \<leftarrow> extract_string_field json ''checkpoint_key'' (KEY_MAX + 1);
           Some (covered, cp_sha, cp_key) })"

definition resolve_covered_generation ::
  "(bytes \<Rightarrow> bytes) \<Rightarrow> 'w object_store \<Rightarrow> 'w \<Rightarrow> string \<Rightarrow> u64 \<Rightarrow> u64 option \<times> 'w" where
  "resolve_covered_generation sha store w root head_generation =
     (case root_join root ''CHECKPOINT.json'' (KEY_MAX + 1) of
        None \<Rightarrow> (None, w)
      | Some ptr_key \<Rightarrow>
     (case otsardb_store_get store w ptr_key of (rc, ptr, w1) \<Rightarrow>
        if rc \<noteq> STORE_OK then (None, w1)
        else (case covered_pointer (so_data ptr) of
           None \<Rightarrow> (None, w1)
         | Some (covered, cp_sha, cp_key) \<Rightarrow>
             if covered = 0 \<or> covered > head_generation then (None, w1)
             else (case otsardb_store_get store w1 cp_key of (rc, cp, w2) \<Rightarrow>
               if rc \<noteq> STORE_OK then (None, w2)
               else if otsardb_sha256_hex_data sha (so_data cp) = cp_sha \<and>
                       extract_u64_field (c_str (string_of_bytes (so_data cp))) ''covered_generation'' = Some covered
               then (Some covered, w2) else (None, w2)))))"

section \<open>Resolving a commit\<close>

text \<open>A manifest that is missing below the boundary of a valid checkpoint was swept.\<close>

definition swept ::
  "(bytes \<Rightarrow> bytes) \<Rightarrow> 'w object_store \<Rightarrow> 'w \<Rightarrow> string \<Rightarrow> u64 \<Rightarrow> u64 \<Rightarrow> bool \<times> 'w" where
  "swept sha store w root head_generation generation =
     (if \<not> generation < head_generation then (False, w)
      else case resolve_covered_generation sha store w root head_generation of
        (None, w') \<Rightarrow> (False, w')
      | (Some covered, w') \<Rightarrow> (generation < covered, w'))"

text \<open>
  Reading the manifest of a position: either the walk ends here, with a result and a state, or there is
  a manifest that fits the position.
\<close>

definition fetch_position ::
  "(bytes \<Rightarrow> bytes) \<Rightarrow> 'w object_store \<Rightarrow> string \<Rightarrow> u64 \<Rightarrow> 'w \<Rightarrow> chain_pos \<Rightarrow>
   ((journal_result \<times> commit_state) + commit_manifest) \<times> 'w" where
  "fetch_position sha store root head_generation w p =
     (case read_manifest sha store w (pos_key p) (pos_sha256 p) of
        (rc, None, w') \<Rightarrow>
          if rc = JOURNAL_NOT_FOUND then
            (case swept sha store w' root head_generation (pos_generation p) of
               (True, w'') \<Rightarrow> (Inl (JOURNAL_OK, STATE_SUPERSEDED), w'')
             | (False, w'') \<Rightarrow> (Inl (rc, STATE_UNKNOWN), w''))
          else (Inl (rc, STATE_UNKNOWN), w')
      | (rc, Some m, w') \<Rightarrow>
          if cm_generation m \<noteq> pos_generation p \<or> cm_commit_id m \<noteq> pos_commit_id p
          then (Inl (JOURNAL_INVALID, STATE_UNKNOWN), w')
          else (Inr m, w'))"

fun resolve_walk ::
  "(bytes \<Rightarrow> bytes) \<Rightarrow> 'w object_store \<Rightarrow> string \<Rightarrow> string \<Rightarrow> u64 \<Rightarrow> u64 \<Rightarrow> nat \<Rightarrow> 'w \<Rightarrow> chain_pos \<Rightarrow>
   journal_result \<times> commit_state \<times> 'w" where
  "resolve_walk sha store root commit_id parent head_generation room w p =
     (if \<not> pos_generation p > parent then (JOURNAL_OK, STATE_SUPERSEDED, w)
      else if room = 0 then (JOURNAL_INVALID, STATE_UNKNOWN, w)
      else if pos_commit_id p = commit_id then (JOURNAL_OK, STATE_COMMITTED, w)
      else case fetch_position sha store root head_generation w p of
        (Inl (rc, state), w') \<Rightarrow> (rc, state, w')
      | (Inr m, w') \<Rightarrow>
          if cm_parent_generation m < parent then (JOURNAL_OK, STATE_SUPERSEDED, w')
          else if cm_parent_generation m = parent
          then (JOURNAL_OK, if cm_parent_commit_id m = commit_id then STATE_COMMITTED else STATE_SUPERSEDED, w')
          else if cm_parent_commit_id m = [] then (JOURNAL_OK, STATE_SUPERSEDED, w')
          else (case parent_pos root m of
             None \<Rightarrow> (JOURNAL_INVALID, STATE_UNKNOWN, w')
           | Some q \<Rightarrow> resolve_walk sha store root commit_id parent head_generation (room - 1) w' q))"

declare resolve_walk.simps [simp del]

definition otsardb_resolve_commit ::
  "(bytes \<Rightarrow> bytes) \<Rightarrow> 'w object_store \<Rightarrow> 'w \<Rightarrow> string \<Rightarrow> string \<Rightarrow> u64 \<Rightarrow> journal_result \<times> commit_state \<times> 'w" where
  "otsardb_resolve_commit sha store w root commit_id parent =
     (if commit_id = [] then (JOURNAL_INVALID, STATE_UNKNOWN, w)
      else case otsardb_journal_read_head store w root of
        (rc, None, w') \<Rightarrow>
          if rc = JOURNAL_NOT_FOUND then (JOURNAL_OK, STATE_NOT_COMMITTED, w') else (rc, STATE_UNKNOWN, w')
      | (rc, Some (h, etag), w') \<Rightarrow>
          if hd_commit_id h = commit_id then (JOURNAL_OK, STATE_COMMITTED, w')
          else if hd_generation h \<le> parent then (JOURNAL_OK, STATE_NOT_COMMITTED, w')
          else resolve_walk sha store root commit_id parent (hd_generation h) (RECOVERY_MAX_COMMITS - 1) w' (head_pos h))"

section \<open>Page conflicts\<close>

definition request_has_page_info :: "segment_input list \<Rightarrow> bool" where
  "request_has_page_info inputs \<longleftrightarrow> list_all (\<lambda>s. si_pages s \<noteq> None) inputs"

fun sorted_u32_any_intersect :: "u32 list \<Rightarrow> u32 list \<Rightarrow> bool" where
  "sorted_u32_any_intersect (a # as) (b # bs) =
     (if a < b then sorted_u32_any_intersect as (b # bs)
      else if b < a then sorted_u32_any_intersect (a # as) bs
      else True)"
| "sorted_u32_any_intersect _ _ = False"

definition request_overlaps_manifest :: "segment_input list \<Rightarrow> commit_manifest \<Rightarrow> bool" where
  "request_overlaps_manifest inputs m \<longleftrightarrow>
     list_ex (\<lambda>ref. sg_pages ref = [] \<or>
       list_ex (\<lambda>s. sorted_u32_any_intersect (the (si_pages s)) (sg_pages ref)) inputs) (cm_segments m)"

fun conflict_walk ::
  "(bytes \<Rightarrow> bytes) \<Rightarrow> 'w object_store \<Rightarrow> string \<Rightarrow> commit_request \<Rightarrow> segment_input list \<Rightarrow> u64 \<Rightarrow> nat \<Rightarrow> bool \<Rightarrow> 'w \<Rightarrow>
   chain_pos \<Rightarrow> journal_result \<times> commit_state \<times> bool \<times> 'w" where
  "conflict_walk sha store root rq inputs head_generation room overlap w p =
     (if \<not> pos_generation p > rq_parent_generation rq then (JOURNAL_OK, STATE_SUPERSEDED, overlap, w)
      else if room = 0 then (JOURNAL_INVALID, STATE_UNKNOWN, overlap, w)
      else if pos_commit_id p = rq_commit_id rq then (JOURNAL_OK, STATE_COMMITTED, False, w)
      else case fetch_position sha store root head_generation w p of
        (Inl (rc, state), w') \<Rightarrow> (rc, state, overlap, w')
      | (Inr m, w') \<Rightarrow>
          let overlap = (overlap \<or> request_has_page_info inputs \<and> request_overlaps_manifest inputs m) in
          if cm_parent_generation m < rq_parent_generation rq then (JOURNAL_OK, STATE_SUPERSEDED, overlap, w')
          else if cm_parent_generation m = rq_parent_generation rq
          then (JOURNAL_OK,
                if cm_parent_commit_id m = rq_commit_id rq then STATE_COMMITTED else STATE_SUPERSEDED, overlap, w')
          else if cm_parent_commit_id m = [] then (JOURNAL_OK, STATE_SUPERSEDED, overlap, w')
          else (case parent_pos root m of
             None \<Rightarrow> (JOURNAL_INVALID, STATE_UNKNOWN, overlap, w')
           | Some q \<Rightarrow> conflict_walk sha store root rq inputs head_generation (room - 1) overlap w' q))"

declare conflict_walk.simps [simp del]

definition otsardb_publish_commit_detect_conflict ::
  "(bytes \<Rightarrow> bytes) \<Rightarrow> 'w object_store \<Rightarrow> 'w \<Rightarrow> string \<Rightarrow> commit_request \<Rightarrow>
   journal_result \<times> commit_state \<times> bool \<times> 'w" where
  "otsardb_publish_commit_detect_conflict sha store w root rq =
     (if root = [] \<or> rq_commit_id rq = [] \<or> \<not> valid_parent_request rq then (JOURNAL_INVALID, STATE_UNKNOWN, False, w)
      else case resolve_segment_inputs rq of
        None \<Rightarrow> (JOURNAL_INVALID, STATE_UNKNOWN, False, w)
      | Some inputs \<Rightarrow>
          if \<not> list_all valid_segment_input inputs then (JOURNAL_INVALID, STATE_UNKNOWN, False, w)
          else let overlap = (\<not> request_has_page_info inputs) in
            (case otsardb_journal_read_head store w root of
               (rc, None, w') \<Rightarrow>
                 if rc = JOURNAL_NOT_FOUND then (JOURNAL_OK, STATE_NOT_COMMITTED, overlap, w')
                 else (rc, STATE_UNKNOWN, overlap, w')
             | (rc, Some (h, etag), w') \<Rightarrow>
                 if hd_commit_id h = rq_commit_id rq then (JOURNAL_OK, STATE_COMMITTED, False, w')
                 else if hd_generation h \<le> rq_parent_generation rq then (JOURNAL_OK, STATE_NOT_COMMITTED, overlap, w')
                 else conflict_walk sha store root rq inputs (hd_generation h) (RECOVERY_MAX_COMMITS - 1) overlap w'
                        (head_pos h)))"

section \<open>The chain\<close>

definition manifest_at :: "(bytes \<Rightarrow> bytes) \<Rightarrow> (string \<rightharpoonup> store_object) \<Rightarrow> chain_pos \<Rightarrow> commit_manifest \<Rightarrow> bool" where
  "manifest_at sha contents p m \<longleftrightarrow>
     (\<exists>ob. contents (pos_key p) = Some ob \<and>
       (pos_sha256 p = [] \<or> otsardb_sha256_hex_data sha (so_data ob) = pos_sha256 p) \<and>
       otsardb_commit_manifest_decode_json (so_data ob) = Some m \<and>
       cm_generation m = pos_generation p \<and> cm_commit_id m = pos_commit_id p)"

text \<open>The positions that are reached from a position through the manifests in the store.\<close>

inductive chain_from ::
  "(bytes \<Rightarrow> bytes) \<Rightarrow> (string \<rightharpoonup> store_object) \<Rightarrow> string \<Rightarrow> chain_pos \<Rightarrow> chain_pos \<Rightarrow> bool"
  for sha contents root where
  chain_here: "chain_from sha contents root p p"
| chain_parent: "manifest_at sha contents p m \<Longrightarrow> cm_parent_commit_id m \<noteq> [] \<Longrightarrow> parent_pos root m = Some q \<Longrightarrow>
    chain_from sha contents root q r \<Longrightarrow> chain_from sha contents root p r"

inductive_cases chain_fromE: "chain_from sha contents root p r"

definition on_chain :: "(bytes \<Rightarrow> bytes) \<Rightarrow> (string \<rightharpoonup> store_object) \<Rightarrow> string \<Rightarrow> chain_pos \<Rightarrow> bool" where
  "on_chain sha contents root p \<longleftrightarrow>
     (\<exists>h. stored_head contents root = Some h \<and> chain_from sha contents root (head_pos h) p)"

lemma manifest_at_unique: "manifest_at sha contents p m \<Longrightarrow> manifest_at sha contents p m' \<Longrightarrow> m' = m"
  by (auto simp: manifest_at_def)

lemma manifest_at_parent:
  assumes "manifest_at sha contents p m"
  shows "cm_parent_generation m < pos_generation p"
proof -
  have v: "manifest_parent_is_valid m" "cm_generation m \<noteq> 0" and g: "cm_generation m = pos_generation p"
    using assms manifest_decode_valid by (auto simp: manifest_at_def manifest_valid_def)
  show ?thesis
  proof (cases "cm_parent_generation m = 0")
    case True
    then show ?thesis using v(2) g by (simp add: word_gt_0)
  next
    case False
    then have "cm_generation m = cm_parent_generation m + 1" using v(1) by (simp add: manifest_parent_is_valid_def split: if_splits)
    then show ?thesis
      using v(2) g unatSuc [of "cm_parent_generation m"] by (simp add: word_less_nat_alt add.commute)
  qed
qed

lemma chain_from_generation: "chain_from sha contents root p q \<Longrightarrow> q = p \<or> pos_generation q < pos_generation p"
proof (induction rule: chain_from.induct)
  case (chain_parent p m q r)
  have "pos_generation q = cm_parent_generation m"
    using chain_parent.hyps(3) by (auto simp: parent_pos_def Let_def split: option.splits)
  with manifest_at_parent [OF chain_parent.hyps(1)] chain_parent.IH show ?case by auto
qed simp

lemma chain_from_missing:
  "chain_from sha contents root p q \<Longrightarrow> contents (pos_key p) = None \<Longrightarrow> q = p"
  by (erule chain_fromE) (auto simp: manifest_at_def)

lemma chain_from_known:
  assumes "manifest_at sha contents p m"
  shows "chain_from sha contents root p q \<longleftrightarrow>
    q = p \<or> cm_parent_commit_id m \<noteq> [] \<and> (\<exists>r. parent_pos root m = Some r \<and> chain_from sha contents root r q)"
proof
  assume "chain_from sha contents root p q"
  then show "q = p \<or> cm_parent_commit_id m \<noteq> [] \<and> (\<exists>r. parent_pos root m = Some r \<and> chain_from sha contents root r q)"
    by (rule chain_fromE) (use manifest_at_unique [OF assms] in auto)
next
  assume "q = p \<or> cm_parent_commit_id m \<noteq> [] \<and> (\<exists>r. parent_pos root m = Some r \<and> chain_from sha contents root r q)"
  then show "chain_from sha contents root p q" using chain_parent [OF assms] by (auto intro: chain_here)
qed

lemma parent_pos_generation: "parent_pos root m = Some q \<Longrightarrow> pos_generation q = cm_parent_generation m"
  by (auto simp: parent_pos_def Let_def split: option.splits)

text \<open>A commit is found above a generation: some position has its name, or is the first above and names it as parent.\<close>

definition committed_above ::
  "(bytes \<Rightarrow> bytes) \<Rightarrow> (string \<rightharpoonup> store_object) \<Rightarrow> string \<Rightarrow> string \<Rightarrow> u64 \<Rightarrow> chain_pos \<Rightarrow> bool" where
  "committed_above sha contents root commit_id parent p \<longleftrightarrow>
     (\<exists>q. chain_from sha contents root p q \<and> pos_generation q > parent \<and>
       (pos_commit_id q = commit_id \<or>
        (\<exists>m. manifest_at sha contents q m \<and> cm_parent_generation m = parent \<and> cm_parent_commit_id m = commit_id)))"

lemma committed_above_low: "\<not> pos_generation p > parent \<Longrightarrow> \<not> committed_above sha contents root cid parent p"
  using chain_from_generation by (fastforce simp: committed_above_def)

lemma committed_above_missing:
  "contents (pos_key p) = None \<Longrightarrow> pos_commit_id p \<noteq> cid \<Longrightarrow> \<not> committed_above sha contents root cid parent p"
  using chain_from_missing by (fastforce simp: committed_above_def manifest_at_def)

lemma committed_above_known:
  assumes "manifest_at sha contents p m" "pos_generation p > parent" "pos_commit_id p \<noteq> cid"
  shows "committed_above sha contents root cid parent p \<longleftrightarrow>
    (cm_parent_generation m = parent \<and> cm_parent_commit_id m = cid) \<or>
    (cm_parent_commit_id m \<noteq> [] \<and> (\<exists>r. parent_pos root m = Some r \<and> committed_above sha contents root cid parent r))"
proof -
  have m: "manifest_at sha contents p m' \<longleftrightarrow> m' = m" for m' using manifest_at_unique [OF assms(1)] assms(1) by blast
  show ?thesis
    unfolding committed_above_def chain_from_known [OF assms(1)] using assms(2,3) m by auto
qed

context object_store_laws
begin

lemma read_manifest_law:
  assumes "read_manifest sha store w (pos_key p) (pos_sha256 p) = (rc, res, w')" "valid w"
  shows "valid w' \<and> objs w' = objs w \<and> (rc = JOURNAL_NOT_FOUND \<longrightarrow> objs w (pos_key p) = None) \<and>
    (\<forall>m. res = Some m \<longrightarrow> rc = JOURNAL_OK \<and>
       (cm_generation m = pos_generation p \<and> cm_commit_id m = pos_commit_id p \<longrightarrow> manifest_at sha (objs w) p m)) \<and>
    (rc = JOURNAL_OK \<longrightarrow> res \<noteq> None)"
proof -
  obtain src ob w2 where get: "otsardb_store_get store w (pos_key p) = (src, ob, w2)"
    by (cases "otsardb_store_get store w (pos_key p)")
  obtain d where d: "otsardb_commit_manifest_decode_json (so_data ob) = d" by blast
  from get_law [OF get assms(2)] assms(1) get show ?thesis
    by (cases d) (auto simp: read_manifest_def manifest_at_def d split: if_splits)
qed

lemma resolve_covered_same:
  assumes "resolve_covered_generation sha store w root g = (res, w')" "valid w"
  shows "valid w' \<and> objs w' = objs w"
proof (cases "root_join root ''CHECKPOINT.json'' (KEY_MAX + 1)")
  case None
  then show ?thesis using assms by (simp add: resolve_covered_generation_def)
next
  case (Some ptr_key)
  obtain r1 ptr w1 where g1: "otsardb_store_get store w ptr_key = (r1, ptr, w1)" by (cases "otsardb_store_get store w ptr_key")
  note s1 = get_same [OF g1 assms(2)]
  show ?thesis
  proof (cases "r1 \<noteq> STORE_OK \<or> covered_pointer (so_data ptr) = None")
    case True
    then show ?thesis using assms(1) Some g1 s1 by (auto simp: resolve_covered_generation_def simp del: root_join_Some split: if_splits)
  next
    case False
    then obtain covered cp_sha cp_key where c: "covered_pointer (so_data ptr) = Some (covered, cp_sha, cp_key)" by auto
    obtain r2 cp w2 where g2: "otsardb_store_get store w1 cp_key = (r2, cp, w2)" by (cases "otsardb_store_get store w1 cp_key")
    have "w' = w1 \<or> w' = w2"
      using assms(1) Some g1 g2 c False by (auto simp: resolve_covered_generation_def simp del: root_join_Some split: if_splits)
    then show ?thesis using s1 get_same [OF g2 conjunct1 [OF s1]] by auto
  qed
qed

lemma swept_same:
  assumes "swept sha store w root hg g = (b, w')" "valid w"
  shows "valid w' \<and> objs w' = objs w"
proof (cases "g < hg")
  case True
  obtain res w2 where r: "resolve_covered_generation sha store w root hg = (res, w2)"
    by (cases "resolve_covered_generation sha store w root hg")
  then have "w' = w2" using assms(1) True by (auto simp: swept_def split: option.splits)
  with resolve_covered_same [OF r assms(2)] show ?thesis by simp
next
  case False
  then show ?thesis using assms by (simp add: swept_def)
qed

lemma fetch_position_law:
  assumes "fetch_position sha store root hg w p = (res, w')" "valid w"
  shows "valid w' \<and> objs w' = objs w \<and>
    (\<forall>st. res = Inl (JOURNAL_OK, st) \<longrightarrow> st = STATE_SUPERSEDED \<and> objs w (pos_key p) = None) \<and>
    (\<forall>m. res = Inr m \<longrightarrow> manifest_at sha (objs w) p m)"
proof -
  obtain r m w1 where rd: "read_manifest sha store w (pos_key p) (pos_sha256 p) = (r, m, w1)"
    by (cases "read_manifest sha store w (pos_key p) (pos_sha256 p)")
  note law = read_manifest_law [OF rd assms(2)]
  obtain b w2 where sw: "swept sha store w1 root hg (pos_generation p) = (b, w2)"
    by (cases "swept sha store w1 root hg (pos_generation p)")
  note same = swept_same [OF sw conjunct1 [OF law]]
  show ?thesis
  proof (cases m)
    case None
    show ?thesis
    proof (cases "r = JOURNAL_NOT_FOUND")
      case True
      then show ?thesis using assms(1) rd sw law same None by (cases b) (auto simp: fetch_position_def)
    next
      case False
      then show ?thesis using assms(1) rd law None by (auto simp: fetch_position_def)
    qed
  next
    case (Some m')
    then show ?thesis using assms(1) rd law by (auto simp: fetch_position_def split: if_splits)
  qed
qed

lemma resolve_walk_law:
  assumes "resolve_walk sha store root cid parent hg room w p = (rc, st, w')" "valid w"
  shows "valid w' \<and> objs w' = objs w \<and>
    (rc = JOURNAL_OK \<longrightarrow> st = (if committed_above sha (objs w) root cid parent p then STATE_COMMITTED else STATE_SUPERSEDED))"
  using assms
proof (induction room arbitrary: w p)
  case 0
  then show ?case using committed_above_low [of parent p]
    by (subst (asm) resolve_walk.simps) (auto split: if_splits)
next
  case (Suc room)
  note step = Suc.prems(1) [unfolded resolve_walk.simps [of sha store root cid parent hg "Suc room" w p]]
  show ?case
  proof (cases "pos_generation p > parent \<and> pos_commit_id p \<noteq> cid")
    case False
    moreover have "committed_above sha (objs w) root cid parent p \<longleftrightarrow> pos_generation p > parent"
    proof (cases "pos_generation p > parent")
      case True
      then show ?thesis using False by (auto simp: committed_above_def intro: chain_here)
    qed (simp add: committed_above_low)
    ultimately show ?thesis using step Suc.prems(2) by (auto split: if_splits)
  next
    case True
    obtain res w1 where f: "fetch_position sha store root hg w p = (res, w1)" by (cases "fetch_position sha store root hg w p")
    note law = fetch_position_law [OF f Suc.prems(2)]
    show ?thesis
    proof (cases res)
      case (Inl e)
      then show ?thesis
        using step f True law committed_above_missing [of "objs w" p cid] by (cases e) auto
    next
      case (Inr m)
      have at: "manifest_at sha (objs w) p m" using law Inr by simp
      note known = committed_above_known [OF at conjunct1 [OF True] conjunct2 [OF True], of root]
      have low: "\<not> committed_above sha (objs w) root cid parent q"
        if "parent_pos root m = Some q" "\<not> cm_parent_generation m > parent" for q
        using that committed_above_low [of parent q] parent_pos_generation [OF that(1)] by simp
      show ?thesis
      proof (cases "cm_parent_generation m > parent \<and> cm_parent_commit_id m \<noteq> []")
        case False
        then show ?thesis using step f Inr True law known low by (auto split: if_splits)
      next
        case more: True
        then have up: "\<not> cm_parent_generation m < parent" "cm_parent_generation m \<noteq> parent" by auto
        show ?thesis
        proof (cases "parent_pos root m")
          case None
          then show ?thesis using step f Inr True law more up by auto
        next
          case (Some q)
          then have "resolve_walk sha store root cid parent hg room w1 q = (rc, st, w')"
            using step f Inr True more up by simp
          from Suc.IH [OF this] law known more Some up show ?thesis by simp
        qed
      qed
    qed
  qed
qed

end

text \<open>The two walks agree on everything but the overlap.\<close>

lemma conflict_walk_resolves:
  "resolve_walk sha store root (rq_commit_id rq) (rq_parent_generation rq) hg room w p =
     (case conflict_walk sha store root rq inputs hg room overlap w p of (rc, st, ov, w') \<Rightarrow> (rc, st, w'))"
proof (induction sha store root rq inputs hg room overlap w p rule: conflict_walk.induct)
  case (1 sha store root rq inputs hg room overlap w p)
  obtain res w1 where f: "fetch_position sha store root hg w p = (res, w1)" by (cases "fetch_position sha store root hg w p")
  show ?case
    using 1 [OF _ _ _ f [symmetric]] f
    by (subst resolve_walk.simps, subst conflict_walk.simps)
      (simp add: Let_def split: sum.splits option.splits)
qed

definition interleaved ::
  "(bytes \<Rightarrow> bytes) \<Rightarrow> (string \<rightharpoonup> store_object) \<Rightarrow> string \<Rightarrow> u64 \<Rightarrow> chain_pos \<Rightarrow> commit_manifest \<Rightarrow> bool" where
  "interleaved sha contents root parent p m \<longleftrightarrow>
     (\<exists>q. chain_from sha contents root p q \<and> pos_generation q > parent \<and> manifest_at sha contents q m)"

lemma interleaved_low: "\<not> pos_generation p > parent \<Longrightarrow> \<not> interleaved sha contents root parent p m"
  using chain_from_generation by (fastforce simp: interleaved_def)

lemma interleaved_missing: "contents (pos_key p) = None \<Longrightarrow> \<not> interleaved sha contents root parent p m"
  using chain_from_missing by (fastforce simp: interleaved_def manifest_at_def)

lemma interleaved_known:
  assumes "manifest_at sha contents p m" "pos_generation p > parent"
  shows "interleaved sha contents root parent p m' \<longleftrightarrow>
    m' = m \<or> (cm_parent_commit_id m \<noteq> [] \<and> (\<exists>r. parent_pos root m = Some r \<and> interleaved sha contents root parent r m'))"
proof -
  have m: "manifest_at sha contents p m' \<longleftrightarrow> m' = m" for m' using manifest_at_unique [OF assms(1)] assms(1) by blast
  show ?thesis unfolding interleaved_def chain_from_known [OF assms(1)] using assms(2) m by auto
qed

context object_store_laws
begin

lemma conflict_walk_law:
  assumes "conflict_walk sha store root rq inputs hg room overlap w p = (JOURNAL_OK, st, ov, w')" "valid w"
    "st \<noteq> STATE_COMMITTED"
  shows "ov \<longleftrightarrow> overlap \<or> request_has_page_info inputs \<and>
    (\<exists>m. interleaved sha (objs w) root (rq_parent_generation rq) p m \<and> request_overlaps_manifest inputs m)"
  using assms
proof (induction room arbitrary: overlap w p)
  case 0
  then show ?case using interleaved_low [of "rq_parent_generation rq" p]
    by (subst (asm) conflict_walk.simps) (auto split: if_splits)
next
  case (Suc room)
  let ?parent = "rq_parent_generation rq"
  note step = Suc.prems(1) [unfolded conflict_walk.simps [of sha store root rq inputs hg "Suc room" overlap w p]]
  show ?case
  proof (cases "pos_generation p > ?parent \<and> pos_commit_id p \<noteq> rq_commit_id rq")
    case False
    then show ?thesis
      using step Suc.prems(3) interleaved_low [of ?parent p] by (auto split: if_splits)
  next
    case True
    obtain res w1 where f: "fetch_position sha store root hg w p = (res, w1)" by (cases "fetch_position sha store root hg w p")
    note law = fetch_position_law [OF f Suc.prems(2)]
    show ?thesis
    proof (cases res)
      case (Inl e)
      then show ?thesis
        using step f True law interleaved_missing [of "objs w" p] by (cases e) auto
    next
      case (Inr m)
      have at: "manifest_at sha (objs w) p m" using law Inr by simp
      note known = interleaved_known [OF at conjunct1 [OF True], of root]
      have low: "\<not> interleaved sha (objs w) root ?parent q m'"
        if "parent_pos root m = Some q" "\<not> cm_parent_generation m > ?parent" for q m'
        using that interleaved_low [of ?parent q] parent_pos_generation [OF that(1)] by simp
      show ?thesis
      proof (cases "cm_parent_generation m > ?parent \<and> cm_parent_commit_id m \<noteq> []")
        case False
        then have "interleaved sha (objs w) root ?parent p m' \<longleftrightarrow> m' = m" for m' using known low by blast
        then show ?thesis using step f Inr True False by (auto simp: Let_def split: if_splits)
      next
        case more: True
        then have up: "\<not> cm_parent_generation m < ?parent" "cm_parent_generation m \<noteq> ?parent" by auto
        show ?thesis
        proof (cases "parent_pos root m")
          case None
          then show ?thesis using step f Inr True more up by (auto simp: Let_def)
        next
          case (Some q)
          let ?ov = "overlap \<or> request_has_page_info inputs \<and> request_overlaps_manifest inputs m"
          have "conflict_walk sha store root rq inputs hg room ?ov w1 q = (JOURNAL_OK, st, ov, w')"
            using step f Inr True more up Some by (simp add: Let_def)
          from Suc.IH [OF this _ Suc.prems(3)] law known more Some show ?thesis by auto
        qed
      qed
    qed
  qed
qed

end

lemma intersect_sets:
  "sorted_wrt (<) as \<Longrightarrow> sorted_wrt (<) bs \<Longrightarrow> sorted_u32_any_intersect as bs \<longleftrightarrow> set as \<inter> set bs \<noteq> {}"
proof (induction as bs rule: sorted_u32_any_intersect.induct)
  case (1 a as b bs)
  consider "a < b" | "b < a" | "a = b" by fastforce
  then show ?case
  proof cases
    case 1
    then have "a \<notin> set (b # bs)" using "1.prems"(2) by (auto dest: less_trans)
    then show ?thesis using 1 "1.IH"(1) "1.prems" by auto
  next
    case 2
    then have "b \<notin> set (a # as)" using "1.prems"(1) by (auto dest: less_trans)
    then show ?thesis using 2 "1.IH"(2) "1.prems" by auto
  next
    case 3
    then show ?thesis by auto
  qed
qed simp_all

lemma valid_page_input_sorted: "valid_page_input pages \<Longrightarrow> sorted_wrt (<) pages"
proof -
  assume "valid_page_input pages"
  then have step: "pages ! i < pages ! Suc i" if "Suc i < length pages" for i
    using that by (force simp: valid_page_input_def list_all_iff)
  show ?thesis using step by (simp add: sorted_wrt_iff_nth_Suc_transp)
qed

definition disjoint_pages :: "segment_input list \<Rightarrow> commit_manifest \<Rightarrow> bool" where
  "disjoint_pages inputs m \<longleftrightarrow>
     (\<forall>ref\<in>set (cm_segments m). sg_pages ref \<noteq> [] \<and>
       (\<forall>s\<in>set inputs. set (the (si_pages s)) \<inter> set (sg_pages ref) = {}))"

lemma request_overlaps_sets:
  assumes "otsardb_commit_manifest_decode_json bs = Some m" "list_all valid_segment_input inputs" "request_has_page_info inputs"
  shows "request_overlaps_manifest inputs m \<longleftrightarrow> \<not> disjoint_pages inputs m"
proof -
  have "sorted_wrt (<) (the (si_pages s))" if "s \<in> set inputs" for s
    using that assms(2,3) valid_page_input_sorted
    by (fastforce simp: list_all_iff valid_segment_input_def request_has_page_info_def split: option.splits)
  with manifest_decode_pages(1) [OF assms(1)] show ?thesis
    by (auto simp: request_overlaps_manifest_def disjoint_pages_def list_ex_iff intersect_sets)
qed

context object_store_laws
begin

lemma resolve_commit_law:
  assumes w: "valid w"
    and res: "otsardb_resolve_commit sha store w root cid parent = (JOURNAL_OK, st, w')"
  shows "objs w' = objs w \<and> st \<noteq> STATE_UNKNOWN \<and>
    (st = STATE_COMMITTED \<longleftrightarrow> (\<exists>h. stored_head (objs w) root = Some h \<and>
       (hd_commit_id h = cid \<or> committed_above sha (objs w) root cid parent (head_pos h)))) \<and>
    (st = STATE_NOT_COMMITTED \<longleftrightarrow> objs w (head_key root) = None \<or>
       (\<exists>h. stored_head (objs w) root = Some h \<and> hd_commit_id h \<noteq> cid \<and> hd_generation h \<le> parent))"
proof -
  obtain r ho w1 where rd: "otsardb_journal_read_head store w root = (r, ho, w1)" by (cases "otsardb_journal_read_head store w root")
  note law = read_head_law [OF rd w]
  have cid: "cid \<noteq> []" using res by (auto simp: otsardb_resolve_commit_def)
  show ?thesis
  proof (cases ho)
    case None
    then have "objs w (head_key root) = None" "st = STATE_NOT_COMMITTED" "w' = w1"
      using res rd law cid by (auto simp: otsardb_resolve_commit_def split: if_splits)
    then show ?thesis using law by (simp add: stored_head_def)
  next
    case (Some he)
    obtain h e where he: "he = (h, e)" by (cases he)
    have head: "stored_head (objs w) root = Some h" "objs w (head_key root) \<noteq> None" "valid w1" "objs w1 = objs w"
      using law Some he by auto
    have low: "\<not> committed_above sha (objs w) root cid parent (head_pos h)" if "hd_generation h \<le> parent"
      using committed_above_low [of parent "head_pos h"] that by (simp add: head_pos_def)
    consider "hd_commit_id h = cid" "st = STATE_COMMITTED" "w' = w1"
      | "hd_commit_id h \<noteq> cid" "hd_generation h \<le> parent" "st = STATE_NOT_COMMITTED" "w' = w1"
      | "hd_commit_id h \<noteq> cid" "\<not> hd_generation h \<le> parent"
        "resolve_walk sha store root cid parent (hd_generation h) (RECOVERY_MAX_COMMITS - 1) w1 (head_pos h) = (JOURNAL_OK, st, w')"
      using res rd Some he cid by (auto simp: otsardb_resolve_commit_def split: if_splits)
    then show ?thesis
    proof cases
      case 3
      then show ?thesis using resolve_walk_law [OF 3(3) head(3)] head by auto
    qed (use head low in auto)
  qed
qed

end

lemma sha256_hex_plain: "plain_string (otsardb_sha256_hex d)"
proof -
  have digit: "quote \<noteq> sha256_hex_digits ! n" "CHR 0x00 \<noteq> sha256_hex_digits ! n" if "n < 16" for n
  proof -
    have "n \<in> {0, 1, 2, 3, 4, 5, 6, 7, 8, 9, 10, 11, 12, 13, 14, 15}" using that by (simp; presburger)
    then show "quote \<noteq> sha256_hex_digits ! n" "CHR 0x00 \<noteq> sha256_hex_digits ! n" by (auto simp: sha256_hex_digits_def)
  qed
  show ?thesis
    by (simp add: otsardb_sha256_hex_def plain_string_def digit nibbles_of_byte(2))
qed

lemma plain_string_take: "plain_string s \<Longrightarrow> plain_string (take n s)"
  by (auto simp: plain_string_def dest: in_set_takeD)

lemma manifest_bytes_hash: "manifest_bytes env rq segs = Some (json, hash) \<Longrightarrow> plain_string hash"
  using sha256_hex_plain
  by (auto simp: manifest_bytes_def otsardb_commit_manifest_encode_json_def manifest_inject_segment_enc_def Let_def
      otsardb_sha256_hex_data_def bind_eq_Some_conv split: if_splits)

text \<open>A HEAD that was moved is read back as it was written.\<close>

lemma head_moved_stored:
  assumes "head_moved env rq contents h"
    and plain: "plain_string (rq_database_root rq)" "plain_string (rq_database_id rq)" "plain_string (rq_commit_id rq)"
  shows "stored_head contents (rq_database_root rq) = Some h" "hd_commit_id h = take COMMIT_ID_MAX (rq_commit_id rq)"
    "hd_generation h = rq_parent_generation rq + 1"
proof -
  obtain key hash segs json where h: "h = request_head rq key hash" and len: "length key \<le> KEY_MAX"
    and data: "holds_data contents (head_key (rq_database_root rq)) (bytes_of_string (otsardb_head_encode_json h))"
    and mb: "manifest_bytes env rq segs = Some (json, hash)"
    and key: "key = join_root (rq_database_root rq) (commit_name (rq_commit_id rq))"
    using assms(1) by (auto simp: head_moved_def manifest_durable_def)
  have "plain_string key" using plain by (auto simp: key join_root_def commit_name_def plain_string_def)
  then have "head_wf h"
    using plain manifest_bytes_hash [OF mb] len
    by (simp add: head_wf_def h request_head_def plain_string_take)
  from head_decode_encode [OF this] data show "stored_head contents (rq_database_root rq) = Some h"
    by (auto simp: stored_head_def holds_data_def)
qed (use assms(1) in \<open>auto simp: head_moved_def request_head_def\<close>)

section \<open>Properties\<close>

text \<open>
  (C9) Resolving a commit is exact, on every store that keeps the laws.  Nothing is written.  When the call
  succeeds the state is never unknown: it is \<open>COMMITTED\<close> precisely when HEAD names the commit or it is
  found on the hash-linked chain of manifests above the parent generation, \<open>NOT_COMMITTED\<close> precisely
  when there is no HEAD or HEAD, being another commit, has not passed the parent generation, and
  \<open>SUPERSEDED\<close> in the remaining cases.
\<close>

theorem resolve_commit_exact:
  assumes laws: "object_store_laws store objs valid" and w: "valid w"
    and res: "otsardb_resolve_commit sha store w root cid parent = (JOURNAL_OK, st, w')"
  shows "objs w' = objs w \<and> st \<noteq> STATE_UNKNOWN \<and>
    (st = STATE_COMMITTED \<longleftrightarrow> (\<exists>h. stored_head (objs w) root = Some h \<and>
       (hd_commit_id h = cid \<or> committed_above sha (objs w) root cid parent (head_pos h)))) \<and>
    (st = STATE_NOT_COMMITTED \<longleftrightarrow> objs w (head_key root) = None \<or>
       (\<exists>h. stored_head (objs w) root = Some h \<and> hd_commit_id h \<noteq> cid \<and> hd_generation h \<le> parent))"
  by (rule object_store_laws.resolve_commit_law [OF laws w res])

text \<open>
  Conflict detection and resolving see the same chain: for a request that passes the checks both calls
  return the same result, the same state and the same store.
\<close>

theorem detect_conflict_resolves:
  assumes "root \<noteq> []" "rq_commit_id rq \<noteq> []" "valid_parent_request rq" "resolve_segment_inputs rq = Some inputs"
    "list_all valid_segment_input inputs"
  shows "otsardb_resolve_commit sha store w root (rq_commit_id rq) (rq_parent_generation rq) =
    (case otsardb_publish_commit_detect_conflict sha store w root rq of (rc, st, ov, w') \<Rightarrow> (rc, st, w'))"
proof -
  obtain r ho w1 where rd: "otsardb_journal_read_head store w root = (r, ho, w1)" by (cases "otsardb_journal_read_head store w root")
  show ?thesis
    using assms rd conflict_walk_resolves [of sha store root rq _ _ w1 _ inputs "\<not> request_has_page_info inputs"]
    by (cases ho) (auto simp: otsardb_resolve_commit_def otsardb_publish_commit_detect_conflict_def Let_def)
qed


text \<open>
  The search for a common page in two strictly increasing lists is exact.
\<close>

theorem sorted_intersect_exact:
  assumes "sorted_wrt (<) as" "sorted_wrt (<) bs"
  shows "sorted_u32_any_intersect as bs \<longleftrightarrow> set as \<inter> set bs \<noteq> {}"
  by (rule intersect_sets [OF assms])

theorem sorted_intersect_exact_witness:
  "sorted_u32_any_intersect [1, 5, 9] [2, 5] \<and> \<not> sorted_u32_any_intersect [1, 5] [2, 7]"
  using sorted_intersect_exact [of "[1, 5, 9]" "[2, 5]"] sorted_intersect_exact [of "[1, 5]" "[2, 7]"] by simp

text \<open>
  (C36) What was published is found.  After a publish that reported success, resolving the commit in the
  store it left, whenever that call succeeds, says \<open>COMMITTED\<close>.
\<close>

theorem published_is_committed:
  assumes laws: "object_store_laws store objs valid" and w: "valid w"
    and plain: "plain_string (rq_database_root rq)" "plain_string (rq_database_id rq)" "plain_string (rq_commit_id rq)"
    and pub: "otsardb_publish_commit env store w rq = (JOURNAL_OK, res, w')"
    and resolve: "otsardb_resolve_commit sha store w' (rq_database_root rq) (rq_commit_id rq) parent = (JOURNAL_OK, st, w'')"
  shows "st = STATE_COMMITTED"
proof -
  note law = object_store_laws.publish_commit_law [OF laws pub w]
  then obtain h where moved: "head_moved env rq (objs w') h" and w': "valid w'" by blast
  have "length (rq_commit_id rq) \<le> COMMIT_ID_MAX"
    using pub by (auto simp: otsardb_publish_commit_def request_valid_def Let_def split: if_splits)
  then show ?thesis
    using object_store_laws.resolve_commit_law [OF laws w' resolve] head_moved_stored [OF moved plain] by auto
qed

text \<open>The store after the first commit, and what a second writer finds in it.\<close>

definition sample_first_head :: head where
  "sample_first_head = request_head sample_request ''db/commits/c1.json'' sample_hash"

definition sample_second :: commit_request where
  "sample_second = sample_request\<lparr>rq_commit_id := ''c2'', rq_segment_payload := None,
     rq_segments := Some [\<lparr>si_payload = [1], si_pages = Some [3]\<rparr>], rq_segment_count := 1\<rparr>"

lemma sample_committed_valid: "memory_valid sample_committed"
  using sample_publish_ok mem.publish_commit_law empty_memory_valid by blast

lemma sample_first_head_wf: "head_wf sample_first_head"
  by (simp add: head_wf_def sample_first_head_def request_head_def sample_request_def plain_string_def COMMIT_ID_MAX_def
      KEY_MAX_def SHA256_HEX_MAX_def sample_hash_def)

lemma sample_read_head:
  "otsardb_journal_read_head (memory_object_store memory_capabilities) sample_committed ''db'' =
     (JOURNAL_OK, Some (sample_first_head, make_etag 3), sample_committed)"
proof -
  have k: "segment_suffix sample_hash \<noteq> ''HEAD.json''" by (simp add: segment_suffix_def)
  show ?thesis
    using head_decode_encode [OF sample_first_head_wf] k
    by (simp add: otsardb_journal_read_head_def build_head_key_def snprintf_fits_def join_root_def KEY_MAX_def
        memory_eval sample_committed_def make_etag_def sample_first_head_def)
qed

lemma sample_document_decodes:
  "otsardb_commit_manifest_decode_json (bytes_of_string sample_json) = Some (request_manifest sample_request [sample_ref])"
proof -
  let ?m = "request_manifest sample_request [sample_ref]"
  have wf: "manifest_wf ?m"
    by (simp add: manifest_wf_def request_manifest_def sample_request_def sample_ref_def plain_string_def segment_ref_wf_def
        checksum_field_valid_def string_or_empty_def MANIFEST_ID_MAX_def MANIFEST_SEGMENT_KEY_MAX_def sample_hash_def
        segment_suffix_def)
  have v: "manifest_valid ?m" "length (manifest_document ?m) \<le> int_max"
    using sample_manifest_ok
    by (auto simp: manifest_bytes_def otsardb_commit_manifest_encode_json_def manifest_text_exact bind_eq_Some_conv
        split: if_splits)
  have "cm_format_version ?m \<ge> 4" by (simp add: request_manifest_def COMMIT_MANIFEST_VERSION_def)
  with manifest_decode_document [OF wf v(1)] v(2) manifest_stored_v4 [of ?m] show ?thesis
    by (simp add: sample_json_def int_max_def size_max_def)
qed

lemma sample_fetch:
  "fetch_position (pe_sha sample_env) (memory_object_store memory_capabilities) ''db'' g sample_committed
     (head_pos sample_first_head) = (Inr (request_manifest sample_request [sample_ref]), sample_committed)"
proof -
  have k: "segment_suffix sample_hash \<noteq> ''commits/c1.json''" by (simp add: segment_suffix_def)
  have p: "head_pos sample_first_head = \<lparr>pos_commit_id = ''c1'', pos_key = ''db/commits/c1.json'', pos_sha256 = sample_hash,
      pos_generation = 1\<rparr>"
    by (simp add: head_pos_def sample_first_head_def request_head_def sample_request_def COMMIT_ID_MAX_def KEY_MAX_def
        MANIFEST_SHA256_HEX_SIZE_def SHA256_HEX_MAX_def sample_hash_def)
  have "read_manifest (pe_sha sample_env) (memory_object_store memory_capabilities) sample_committed ''db/commits/c1.json''
      sample_hash = (JOURNAL_OK, Some (request_manifest sample_request [sample_ref]), sample_committed)"
    using k by (simp add: read_manifest_def memory_eval sample_hash_eq sample_document_decodes sample_committed_def)
  then show ?thesis
    by (simp add: fetch_position_def p) (simp add: request_manifest_def sample_request_def MANIFEST_ID_MAX_def)
qed

lemma sample_second_inputs:
  "resolve_segment_inputs sample_second = Some [\<lparr>si_payload = [1], si_pages = Some [3]\<rparr>]"
  "valid_parent_request sample_second" "rq_commit_id sample_second = ''c2''" "rq_parent_generation sample_second = 0"
  by (simp_all add: sample_second_def resolve_segment_inputs_def sample_request_def valid_parent_request_def)

lemma sample_detect:
  "otsardb_publish_commit_detect_conflict (pe_sha sample_env) (memory_object_store memory_capabilities) sample_committed ''db''
     sample_second = (JOURNAL_OK, STATE_SUPERSEDED, True, sample_committed)"
proof -
  have h: "hd_commit_id sample_first_head = ''c1''" "hd_generation sample_first_head = 1"
      "pos_commit_id (head_pos sample_first_head) = ''c1''" "pos_generation (head_pos sample_first_head) = 1"
    by (simp_all add: sample_first_head_def request_head_def sample_request_def COMMIT_ID_MAX_def head_pos_def)
  have m: "cm_parent_generation (request_manifest sample_request [sample_ref]) = 0"
      "cm_parent_commit_id (request_manifest sample_request [sample_ref]) = []"
      "cm_segments (request_manifest sample_request [sample_ref]) = [sample_ref]" "sg_pages sample_ref = []"
    by (simp_all add: request_manifest_def sample_request_def string_or_empty_def sample_ref_def)
  show ?thesis
    by (simp add: otsardb_publish_commit_detect_conflict_def sample_second_inputs sample_read_head h m sample_fetch
        conflict_walk.simps RECOVERY_MAX_COMMITS_def request_has_page_info_def request_overlaps_manifest_def
        valid_segment_input_def valid_page_input_def Let_def)
qed

lemma sample_resolve:
  "otsardb_resolve_commit (pe_sha sample_env) (memory_object_store memory_capabilities) sample_committed ''db'' ''c1'' 0 =
     (JOURNAL_OK, STATE_COMMITTED, sample_committed)"
  by (simp add: otsardb_resolve_commit_def sample_read_head)
    (simp add: sample_first_head_def request_head_def sample_request_def COMMIT_ID_MAX_def)

theorem resolve_commit_exact_witness:
  "\<exists>h. stored_head (memory_objs sample_committed) ''db'' = Some h \<and>
     (hd_commit_id h = ''c1'' \<or> committed_above (pe_sha sample_env) (memory_objs sample_committed) ''db'' ''c1'' 0 (head_pos h))"
  using resolve_commit_exact [OF mem.object_store_laws_axioms sample_committed_valid sample_resolve] by simp

theorem detect_conflict_resolves_witness:
  "otsardb_resolve_commit (pe_sha sample_env) (memory_object_store memory_capabilities) sample_committed ''db'' ''c2'' 0 =
     (JOURNAL_OK, STATE_SUPERSEDED, sample_committed)"
  using detect_conflict_resolves [of "''db''" sample_second _ "pe_sha sample_env" "memory_object_store memory_capabilities"
      sample_committed] sample_detect
  by (simp add: sample_second_inputs valid_segment_input_def valid_page_input_def)


theorem published_is_committed_witness:
  "snd (snd (otsardb_resolve_commit (pe_sha sample_env) (memory_object_store memory_capabilities) sample_committed ''db'' ''c1'' 0)) =
     sample_committed \<and>
   fst (snd (otsardb_resolve_commit (pe_sha sample_env) (memory_object_store memory_capabilities) sample_committed ''db'' ''c1'' 0)) =
     STATE_COMMITTED"
proof -
  obtain r where "otsardb_publish_commit sample_env (memory_object_store memory_capabilities) empty_memory sample_request =
      (JOURNAL_OK, Some r, sample_committed)" using sample_publish_ok by blast
  moreover have r: "rq_database_root sample_request = ''db''" "rq_commit_id sample_request = ''c1''"
      "rq_database_id sample_request = ''d1''" by (simp_all add: sample_request_def)
  moreover obtain st w where "otsardb_resolve_commit (pe_sha sample_env) (memory_object_store memory_capabilities) sample_committed
      ''db'' ''c1'' 0 = (JOURNAL_OK, st, w)" using sample_resolve by blast
  ultimately have "st = STATE_COMMITTED"
    using published_is_committed [OF mem.object_store_laws_axioms empty_memory_valid, of sample_request sample_env]
    by (simp add: plain_string_def)
  then show ?thesis using sample_resolve by simp
qed

end
