(* ===== verification/Checkpoint_Manifest.thy ===== *)
theory Checkpoint_Manifest
  imports Commit_Manifest Checkpoint_Page
begin

text \<open>
  Checkpoint manifests and the checkpoint pointer, \<open>src/storage/checkpoint_manifest.c\<close>: the JSON object
  that lists the page groups of a full image of the database at one generation, and the mutable object
  \<open>CHECKPOINT.json\<close> that names the current manifest.  The manifest is sized in a first pass and written in
  a second one; a group whose size cannot be that of an encoded page group is refused in both directions.
\<close>

section \<open>Data\<close>

definition CHECKPOINT_MANIFEST_FORMAT_VERSION :: u32 where "CHECKPOINT_MANIFEST_FORMAT_VERSION = 1"
definition CHECKPOINT_PAGE_GROUP_KEY_MAX :: nat where "CHECKPOINT_PAGE_GROUP_KEY_MAX = 128"
definition CHECKPOINT_MAX_PAGE_GROUPS :: nat where "CHECKPOINT_MAX_PAGE_GROUPS = 128"
definition CHECKPOINT_ID_MAX :: nat where "CHECKPOINT_ID_MAX = 63"
definition CHECKPOINT_SHA256_HEX_SIZE :: nat where "CHECKPOINT_SHA256_HEX_SIZE = 64"

record page_group_ref =
  gr_key :: string
  gr_sha256 :: string
  gr_size :: u64

text \<open>The array of groups and its count are one list.\<close>

record checkpoint_manifest =
  ck_format_version :: u32
  ck_covered_generation :: u64
  ck_page_size :: u32
  ck_database_size_pages :: u64
  ck_database_id :: string
  ck_base_commit_id :: string
  ck_base_manifest_sha256 :: string
  ck_page_groups :: "page_group_ref list"

record checkpoint_pointer =
  cp_covered_generation :: u64
  cp_checkpoint_sha256 :: string
  cp_checkpoint_key :: string
  cp_database_id :: string

datatype checkpoint_ptr_result =
  CHECKPOINT_PTR_OK | CHECKPOINT_PTR_NOT_FOUND | CHECKPOINT_PTR_ERROR

definition CHECKPOINT_PAGE_HEADER_SIZE :: u64 where "CHECKPOINT_PAGE_HEADER_SIZE = 32"
definition CHECKPOINT_PAGE_RECORD_HEADER_SIZE :: u64 where "CHECKPOINT_PAGE_RECORD_HEADER_SIZE = 12"

definition page_group_size_valid :: "u64 \<Rightarrow> u32 \<Rightarrow> bool" where
  "page_group_size_valid n page_size =
     (let record_size = CHECKPOINT_PAGE_RECORD_HEADER_SIZE + ucast page_size in
      if n < CHECKPOINT_PAGE_HEADER_SIZE + record_size then False
      else (n - CHECKPOINT_PAGE_HEADER_SIZE) mod record_size = 0)"

section \<open>Fields\<close>

text \<open>The helpers of this file: a number out of range or with a sign is accepted as \<open>strtoull\<close> converts it.\<close>

definition checkpoint_extract_u64 :: "string \<Rightarrow> string \<Rightarrow> u64 option" where
  "checkpoint_extract_u64 json name =
     (if length (pattern_u64 name) \<ge> 80 then None
      else case strstr json (pattern_u64 name) of
        None \<Rightarrow> None
      | Some p \<Rightarrow> map_option fst (strtoull (skip_blanks (after_pattern (pattern_u64 name) p))))"

definition checkpoint_extract_string :: "string \<Rightarrow> string \<Rightarrow> nat \<Rightarrow> bool \<Rightarrow> string option" where
  "checkpoint_extract_string json name out_size allow_empty =
     (if length (pattern_str name) \<ge> 80 then None
      else case strstr json (pattern_str name) of
        None \<Rightarrow> None
      | Some p \<Rightarrow>
          let v = after_pattern (pattern_str name) p in
          (case strchr v quote of
             None \<Rightarrow> None
           | Some e \<Rightarrow>
               let len = length v - length e in
               if (\<not> allow_empty \<and> len = 0) \<or> len \<ge> out_size then None else Some (take len v)))"

definition parse_page_group :: "string \<Rightarrow> (page_group_ref \<times> string) option" where
  "parse_page_group p =
     do { p \<leftarrow> next_char (CHR ''{'') (skip_blanks p);
          p \<leftarrow> skip_marker segment_head_marker p;
          (key, p) \<leftarrow> until_quote p;
          require (\<not> (length key = 0 \<or> length key \<ge> CHECKPOINT_PAGE_GROUP_KEY_MAX + 1));
          p \<leftarrow> skip_marker segment_sha_marker p;
          (sha, p) \<leftarrow> until_quote p;
          require (length sha = CHECKPOINT_SHA256_HEX_SIZE);
          p \<leftarrow> skip_marker segment_size_marker p;
          (n, p, erange) \<leftarrow> strtoull (skip_blanks p);
          p \<leftarrow> next_char (CHR ''}'') (skip_blanks p);
          Some (\<lparr>gr_key = key, gr_sha256 = sha, gr_size = n\<rparr>, p) }"

text \<open>The loop over the entries; the first number is how many more fit.\<close>

primrec page_groups_loop :: "nat \<Rightarrow> page_group_ref list \<Rightarrow> string \<Rightarrow> (page_group_ref list \<times> string) option" where
  "page_groups_loop 0 refs p = Some (refs, p)"
| "page_groups_loop (Suc room) refs p =
     (case parse_page_group p of
        None \<Rightarrow> None
      | Some (r, q) \<Rightarrow>
          let q = skip_blanks q in
          if q \<noteq> [] \<and> hd q = CHR '']'' then Some (refs @ [r], q)
          else if q = [] \<or> hd q \<noteq> CHR '','' then None
          else page_groups_loop room (refs @ [r]) (tl q))"

definition page_groups_marker :: string where
  "page_groups_marker = pattern_u64 ''page_groups'' @ ''[''"

definition extract_page_groups :: "string \<Rightarrow> page_group_ref list option" where
  "extract_page_groups json =
     do { p \<leftarrow> strstr json page_groups_marker;
          (refs, p) \<leftarrow> page_groups_loop CHECKPOINT_MAX_PAGE_GROUPS [] (after_pattern page_groups_marker p);
          require (\<not> (refs = [] \<or> length refs > CHECKPOINT_MAX_PAGE_GROUPS \<or> p = [] \<or> hd p \<noteq> CHR '']''));
          Some refs }"

section \<open>Encoding and decoding\<close>

definition checkpoint_header :: "checkpoint_manifest \<Rightarrow> string" where
  "checkpoint_header m =
     ''{'' @ json_u64 ''otsardb_checkpoint_format'' (unat (ck_format_version m)) @ '','' @
     json_str ''database_id'' (ck_database_id m) @ '','' @
     json_u64 ''covered_generation'' (unat (ck_covered_generation m)) @ '','' @
     json_str ''base_commit_id'' (ck_base_commit_id m) @ '','' @
     json_str ''base_manifest_sha256'' (ck_base_manifest_sha256 m) @ '','' @
     json_u64 ''page_size'' (unat (ck_page_size m)) @ '','' @
     json_u64 ''database_size_pages'' (unat (ck_database_size_pages m)) @ '','' @ page_groups_marker"

definition group_literal :: "bool \<Rightarrow> page_group_ref \<Rightarrow> string" where
  "group_literal first r =
     (if first then [] else '','') @
     ''{'' @ json_str ''key'' (gr_key r) @ '','' @ json_str ''sha256'' (gr_sha256 r) @ '','' @
     json_u64 ''size'' (unat (gr_size r)) @ ''}''"

text \<open>A length that \<open>snprintf\<close> cannot return makes it fail.\<close>

fun groups_json_size :: "bool \<Rightarrow> page_group_ref list \<Rightarrow> nat \<Rightarrow> nat option" where
  "groups_json_size first [] groups_bytes = Some groups_bytes"
| "groups_json_size first (r # rs) groups_bytes =
     (if length (group_literal first r) > int_max then None
      else groups_json_size False rs (groups_bytes + length (group_literal first r)))"

fun write_groups :: "nat \<Rightarrow> bool \<Rightarrow> page_group_ref list \<Rightarrow> string \<Rightarrow> string option" where
  "write_groups limit first [] out = Some out"
| "write_groups limit first (r # rs) out =
     do { out \<leftarrow> emit limit (group_literal first r) out;
          write_groups limit False rs out }"

definition checkpoint_manifest_valid :: "checkpoint_manifest \<Rightarrow> bool" where
  "checkpoint_manifest_valid m \<longleftrightarrow>
     \<not> (ck_format_version m \<noteq> CHECKPOINT_MANIFEST_FORMAT_VERSION \<or> ck_database_id m = [] \<or>
        ck_base_commit_id m = [] \<or> ck_page_size m = 0 \<or> ck_page_groups m = [] \<or>
        length (ck_page_groups m) > CHECKPOINT_MAX_PAGE_GROUPS) \<and>
     list_all (\<lambda>r. \<not> (gr_key r = [] \<or> length (gr_sha256 r) \<noteq> CHECKPOINT_SHA256_HEX_SIZE \<or>
       \<not> page_group_size_valid (gr_size r) (ck_page_size m))) (ck_page_groups m)"

definition otsardb_checkpoint_manifest_encode ::
  "(bytes \<Rightarrow> bytes) \<Rightarrow> checkpoint_manifest \<Rightarrow> (string \<times> string) option" where
  "otsardb_checkpoint_manifest_encode sha m =
     do { require (checkpoint_manifest_valid m);
          require (\<not> length (checkpoint_header m) > int_max);
          groups_bytes \<leftarrow> groups_json_size True (ck_page_groups m) 0;
          let needed = length (checkpoint_header m) + groups_bytes + 3;
          require (\<not> needed > int_max);
          out \<leftarrow> emit (needed + 1) (checkpoint_header m) [];
          out \<leftarrow> write_groups (needed + 1) True (ck_page_groups m) out;
          json \<leftarrow> emit (needed + 1) [CHR '']'', CHR ''}'', CHR 0x0A] out;
          require (length json = needed);
          Some (json, otsardb_sha256_hex_data sha (bytes_of_string json)) }"

definition otsardb_checkpoint_manifest_decode :: "bytes \<Rightarrow> checkpoint_manifest option" where
  "otsardb_checkpoint_manifest_decode json =
     do { require (json \<noteq> []);
          let copy = c_str (string_of_bytes json);
          format \<leftarrow> checkpoint_extract_u64 copy ''otsardb_checkpoint_format'';
          covered \<leftarrow> checkpoint_extract_u64 copy ''covered_generation'';
          page_size \<leftarrow> checkpoint_extract_u64 copy ''page_size'';
          database_size_pages \<leftarrow> checkpoint_extract_u64 copy ''database_size_pages'';
          database_id \<leftarrow> checkpoint_extract_string copy ''database_id'' (CHECKPOINT_ID_MAX + 1) False;
          base_commit_id \<leftarrow> checkpoint_extract_string copy ''base_commit_id'' (CHECKPOINT_ID_MAX + 1) False;
          base_sha \<leftarrow> checkpoint_extract_string copy ''base_manifest_sha256'' (CHECKPOINT_SHA256_HEX_SIZE + 1) True;
          refs \<leftarrow> extract_page_groups copy;
          require (\<not> (format \<noteq> ucast CHECKPOINT_MANIFEST_FORMAT_VERSION \<or> page_size = 0 \<or>
                      unat page_size > uint32_max \<or> covered = 0));
          require (list_all (\<lambda>r. page_group_size_valid (gr_size r) (ucast page_size)) refs);
          Some \<lparr>ck_format_version = ucast format, ck_covered_generation = covered,
                ck_page_size = ucast page_size, ck_database_size_pages = database_size_pages,
                ck_database_id = database_id, ck_base_commit_id = base_commit_id,
                ck_base_manifest_sha256 = base_sha, ck_page_groups = refs\<rparr> }"

section \<open>The pointer\<close>

definition build_checkpoint_key :: "string \<Rightarrow> nat \<Rightarrow> string option" where
  "build_checkpoint_key root out_size = snprintf_fits (join_root root ''CHECKPOINT.json'') out_size"

definition checkpoint_ptr_text :: "checkpoint_pointer \<Rightarrow> string" where
  "checkpoint_ptr_text p =
     ''{'' @ json_u64 ''otsardb_checkpoint_format'' 1 @ '','' @
     json_str ''database_id'' (cp_database_id p) @ '','' @
     json_u64 ''covered_generation'' (unat (cp_covered_generation p)) @ '','' @
     json_str ''checkpoint_sha256'' (cp_checkpoint_sha256 p) @ '','' @
     json_str ''checkpoint_key'' (cp_checkpoint_key p) @ [CHR ''}'', CHR 0x0A]"

definition otsardb_checkpoint_ptr_encode :: "checkpoint_pointer \<Rightarrow> string option" where
  "otsardb_checkpoint_ptr_encode p =
     (if length (checkpoint_ptr_text p) > int_max then None else Some (checkpoint_ptr_text p))"

definition otsardb_checkpoint_ptr_decode :: "bytes \<Rightarrow> checkpoint_pointer option" where
  "otsardb_checkpoint_ptr_decode json =
     do { require (json \<noteq> []);
          let copy = c_str (string_of_bytes json);
          format \<leftarrow> checkpoint_extract_u64 copy ''otsardb_checkpoint_format'';
          covered \<leftarrow> checkpoint_extract_u64 copy ''covered_generation'';
          database_id \<leftarrow> checkpoint_extract_string copy ''database_id'' (CHECKPOINT_ID_MAX + 1) False;
          sha \<leftarrow> checkpoint_extract_string copy ''checkpoint_sha256'' (CHECKPOINT_SHA256_HEX_SIZE + 1) False;
          key \<leftarrow> checkpoint_extract_string copy ''checkpoint_key'' 1024 False;
          require (\<not> (format = 0 \<or> unat format > uint32_max));
          Some \<lparr>cp_covered_generation = covered, cp_checkpoint_sha256 = sha, cp_checkpoint_key = key,
                cp_database_id = database_id\<rparr> }"

definition otsardb_checkpoint_ptr_read ::
  "'w object_store \<Rightarrow> 'w \<Rightarrow> string \<Rightarrow> checkpoint_ptr_result \<times> (checkpoint_pointer \<times> string) option \<times> 'w" where
  "otsardb_checkpoint_ptr_read store w root =
     (case build_checkpoint_key root (KEY_MAX + 1) of
        None \<Rightarrow> (CHECKPOINT_PTR_ERROR, None, w)
      | Some key \<Rightarrow>
          (case otsardb_store_get store w key of (rc, ob, w') \<Rightarrow>
             if rc = STORE_NOT_FOUND then (CHECKPOINT_PTR_NOT_FOUND, None, w')
             else if rc \<noteq> STORE_OK then (CHECKPOINT_PTR_ERROR, None, w')
             else case otsardb_checkpoint_ptr_decode (so_data ob) of
               None \<Rightarrow> (CHECKPOINT_PTR_ERROR, None, w')
             | Some p \<Rightarrow>
                 (case so_etag ob of
                    None \<Rightarrow> (CHECKPOINT_PTR_ERROR, None, w')
                  | Some etag \<Rightarrow> if etag = [] then (CHECKPOINT_PTR_ERROR, None, w')
                                 else (CHECKPOINT_PTR_OK, Some (p, etag), w'))))"

text \<open>
  The codes that are no failure in the source's list fall through to success; the etag is
  returned with them.
\<close>

definition ptr_put_result :: "store_result \<Rightarrow> journal_result" where
  "ptr_put_result rc =
     (if rc = STORE_PRECONDITION_FAILED then JOURNAL_CONFLICT
      else if rc = STORE_ERROR \<or> rc = STORE_UNSUPPORTED \<or> rc = STORE_TIMEOUT then
        (if rc = STORE_TIMEOUT then JOURNAL_AMBIGUOUS
         else if rc = STORE_UNSUPPORTED then JOURNAL_UNSUPPORTED else JOURNAL_ERROR)
      else JOURNAL_OK)"

definition otsardb_checkpoint_ptr_publish ::
  "'w object_store \<Rightarrow> 'w \<Rightarrow> string \<Rightarrow> checkpoint_pointer \<Rightarrow> string option \<Rightarrow> bool \<Rightarrow>
     journal_result \<times> string option \<times> 'w" where
  "otsardb_checkpoint_ptr_publish store w root p expected_etag create_if_missing =
     (if \<not> create_if_missing \<and> expected_etag = None then (JOURNAL_INVALID, None, w)
      else case build_checkpoint_key root (KEY_MAX + 1) of
        None \<Rightarrow> (JOURNAL_INVALID, None, w)
      | Some key \<Rightarrow>
          (case otsardb_checkpoint_ptr_encode p of
             None \<Rightarrow> (JOURNAL_ERROR, None, w)
           | Some json \<Rightarrow>
               (case otsardb_store_put store w key (bytes_of_string json)
                       \<lparr>po_if_none_match = create_if_missing,
                        po_if_match_etag = (if create_if_missing then None else expected_etag)\<rparr> of
                  (rc, etag, w') \<Rightarrow>
                    (ptr_put_result rc, if ptr_put_result rc = JOURNAL_OK then etag else None, w'))))"

section \<open>The encoder\<close>

text \<open>An entry is printed like a segment without a page set, so the facts on segment lists apply.\<close>

definition group_segment :: "page_group_ref \<Rightarrow> manifest_segment_ref" where
  "group_segment r = \<lparr>sg_key = gr_key r, sg_sha256 = gr_sha256 r, sg_size = gr_size r, sg_pages = [],
     sg_frame_offsets = None\<rparr>"

definition groups_text :: "bool \<Rightarrow> page_group_ref list \<Rightarrow> string" where
  "groups_text first rs = segments_text False first (map group_segment rs)"

definition checkpoint_document :: "checkpoint_manifest \<Rightarrow> string" where
  "checkpoint_document m = checkpoint_header m @ groups_text True (ck_page_groups m) @
     [CHR '']'', CHR ''}'', CHR 0x0A]"

lemma group_literal_segment:
  "group_literal first r = (if first then [] else '','') @ segment_text False (group_segment r)"
  by (simp add: group_literal_def segment_text_def segment_head_def group_segment_def)

lemma groups_text_simps [simp]:
  "groups_text first [] = []"
  "groups_text first (r # rs) = group_literal first r @ groups_text False rs"
  by (simp_all add: groups_text_def group_literal_segment)

lemma write_groups_ok:
  "length out + length (groups_text first rs) < limit \<Longrightarrow>
   write_groups limit first rs out = Some (out @ groups_text first rs)"
  by (induction limit first rs out rule: write_groups.induct) (auto simp: emit_ok group_literal_def)

lemma groups_json_size_fits:
  "n + length (groups_text first rs) \<le> int_max \<Longrightarrow>
   groups_json_size first rs n = Some (n + length (groups_text first rs))"
  by (induction first rs n rule: groups_json_size.induct) auto

lemma groups_json_size_Some:
  "groups_json_size first rs n = Some k \<Longrightarrow> k = n + length (groups_text first rs)"
  by (induction first rs n rule: groups_json_size.induct) (auto split: if_splits)

lemma checkpoint_encode_exact:
  "otsardb_checkpoint_manifest_encode sha m =
     (if checkpoint_manifest_valid m \<and> length (checkpoint_document m) \<le> int_max
      then Some (checkpoint_document m, otsardb_sha256_hex_data sha (bytes_of_string (checkpoint_document m)))
      else None)"
proof (cases "length (checkpoint_document m) \<le> int_max")
  case True
  have ne: "checkpoint_header m \<noteq> []" by (simp add: checkpoint_header_def)
  have "groups_json_size True (ck_page_groups m) 0 = Some (length (groups_text True (ck_page_groups m)))"
    using True groups_json_size_fits [of 0 True "ck_page_groups m"] by (simp add: checkpoint_document_def)
  then show ?thesis
    using True ne
    by (simp add: otsardb_checkpoint_manifest_encode_def checkpoint_document_def Let_def require_def emit_ok write_groups_ok)
next
  case False
  then show ?thesis
    using groups_json_size_Some [of True "ck_page_groups m" 0]
    by (auto simp: otsardb_checkpoint_manifest_encode_def checkpoint_document_def Let_def require_def
        bind_eq_None_conv split: Option.bind_split)
qed

section \<open>Reading back a printed manifest\<close>

definition group_ref_wf :: "page_group_ref \<Rightarrow> bool" where
  "group_ref_wf r \<longleftrightarrow> plain_string (gr_key r) \<and> length (gr_key r) \<le> CHECKPOINT_PAGE_GROUP_KEY_MAX \<and>
     plain_string (gr_sha256 r)"

definition checkpoint_manifest_wf :: "checkpoint_manifest \<Rightarrow> bool" where
  "checkpoint_manifest_wf m \<longleftrightarrow> ck_covered_generation m \<noteq> 0 \<and>
     plain_string (ck_database_id m) \<and> length (ck_database_id m) \<le> CHECKPOINT_ID_MAX \<and>
     plain_string (ck_base_commit_id m) \<and> length (ck_base_commit_id m) \<le> CHECKPOINT_ID_MAX \<and>
     plain_string (ck_base_manifest_sha256 m) \<and> length (ck_base_manifest_sha256 m) \<le> CHECKPOINT_SHA256_HEX_SIZE \<and>
     list_all group_ref_wf (ck_page_groups m)"

lemma group_segment_wf: "group_ref_wf r \<Longrightarrow> segment_ref_wf (group_segment r)"
  by (simp add: group_ref_wf_def segment_ref_wf_def group_segment_def MANIFEST_SEGMENT_KEY_MAX_def
      CHECKPOINT_PAGE_GROUP_KEY_MAX_def)

lemma parse_page_group_text:
  assumes "group_ref_wf r" "gr_key r \<noteq> []" "length (gr_sha256 r) = CHECKPOINT_SHA256_HEX_SIZE"
  shows "parse_page_group (segment_text False (group_segment r) @ rest) = Some (r, rest)"
proof -
  have "strtoull (skip_blanks (dec (unat (gr_size r)) @ c # t)) = Some (gr_size r, c # t, False)"
    if "\<not> isdigit c" for c t
    using that unat_u64_le [of "gr_size r"] by (simp add: skip_blanks_dec strtoull_dec)
  then show ?thesis
    using assms unfolding segment_text_def group_ref_wf_def plain_string_def
    by (simp add: parse_page_group_def segment_head_markers next_char_def skip_blanks_cons skip_marker_hit
        until_quote_hit require_def group_segment_def)
qed

lemma groups_text_False:
  "groups_text False rs = (if rs = [] then [] else CHR '','' # groups_text True rs)"
  by (cases rs) (simp_all add: group_literal_segment)

lemma page_groups_loop_text:
  assumes "\<forall>r\<in>set rs. group_ref_wf r \<and> gr_key r \<noteq> [] \<and> length (gr_sha256 r) = CHECKPOINT_SHA256_HEX_SIZE"
    "rs \<noteq> []" "length rs \<le> room"
  shows "page_groups_loop room refs (groups_text True rs @ CHR '']'' # rest) = Some (refs @ rs, CHR '']'' # rest)"
  using assms
proof (induction rs arbitrary: room refs)
  case (Cons r rs)
  then obtain room' where room: "room = Suc room'" by (cases room) auto
  show ?case
  proof (cases "rs = []")
    case True
    then show ?thesis using Cons.prems room by (simp add: parse_page_group_text group_literal_segment skip_blanks_def)
  next
    case False
    then show ?thesis
      using Cons room by (simp add: parse_page_group_text groups_text_False group_literal_segment skip_blanks_def)
  qed
qed simp

lemmas checkpoint_search = checkpoint_extract_u64_def checkpoint_extract_string_def json json_name_def Let_def
  unat_u64_le unat_u32_size

lemma checkpoint_fields_found:
  assumes "checkpoint_manifest_wf m" "checkpoint_manifest_valid m"
  shows "checkpoint_extract_u64 (checkpoint_document m) ''otsardb_checkpoint_format'' = Some (ucast (ck_format_version m))"
    and "checkpoint_extract_u64 (checkpoint_document m) ''covered_generation'' = Some (ck_covered_generation m)"
    and "checkpoint_extract_u64 (checkpoint_document m) ''page_size'' = Some (ucast (ck_page_size m))"
    and "checkpoint_extract_u64 (checkpoint_document m) ''database_size_pages'' = Some (ck_database_size_pages m)"
    and "checkpoint_extract_string (checkpoint_document m) ''database_id'' (CHECKPOINT_ID_MAX + 1) False = Some (ck_database_id m)"
    and "checkpoint_extract_string (checkpoint_document m) ''base_commit_id'' (CHECKPOINT_ID_MAX + 1) False = Some (ck_base_commit_id m)"
    and "checkpoint_extract_string (checkpoint_document m) ''base_manifest_sha256'' (CHECKPOINT_SHA256_HEX_SIZE + 1) True =
      Some (ck_base_manifest_sha256 m)"
  using assms
  by (simp_all add: checkpoint_search checkpoint_document_def checkpoint_header_def checkpoint_manifest_wf_def
      checkpoint_manifest_valid_def plain_string_def)

lemma extract_page_groups_found:
  assumes "checkpoint_manifest_wf m" "checkpoint_manifest_valid m"
  shows "extract_page_groups (checkpoint_document m) = Some (ck_page_groups m)"
proof -
  let ?t = "groups_text True (ck_page_groups m) @ [CHR '']'', CHR ''}'', CHR 0x0A]"
  have n: "json_name ''page_groups''" by (simp add: json_name_def)
  have p: "page_groups_marker = quote # ''page_groups'' @ quote # CHR '':'' # ''[''"
    by (simp add: page_groups_marker_def pattern_u64_def)
  note skip = strstr_skip_u64 [OF n] strstr_skip_str [OF n] strstr_skip_char
  have "strstr (checkpoint_document m) page_groups_marker =
      strstr (page_groups_marker @ ?t) (quote # ''page_groups'' @ quote # CHR '':'' # ''['')"
    unfolding p using assms
    by (simp add: checkpoint_document_def checkpoint_header_def checkpoint_manifest_wf_def plain_string_def
        skip [simplified] p [simplified])
  also have "\<dots> = Some (page_groups_marker @ ?t)" unfolding p by (rule strstr_hit)
  finally have found: "strstr (checkpoint_document m) page_groups_marker = Some (page_groups_marker @ ?t)" .
  have "page_groups_loop CHECKPOINT_MAX_PAGE_GROUPS [] ?t = Some ([] @ ck_page_groups m, [CHR '']'', CHR ''}'', CHR 0x0A])"
    using assms by (intro page_groups_loop_text)
      (auto simp: checkpoint_manifest_valid_def checkpoint_manifest_wf_def list_all_iff)
  with found show ?thesis
    using assms(2) by (simp add: extract_page_groups_def after_pattern_def require_def checkpoint_manifest_valid_def)
qed

lemma checkpoint_document_c_str:
  assumes "checkpoint_manifest_wf m"
  shows "c_str (checkpoint_document m) = checkpoint_document m"
proof (rule c_str_id)
  have "CHR 0x00 \<notin> set (groups_text True (ck_page_groups m))"
    unfolding groups_text_def
    using assms by (intro segments_text_no_nul) (auto simp: checkpoint_manifest_wf_def list_all_iff group_segment_wf)
  then show "CHR 0x00 \<notin> set (checkpoint_document m)"
    using assms by (simp add: checkpoint_document_def checkpoint_header_def page_groups_marker_def pattern_u64_def
        checkpoint_manifest_wf_def plain_string_def json)
qed

lemma checkpoint_decode_document:
  assumes "checkpoint_manifest_wf m" "checkpoint_manifest_valid m"
  shows "otsardb_checkpoint_manifest_decode (bytes_of_string (checkpoint_document m)) = Some m"
proof -
  have ne: "bytes_of_string (checkpoint_document m) \<noteq> []"
    by (simp add: bytes_of_string_def checkpoint_document_def checkpoint_header_def)
  have ps: "(ucast (ck_page_size m) :: u64) \<noteq> 0" "unat (ucast (ck_page_size m) :: u64) \<le> uint32_max"
    using assms(2) unat_u32_le [of "ck_page_size m"]
    by (simp_all add: checkpoint_manifest_valid_def)
  show ?thesis
    unfolding otsardb_checkpoint_manifest_decode_def string_of_bytes_of_string checkpoint_document_c_str [OF assms(1)]
      Let_def checkpoint_fields_found [OF assms] extract_page_groups_found [OF assms]
    using ne ps assms
    by (simp add: require_def checkpoint_manifest_wf_def checkpoint_manifest_valid_def list_all_iff)
qed

section \<open>Whatever is decoded\<close>

lemma checkpoint_extract_string_Some:
  assumes "checkpoint_extract_string json name out_size allow_empty = Some s" "CHR 0x00 \<notin> set json" "0 < out_size"
  shows "plain_string s \<and> length s < out_size \<and> (\<not> allow_empty \<longrightarrow> s \<noteq> [])"
proof -
  have "manifest_extract_string json name out_size allow_empty = Some s"
    using assms(1) by (auto simp: checkpoint_extract_string_def manifest_extract_string_def Let_def
        split: if_splits option.splits)
  then show ?thesis using assms(2,3) by (rule manifest_extract_string_Some)
qed

lemma parse_page_group_Some:
  assumes group: "parse_page_group p = Some (r, q)" and nul: "CHR 0x00 \<notin> set p"
  shows "CHR 0x00 \<notin> set q \<and> group_ref_wf r \<and> gr_key r \<noteq> [] \<and> length (gr_sha256 r) = CHECKPOINT_SHA256_HEX_SIZE"
proof -
  obtain p1 p2 key p3 p4 group_sha p5 p6 n p7 erange where
    st: "next_char (CHR ''{'') (skip_blanks p) = Some p1" "skip_marker segment_head_marker p1 = Some p2"
      "until_quote p2 = Some (key, p3)" "skip_marker segment_sha_marker p3 = Some p4"
      "until_quote p4 = Some (group_sha, p5)" "skip_marker segment_size_marker p5 = Some p6"
      "strtoull (skip_blanks p6) = Some (n, p7, erange)" "next_char (CHR ''}'') (skip_blanks p7) = Some q"
    and key: "length key \<noteq> 0" "length key \<le> CHECKPOINT_PAGE_GROUP_KEY_MAX" "length group_sha = CHECKPOINT_SHA256_HEX_SIZE"
    and r: "r = \<lparr>gr_key = key, gr_sha256 = group_sha, gr_size = n\<rparr>"
    using group by (auto simp: parse_page_group_def require_Some bind_eq_Some_conv)
  have p3: "set p3 \<subseteq> set p" "set p2 \<subseteq> set p"
    using set_next_char [OF st(1)] set_skip_blanks [of p] set_skip_marker [OF st(2)] until_quote_Some [OF st(3)] by blast+
  then have p7: "set p7 \<subseteq> set p" "set p4 \<subseteq> set p"
    using set_skip_marker [OF st(4)] until_quote_Some [OF st(5)] set_skip_marker [OF st(6)] set_skip_blanks [of p6]
      set_strtoull [OF st(7)] by blast+
  have "set q \<subseteq> set p" using set_next_char [OF st(8)] set_skip_blanks [of p7] p7 by blast
  then show ?thesis
    using until_quote_Some [OF st(3)] until_quote_Some [OF st(5)] p3 p7 nul key
    by (auto simp: r group_ref_wf_def plain_string_def)
qed

lemma page_groups_loop_Some:
  assumes "page_groups_loop room refs p = Some (rs, q)" "CHR 0x00 \<notin> set p" "\<forall>r\<in>set refs. ok r"
    and ok: "\<And>p r q. parse_page_group p = Some (r, q) \<Longrightarrow> CHR 0x00 \<notin> set p \<Longrightarrow> CHR 0x00 \<notin> set q \<and> ok r"
  shows "\<forall>r\<in>set rs. ok r"
  using assms(1-3)
proof (induction room arbitrary: refs p)
  case (Suc room)
  then obtain r p' where seg: "parse_page_group p = Some (r, p')" by (auto split: option.splits)
  note r = ok [OF seg Suc.prems(2)]
  let ?q = "skip_blanks p'"
  have nul: "CHR 0x00 \<notin> set (tl ?q)"
    using r set_skip_blanks [of p'] set_tl_subset [of ?q] by blast
  have all: "\<forall>r\<in>set (refs @ [r]). ok r" using Suc.prems(3) r by simp
  show ?case
  proof (cases "?q \<noteq> [] \<and> hd ?q = CHR '']''")
    case True
    then show ?thesis using Suc.prems(1) seg all by (simp add: Let_def)
  next
    case False
    then have "page_groups_loop room (refs @ [r]) (tl ?q) = Some (rs, q)"
      using Suc.prems(1) seg by (simp add: Let_def split: if_splits)
    from Suc.IH [OF this nul all] show ?thesis .
  qed
qed simp

lemma extract_page_groups_Some:
  assumes "extract_page_groups json = Some refs" "CHR 0x00 \<notin> set json"
  shows "refs \<noteq> [] \<and> length refs \<le> CHECKPOINT_MAX_PAGE_GROUPS \<and>
    (\<forall>r\<in>set refs. group_ref_wf r \<and> gr_key r \<noteq> [] \<and> length (gr_sha256 r) = CHECKPOINT_SHA256_HEX_SIZE)"
proof -
  obtain p rest where p: "strstr json page_groups_marker = Some p"
    and loop: "page_groups_loop CHECKPOINT_MAX_PAGE_GROUPS [] (after_pattern page_groups_marker p) = Some (refs, rest)"
    and len: "refs \<noteq> []" "length refs \<le> CHECKPOINT_MAX_PAGE_GROUPS"
    using assms(1) by (auto simp: extract_page_groups_def require_Some bind_eq_Some_conv)
  have "CHR 0x00 \<notin> set (after_pattern page_groups_marker p)"
    using set_strstr [OF p] assms(2) by (auto simp: after_pattern_def dest: in_set_dropD)
  then have "\<forall>r\<in>set refs. group_ref_wf r \<and> gr_key r \<noteq> [] \<and> length (gr_sha256 r) = CHECKPOINT_SHA256_HEX_SIZE"
    by (intro page_groups_loop_Some [OF loop]) (use parse_page_group_Some in auto)
  then show ?thesis using len by blast
qed

lemma checkpoint_decode_valid:
  assumes "otsardb_checkpoint_manifest_decode json = Some m"
  shows "checkpoint_manifest_valid m \<and> checkpoint_manifest_wf m"
proof -
  define copy where "copy = c_str (string_of_bytes json)"
  have nul: "CHR 0x00 \<notin> set copy" by (simp add: copy_def c_str_no_nul)
  obtain page_size where
    st: "checkpoint_extract_string copy ''database_id'' (CHECKPOINT_ID_MAX + 1) False = Some (ck_database_id m)"
      "checkpoint_extract_string copy ''base_commit_id'' (CHECKPOINT_ID_MAX + 1) False = Some (ck_base_commit_id m)"
      "checkpoint_extract_string copy ''base_manifest_sha256'' (CHECKPOINT_SHA256_HEX_SIZE + 1) True =
        Some (ck_base_manifest_sha256 m)"
      "extract_page_groups copy = Some (ck_page_groups m)"
    and nums: "page_size \<noteq> 0" "unat page_size \<le> uint32_max" "ck_covered_generation m \<noteq> 0"
      "ck_page_size m = ucast (page_size :: u64)" "ck_format_version m = CHECKPOINT_MANIFEST_FORMAT_VERSION"
      "\<forall>r\<in>set (ck_page_groups m). page_group_size_valid (gr_size r) (ck_page_size m)"
    using assms unfolding otsardb_checkpoint_manifest_decode_def Let_def copy_def [symmetric]
    by (auto simp: require_Some bind_eq_Some_conv list_all_iff CHECKPOINT_MANIFEST_FORMAT_VERSION_def)
  have "ck_page_size m \<noteq> 0" using nums narrow_nonzero by simp
  then show ?thesis
    using nums(3-) checkpoint_extract_string_Some [OF st(1) nul] checkpoint_extract_string_Some [OF st(2) nul]
      checkpoint_extract_string_Some [OF st(3) nul] extract_page_groups_Some [OF st(4) nul]
    by (auto simp: checkpoint_manifest_valid_def checkpoint_manifest_wf_def list_all_iff)
qed

text \<open>The sizes that are accepted are exactly those of encoded page groups.\<close>

lemma page_group_size_exact:
  "page_group_size_valid n page_size \<longleftrightarrow> (\<exists>k\<ge>1. unat n = 32 + k * (12 + unat page_size))"
proof -
  have rs: "unat (12 + (ucast page_size :: u64)) = 12 + unat page_size"
    using unat_u32_le [of page_size] by (simp add: unat_word_ariths uint32_max_def)
  have hs: "unat (32 + (12 + (ucast page_size :: u64))) = 44 + unat page_size"
    using unat_u32_le [of page_size] rs by (subst unat_word_ariths) (simp add: uint32_max_def)
  let ?r = "12 + unat page_size"
  have "page_group_size_valid n page_size \<longleftrightarrow> 44 + unat page_size \<le> unat n \<and> (unat n - 32) mod ?r = 0"
  proof (cases "44 + unat page_size \<le> unat n")
    case True
    have "(32 :: u64) \<le> n" using True by (simp add: word_le_nat_alt)
    then have sub: "unat (n - 32) = unat n - 32" by (simp add: unat_sub)
    have "(n - 32) mod (12 + ucast page_size) = 0 \<longleftrightarrow> unat ((n - 32) mod (12 + ucast page_size)) = 0"
      by (simp add: unat_eq_zero)
    then show ?thesis
      using True rs hs sub by (simp add: page_group_size_valid_def Let_def CHECKPOINT_PAGE_HEADER_SIZE_def
          CHECKPOINT_PAGE_RECORD_HEADER_SIZE_def word_less_nat_alt unat_mod)
  next
    case False
    then show ?thesis
      using hs by (simp add: page_group_size_valid_def Let_def CHECKPOINT_PAGE_HEADER_SIZE_def
          CHECKPOINT_PAGE_RECORD_HEADER_SIZE_def word_less_nat_alt)
  qed
  also have "\<dots> \<longleftrightarrow> (\<exists>k\<ge>1. unat n = 32 + k * ?r)"
  proof
    assume a: "44 + unat page_size \<le> unat n \<and> (unat n - 32) mod ?r = 0"
    then obtain k where k: "unat n - 32 = ?r * k" by (auto simp: mod_eq_0_iff_dvd dvd_def)
    then have "k \<noteq> 0" using a by (intro notI) simp
    then show "\<exists>k\<ge>1. unat n = 32 + k * ?r" using a k by (intro exI [of _ k]) (simp add: mult.commute)
  next
    assume "\<exists>k\<ge>1. unat n = 32 + k * ?r"
    then obtain k where k: "k \<ge> 1" "unat n = 32 + k * ?r" by blast
    then have "?r \<le> k * ?r" by simp
    with k show "44 + unat page_size \<le> unat n \<and> (unat n - 32) mod ?r = 0" by simp
  qed
  finally show ?thesis .
qed

section \<open>The pointer in the store\<close>

definition checkpoint_key :: "string \<Rightarrow> string" where
  "checkpoint_key root = join_root root ''CHECKPOINT.json''"

definition checkpoint_ptr_wf :: "checkpoint_pointer \<Rightarrow> bool" where
  "checkpoint_ptr_wf p \<longleftrightarrow>
     plain_string (cp_database_id p) \<and> cp_database_id p \<noteq> [] \<and> length (cp_database_id p) \<le> CHECKPOINT_ID_MAX \<and>
     plain_string (cp_checkpoint_sha256 p) \<and> cp_checkpoint_sha256 p \<noteq> [] \<and>
       length (cp_checkpoint_sha256 p) \<le> CHECKPOINT_SHA256_HEX_SIZE \<and>
     plain_string (cp_checkpoint_key p) \<and> cp_checkpoint_key p \<noteq> [] \<and> length (cp_checkpoint_key p) \<le> 1023"

lemma checkpoint_ptr_fields:
  assumes "checkpoint_ptr_wf p"
  shows "checkpoint_extract_u64 (checkpoint_ptr_text p) ''otsardb_checkpoint_format'' = Some 1"
    "checkpoint_extract_u64 (checkpoint_ptr_text p) ''covered_generation'' = Some (cp_covered_generation p)"
    "checkpoint_extract_string (checkpoint_ptr_text p) ''database_id'' (CHECKPOINT_ID_MAX + 1) False = Some (cp_database_id p)"
    "checkpoint_extract_string (checkpoint_ptr_text p) ''checkpoint_sha256'' (CHECKPOINT_SHA256_HEX_SIZE + 1) False =
      Some (cp_checkpoint_sha256 p)"
    "checkpoint_extract_string (checkpoint_ptr_text p) ''checkpoint_key'' 1024 False = Some (cp_checkpoint_key p)"
proof -
  have "Suc 0 \<le> size_max" by (simp add: size_max_def)
  then show "checkpoint_extract_u64 (checkpoint_ptr_text p) ''otsardb_checkpoint_format'' = Some 1"
    using assms by (simp add: checkpoint_search checkpoint_ptr_text_def)
qed (use assms in \<open>simp_all add: checkpoint_search checkpoint_ptr_text_def checkpoint_ptr_wf_def plain_string_def\<close>)

lemma checkpoint_ptr_decode_text:
  assumes "checkpoint_ptr_wf p"
  shows "otsardb_checkpoint_ptr_decode (bytes_of_string (checkpoint_ptr_text p)) = Some p"
proof -
  have "c_str (checkpoint_ptr_text p) = checkpoint_ptr_text p"
    using assms by (intro c_str_id) (simp add: checkpoint_ptr_text_def checkpoint_ptr_wf_def plain_string_def json)
  moreover have "bytes_of_string (checkpoint_ptr_text p) \<noteq> []"
    by (simp add: bytes_of_string_def checkpoint_ptr_text_def)
  ultimately show ?thesis
    using checkpoint_ptr_fields [OF assms]
    by (simp add: otsardb_checkpoint_ptr_decode_def Let_def require_def uint32_max_def)
qed

lemma checkpoint_ptr_text_fits:
  assumes "checkpoint_ptr_wf p"
  shows "otsardb_checkpoint_ptr_encode p = Some (checkpoint_ptr_text p)"
proof -
  have "length (checkpoint_ptr_text p) \<le> int_max"
    using assms length_dec_word(2) [of "cp_covered_generation p"]
    by (simp add: checkpoint_ptr_text_def checkpoint_ptr_wf_def CHECKPOINT_ID_MAX_def CHECKPOINT_SHA256_HEX_SIZE_def
        json_u64_def json_str_def dec.simps [of "Suc 0"] int_max_def)
  then show ?thesis by (simp add: otsardb_checkpoint_ptr_encode_def)
qed

lemma build_checkpoint_key_cases:
  "build_checkpoint_key root n = None \<or> build_checkpoint_key root n = Some (checkpoint_key root)"
  by (simp add: build_checkpoint_key_def snprintf_fits_def checkpoint_key_def)

lemma ptr_put_result_cases:
  "ptr_put_result rc = JOURNAL_OK \<longleftrightarrow> rc \<in> {STORE_OK, STORE_NOT_FOUND, STORE_NOT_EMPTY}"
  "ptr_put_result rc = JOURNAL_CONFLICT \<longleftrightarrow> rc = STORE_PRECONDITION_FAILED"
  "ptr_put_result rc = JOURNAL_UNSUPPORTED \<longleftrightarrow> rc = STORE_UNSUPPORTED"
  "ptr_put_result rc \<noteq> JOURNAL_INVALID"
  by (cases rc; simp add: ptr_put_result_def)+

text \<open>The pointer that the contents of a store hold.\<close>

definition stored_checkpoint :: "(string \<rightharpoonup> store_object) \<Rightarrow> string \<Rightarrow> checkpoint_pointer option" where
  "stored_checkpoint contents root =
     (case contents (checkpoint_key root) of None \<Rightarrow> None | Some ob \<Rightarrow> otsardb_checkpoint_ptr_decode (so_data ob))"

context object_store_laws
begin

lemma ptr_read_law:
  assumes "otsardb_checkpoint_ptr_read store w root = (rc, res, w')" "valid w"
  shows "valid w' \<and> objs w' = objs w \<and>
     (\<forall>p e. res = Some (p, e) \<longrightarrow> rc = CHECKPOINT_PTR_OK \<and> stored_checkpoint (objs w) root = Some p) \<and>
     (rc = CHECKPOINT_PTR_OK \<longrightarrow> res \<noteq> None) \<and>
     (rc = CHECKPOINT_PTR_NOT_FOUND \<longrightarrow> objs w (checkpoint_key root) = None)"
proof (cases "build_checkpoint_key root (KEY_MAX + 1)")
  case None
  then show ?thesis using assms by (auto simp: otsardb_checkpoint_ptr_read_def)
next
  case (Some key)
  then have key: "key = checkpoint_key root" using build_checkpoint_key_cases [of root "KEY_MAX + 1"] by simp
  obtain src ob w2 where get: "otsardb_store_get store w key = (src, ob, w2)" by (cases "otsardb_store_get store w key")
  show ?thesis
    using assms get_law [OF get assms(2)] Some get
    by (auto simp: otsardb_checkpoint_ptr_read_def key stored_checkpoint_def split: if_splits option.splits)
qed

lemma ptr_publish_law:
  assumes pub: "otsardb_checkpoint_ptr_publish store w root p expected create = (rc, etag, w')" and w: "valid w"
  defines "data \<equiv> bytes_of_string (checkpoint_ptr_text p)"
    and "options \<equiv> \<lparr>po_if_none_match = create, po_if_match_etag = (if create then None else expected)\<rparr>"
  shows "valid w' \<and> (rc \<in> {JOURNAL_CONFLICT, JOURNAL_INVALID, JOURNAL_UNSUPPORTED} \<longrightarrow> objs w' = objs w) \<and>
    (objs w' = objs w \<or> (create \<or> expected \<noteq> None) \<and> put_allowed options (objs w (checkpoint_key root)) \<and>
       put_stored (objs w) (checkpoint_key root) data (objs w')) \<and>
    (rc = JOURNAL_OK \<longrightarrow> put_stored (objs w) (checkpoint_key root) data (objs w') \<or>
       fst (otsardb_store_put store w (checkpoint_key root) data options) \<in> {STORE_NOT_FOUND, STORE_NOT_EMPTY})"
proof (cases "(\<not> create \<and> expected = None) \<or> build_checkpoint_key root (KEY_MAX + 1) = None \<or>
    otsardb_checkpoint_ptr_encode p = None")
  case True
  then have "w' = w \<and> rc \<noteq> JOURNAL_OK"
    using pub by (auto simp: otsardb_checkpoint_ptr_publish_def split: if_splits option.splits)
  then show ?thesis using w by simp
next
  case False
  then have key: "build_checkpoint_key root (KEY_MAX + 1) = Some (checkpoint_key root)"
    and json: "otsardb_checkpoint_ptr_encode p = Some (checkpoint_ptr_text p)"
    and cond: "create \<or> expected \<noteq> None"
    using build_checkpoint_key_cases [of root "KEY_MAX + 1"]
    by (auto simp: otsardb_checkpoint_ptr_encode_def split: if_splits)
  obtain src et w2 where put: "otsardb_store_put store w (checkpoint_key root) data options = (src, et, w2)"
    by (cases "otsardb_store_put store w (checkpoint_key root) data options")
  have "w' = w2" "rc = ptr_put_result src"
    using pub put cond key json by (auto simp: otsardb_checkpoint_ptr_publish_def data_def options_def)
  then show ?thesis
    using put_law [OF put w] put cond by (auto simp: ptr_put_result_cases)
qed

end

section \<open>Properties\<close>

text \<open>
  (C24) A checkpoint manifest that the encoder accepts and whose strings fit the buffers of the decoder is
  printed into exactly the number of bytes that the first pass computed, and is read back unchanged.
\<close>

theorem checkpoint_manifest_round_trip:
  assumes "checkpoint_manifest_valid m" "checkpoint_manifest_wf m" "length (checkpoint_document m) \<le> int_max"
  shows "\<exists>json digest. otsardb_checkpoint_manifest_encode sha m = Some (json, digest) \<and>
    digest = otsardb_sha256_hex_data sha (bytes_of_string json) \<and>
    otsardb_checkpoint_manifest_decode (bytes_of_string json) = Some m"
  using assms checkpoint_encode_exact [of sha m] checkpoint_decode_document [OF assms(2,1)] by simp

definition sample_checkpoint :: checkpoint_manifest where
  "sample_checkpoint = \<lparr>ck_format_version = 1, ck_covered_generation = 7, ck_page_size = 4096,
     ck_database_size_pages = 2, ck_database_id = ''db'', ck_base_commit_id = ''c7'', ck_base_manifest_sha256 = [],
     ck_page_groups = [\<lparr>gr_key = ''checkpoints/a/page-0.otscp'', gr_sha256 = replicate 64 (CHR ''a''), gr_size = 8248\<rparr>]\<rparr>"

lemma sample_checkpoint_ok:
  "checkpoint_manifest_valid sample_checkpoint" "checkpoint_manifest_wf sample_checkpoint"
  "length (checkpoint_document sample_checkpoint) \<le> int_max"
proof -
  show "checkpoint_manifest_valid sample_checkpoint"
    by (simp add: checkpoint_manifest_valid_def sample_checkpoint_def CHECKPOINT_MANIFEST_FORMAT_VERSION_def
        CHECKPOINT_MAX_PAGE_GROUPS_def CHECKPOINT_SHA256_HEX_SIZE_def page_group_size_valid_def
        CHECKPOINT_PAGE_HEADER_SIZE_def CHECKPOINT_PAGE_RECORD_HEADER_SIZE_def)
  show "checkpoint_manifest_wf sample_checkpoint"
    by (simp add: checkpoint_manifest_wf_def sample_checkpoint_def plain_string_def group_ref_wf_def
        CHECKPOINT_ID_MAX_def CHECKPOINT_PAGE_GROUP_KEY_MAX_def)
  show "length (checkpoint_document sample_checkpoint) \<le> int_max"
    by (simp add: checkpoint_document_def checkpoint_header_def sample_checkpoint_def page_groups_marker_def pattern_u64_def
        json_u64_def json_str_def group_literal_def dec.simps int_max_def)
qed

theorem checkpoint_manifest_round_trip_witness:
  "\<exists>json digest. otsardb_checkpoint_manifest_encode (\<lambda>_. []) sample_checkpoint = Some (json, digest) \<and>
    otsardb_checkpoint_manifest_decode (bytes_of_string json) = Some sample_checkpoint"
  using checkpoint_manifest_round_trip [OF sample_checkpoint_ok, of "\<lambda>_. []"] by blast

text \<open>
  (C25) Whatever bytes are decoded, a manifest that the decoder accepts is one the encoder accepts too and fits
  its buffers, and each of its groups has exactly the size of an encoded page group with some number of pages.
\<close>

theorem checkpoint_manifest_decode_sound:
  assumes "otsardb_checkpoint_manifest_decode json = Some m"
  shows "checkpoint_manifest_valid m \<and> checkpoint_manifest_wf m \<and>
    (\<forall>r\<in>set (ck_page_groups m). \<exists>k\<ge>1. unat (gr_size r) = CP_HEADER_SIZE + k * (12 + unat (ck_page_size m)))"
proof -
  have ok: "checkpoint_manifest_valid m \<and> checkpoint_manifest_wf m" by (rule checkpoint_decode_valid [OF assms])
  then have "\<forall>r\<in>set (ck_page_groups m). page_group_size_valid (gr_size r) (ck_page_size m)"
    by (auto simp: checkpoint_manifest_valid_def list_all_iff)
  then show ?thesis using ok by (simp add: page_group_size_exact CP_HEADER_SIZE_def)
qed

theorem checkpoint_manifest_decode_sound_witness:
  "checkpoint_manifest_valid sample_checkpoint \<and>
   (\<exists>k. k \<ge> 1 \<and> unat (gr_size (hd (ck_page_groups sample_checkpoint))) =
      CP_HEADER_SIZE + k * (12 + unat (ck_page_size sample_checkpoint)))"
proof -
  have "hd (ck_page_groups sample_checkpoint) \<in> set (ck_page_groups sample_checkpoint)"
    by (simp add: sample_checkpoint_def)
  then show ?thesis
    using checkpoint_manifest_decode_sound [OF checkpoint_decode_document [OF sample_checkpoint_ok(2,1)]] by blast
qed

text \<open>
  (C16) Every outcome of publishing the checkpoint pointer.  The pointer either stays as it was or is replaced
  by the new one, the latter only when the condition of the call held; a conflict, a refused call and a store
  without conditional writes leave everything as it was; and success means that the pointer was replaced,
  unless the store answered the write with a code that the function does not list among the failures.
\<close>

theorem checkpoint_pointer_outcomes:
  assumes laws: "object_store_laws store objs valid" and w: "valid w"
    and pub: "otsardb_checkpoint_ptr_publish store w root p expected create = (rc, etag, w')"
  shows "(objs w' = objs w \<or>
           put_stored (objs w) (checkpoint_key root) (bytes_of_string (checkpoint_ptr_text p)) (objs w') \<and>
           (if create then objs w (checkpoint_key root) = None
            else \<exists>old. objs w (checkpoint_key root) = Some old \<and> so_etag old = expected)) \<and>
         (rc \<in> {JOURNAL_CONFLICT, JOURNAL_INVALID, JOURNAL_UNSUPPORTED} \<longrightarrow> objs w' = objs w) \<and>
         (rc = JOURNAL_OK \<longrightarrow>
           put_stored (objs w) (checkpoint_key root) (bytes_of_string (checkpoint_ptr_text p)) (objs w') \<or>
           fst (otsardb_store_put store w (checkpoint_key root) (bytes_of_string (checkpoint_ptr_text p))
             \<lparr>po_if_none_match = create, po_if_match_etag = (if create then None else expected)\<rparr>)
             \<in> {STORE_NOT_FOUND, STORE_NOT_EMPTY})"
proof -
  have "put_allowed \<lparr>po_if_none_match = create, po_if_match_etag = (if create then None else expected)\<rparr>
        (objs w (checkpoint_key root)) \<Longrightarrow> create \<or> expected \<noteq> None \<Longrightarrow>
      (if create then objs w (checkpoint_key root) = None
       else \<exists>old. objs w (checkpoint_key root) = Some old \<and> so_etag old = expected)"
    by (cases expected) (auto simp: put_allowed_def)
  then show ?thesis
    using object_store_laws.ptr_publish_law [OF laws pub w] by blast
qed

definition sample_pointer :: checkpoint_pointer where
  "sample_pointer = \<lparr>cp_covered_generation = 7, cp_checkpoint_sha256 = ''ab'',
     cp_checkpoint_key = ''db/checkpoints/ab.json'', cp_database_id = ''db''\<rparr>"

lemma sample_pointer_wf: "checkpoint_ptr_wf sample_pointer"
  by (simp add: checkpoint_ptr_wf_def sample_pointer_def plain_string_def CHECKPOINT_ID_MAX_def
      CHECKPOINT_SHA256_HEX_SIZE_def)

definition pointer_memory :: memory_store where
  "pointer_memory = \<lparr>ms_entries = [\<lparr>me_key = ''db/CHECKPOINT.json'',
       me_data = bytes_of_string (checkpoint_ptr_text sample_pointer), me_version = 1, me_last_modified = 0\<rparr>],
     ms_next_version = 1, ms_supported = memory_capabilities, ms_clock = 0\<rparr>"

lemma sample_pointer_publish:
  "otsardb_checkpoint_ptr_publish (memory_object_store memory_capabilities) empty_memory ''db'' sample_pointer None True =
     (JOURNAL_OK, Some (make_etag 1), pointer_memory)"
  using checkpoint_ptr_text_fits [OF sample_pointer_wf]
  by (simp add: otsardb_checkpoint_ptr_publish_def build_checkpoint_key_def snprintf_fits_def join_root_def ptr_put_result_def
      KEY_MAX_def memory_eval empty_memory_def Let_def pointer_memory_def)

theorem checkpoint_pointer_outcomes_witness:
  "put_stored (memory_objs empty_memory) (checkpoint_key ''db'')
     (bytes_of_string (checkpoint_ptr_text sample_pointer)) (memory_objs pointer_memory)"
  using checkpoint_pointer_outcomes [OF mem.object_store_laws_axioms empty_memory_valid sample_pointer_publish]
  by (simp add: memory_eval empty_memory_def Let_def)

text \<open>A lawful store on which the function reports success although nothing was written.\<close>

definition refusing_store :: "unit object_store" where
  "refusing_store = \<lparr>st_get = None, st_get_range = None,
     st_put = Some (\<lambda>w key data options. (STORE_NOT_FOUND, None, w)), st_delete = None, st_list = None,
     st_capabilities = 0\<rparr>"

theorem checkpoint_pointer_ok_without_write:
  "object_store_laws refusing_store (\<lambda>_. Map.empty) (\<lambda>_. True) \<and>
   fst (otsardb_checkpoint_ptr_publish refusing_store () ''db'' sample_pointer None True) = JOURNAL_OK"
proof
  show "object_store_laws refusing_store (\<lambda>_. Map.empty) (\<lambda>_. True)"
    by unfold_locales (auto simp: refusing_store_def otsardb_store_get_def otsardb_store_put_def
        otsardb_store_delete_def otsardb_store_list_def)
  show "fst (otsardb_checkpoint_ptr_publish refusing_store () ''db'' sample_pointer None True) = JOURNAL_OK"
    using checkpoint_ptr_text_fits [OF sample_pointer_wf]
    by (simp add: otsardb_checkpoint_ptr_publish_def build_checkpoint_key_def snprintf_fits_def join_root_def ptr_put_result_def
        KEY_MAX_def refusing_store_def otsardb_store_put_def)
qed

end
