(* ===== verification/Recovery.thy ===== *)
theory Recovery
  imports Commit_Resolve Checkpoint_Manifest Db_Metadata Checksum
begin

text \<open>
  Rebuilding a database from the object store, \<open>src/storage/recovery.c\<close>: applying one batch of pages to a
  local image, walking the hash-linked chain of manifests from HEAD, replaying it from the oldest commit,
  and starting from a checkpoint instead, the one \<open>CHECKPOINT.json\<close> names or one found by listing.  The local
  database file is its contents, \<open>None\<close> when there is no file; failing calls on local files are not modelled,
  except that a missing file cannot be read.  The diagnostics are left out.
\<close>

section \<open>Local images\<close>

definition int64_max :: nat where
  "int64_max = 2 ^ 63 - 1"

text \<open>Writing behind the end of a file fills the gap with zeros, and so does making a file longer.\<close>

definition write_at :: "bytes \<Rightarrow> nat \<Rightarrow> bytes \<Rightarrow> bytes" where
  "write_at img off data = take off (img @ replicate (off - length img) 0) @ data @ drop (off + length data) img"

definition ftruncate :: "bytes \<Rightarrow> nat \<Rightarrow> bytes" where
  "ftruncate img n = take n (img @ replicate (n - length img) 0)"

definition file_bytes :: "bytes option \<Rightarrow> bytes" where
  "file_bytes file = (case file of None \<Rightarrow> [] | Some f \<Rightarrow> f)"

primrec apply_batch_frames :: "wal_batch_view \<Rightarrow> nat list \<Rightarrow> bytes \<Rightarrow> bool \<times> bytes" where
  "apply_batch_frames batch [] img = (True, img)"
| "apply_batch_frames batch (i # is) img =
     (case otsardb_wal_batch_frame batch (of_nat i) of
        None \<Rightarrow> (False, img)
      | Some (page_no, page) \<Rightarrow>
          let offset = (ucast page_no - 1) * ucast (wb_page_size batch) :: u64 in
          if unat offset > int64_max then (False, img)
          else apply_batch_frames batch is (write_at img (unat offset) page))"

definition otsardb_recovery_apply_wal_batch_file :: "bytes \<Rightarrow> bytes option \<Rightarrow> bool \<times> bytes option" where
  "otsardb_recovery_apply_wal_batch_file batch_data file =
     (case otsardb_wal_batch_decode batch_data of
        None \<Rightarrow> (False, file)
      | Some batch \<Rightarrow>
          (case apply_batch_frames batch [0..<unat (wb_frame_count batch)] (file_bytes file) of (ok, img) \<Rightarrow>
             if \<not> ok then (False, Some img)
             else let final_size = wb_database_size_pages batch * ucast (wb_page_size batch) in
               if unat final_size > int64_max then (False, Some img)
               else (True, Some (ftruncate img (unat final_size)))))"

section \<open>Manifests and segments\<close>

text \<open>The digest, the decompressor and the authenticated cipher, code outside the component.\<close>

record recovery_env =
  re_sha :: "bytes \<Rightarrow> bytes"
  re_lz4d :: lz4_decompress
  re_gdec :: gcm_decrypt

text \<open>No expected digest stands for a null pointer.\<close>

definition read_manifest_object ::
  "(bytes \<Rightarrow> bytes) \<Rightarrow> 'w object_store \<Rightarrow> 'w \<Rightarrow> string \<Rightarrow> string option \<Rightarrow> (commit_manifest \<times> segment_enc_set) option \<times> 'w" where
  "read_manifest_object sha store w key expected =
     (case otsardb_store_get store w key of (rc, ob, w') \<Rightarrow>
        if rc \<noteq> STORE_OK then (None, w')
        else if \<not> (expected = None \<or> expected = Some [] \<or> Some (otsardb_sha256_hex_data sha (so_data ob)) = expected)
        then (None, w')
        else (case otsardb_commit_manifest_decode_json (so_data ob) of
                None \<Rightarrow> (None, w')
              | Some m \<Rightarrow>
                  (case otsardb_segment_enc_parse_json (so_data ob) of
                     None \<Rightarrow> (None, w')
                   | Some enc \<Rightarrow> (Some (m, enc), w'))))"

definition decrypt_segment_envelope ::
  "gcm_decrypt \<Rightarrow> cipher option \<Rightarrow> string \<Rightarrow> string \<Rightarrow> bytes \<Rightarrow> bytes option" where
  "decrypt_segment_envelope gdec cipher absolute_key commit_id envelope =
     (case cipher of
        None \<Rightarrow> None
      | Some c \<Rightarrow>
          (case segment_aad_build absolute_key commit_id of
             None \<Rightarrow> None
           | Some aad \<Rightarrow> otsardb_cipher_decrypt gdec c envelope aad))"

definition segment_encrypted :: "segment_enc_set \<Rightarrow> nat \<Rightarrow> bool" where
  "segment_encrypted enc i \<longleftrightarrow> es_present enc \<and> i < length (es_entries enc) \<and> es_entries enc ! i \<noteq> None"

definition segment_object_key :: "string \<Rightarrow> commit_manifest \<Rightarrow> manifest_segment_ref \<Rightarrow> string option" where
  "segment_object_key root m ref =
     (if cm_format_version m \<ge> 3 then root_join root (sg_key ref) (KEY_MAX + 1) else Some (sg_key ref))"

text \<open>The batch in a stored segment, behind every check of the loop body.\<close>

definition segment_batch ::
  "recovery_env \<Rightarrow> cipher option \<Rightarrow> commit_manifest \<Rightarrow> bool \<Rightarrow> string \<Rightarrow> manifest_segment_ref \<Rightarrow> bytes \<Rightarrow> bytes option" where
  "segment_batch env cipher m encrypted object_key ref data =
     do { require (length data = unat (sg_size ref));
          require (otsardb_sha256_hex_data (re_sha env) data = sg_sha256 ref);
          plain \<leftarrow> (if encrypted then decrypt_segment_envelope (re_gdec env) cipher object_key (cm_commit_id m) data
                   else Some data);
          segment \<leftarrow> otsardb_segment_decode (re_sha env) plain;
          require (sv_kind segment = segment_wal_frames \<and> sv_commit_id segment = cm_commit_id m);
          if sv_compressed segment then otsardb_segment_decompress (re_lz4d env) segment
          else Some (sv_payload segment) }"

definition apply_segment ::
  "recovery_env \<Rightarrow> 'w object_store \<Rightarrow> 'w \<Rightarrow> string \<Rightarrow> commit_manifest \<Rightarrow> segment_enc_set \<Rightarrow> cipher option \<Rightarrow>
   nat \<Rightarrow> manifest_segment_ref \<Rightarrow> bytes option \<Rightarrow> bool \<times> bytes option \<times> 'w" where
  "apply_segment env store w root m enc cipher i ref file =
     (case segment_object_key root m ref of
        None \<Rightarrow> (False, file, w)
      | Some object_key \<Rightarrow>
          (case otsardb_store_get store w object_key of (rc, ob, w') \<Rightarrow>
             if rc \<noteq> STORE_OK then (False, file, w')
             else case segment_batch env cipher m (segment_encrypted enc i) object_key ref (so_data ob) of
               None \<Rightarrow> (False, file, w')
             | Some batch \<Rightarrow>
                 (case otsardb_recovery_apply_wal_batch_file batch file of (ok, file') \<Rightarrow> (ok, file', w'))))"

primrec apply_segments_from ::
  "recovery_env \<Rightarrow> 'w object_store \<Rightarrow> string \<Rightarrow> commit_manifest \<Rightarrow> segment_enc_set \<Rightarrow> cipher option \<Rightarrow>
   manifest_segment_ref list \<Rightarrow> nat \<Rightarrow> 'w \<Rightarrow> bytes option \<Rightarrow> bool \<times> bytes option \<times> 'w" where
  "apply_segments_from env store root m enc cipher [] i w file = (True, file, w)"
| "apply_segments_from env store root m enc cipher (ref # refs) i w file =
     (case apply_segment env store w root m enc cipher i ref file of (ok, file', w') \<Rightarrow>
        if \<not> ok then (False, file', w')
        else apply_segments_from env store root m enc cipher refs (Suc i) w' file')"

definition apply_manifest_segments ::
  "recovery_env \<Rightarrow> 'w object_store \<Rightarrow> 'w \<Rightarrow> string \<Rightarrow> commit_manifest \<Rightarrow> segment_enc_set \<Rightarrow> cipher option \<Rightarrow>
   bytes option \<Rightarrow> bool \<times> bytes option \<times> 'w" where
  "apply_manifest_segments env store w root m enc cipher file =
     apply_segments_from env store root m enc cipher (cm_segments m) 0 w file"

section \<open>The chain\<close>

text \<open>The checks on a manifest that was read at a position of the walk.\<close>

definition chain_manifest_ok :: "db_metadata \<Rightarrow> chain_pos \<Rightarrow> commit_manifest \<Rightarrow> bool" where
  "chain_manifest_ok meta p m \<longleftrightarrow>
     \<not> (cm_generation m \<noteq> pos_generation p \<or> cm_database_id m \<noteq> dm_database_id meta \<or>
        cm_commit_id m \<noteq> pos_commit_id p \<or> cm_page_size m \<noteq> dm_page_size meta \<or>
        cm_parent_generation m + 1 \<noteq> cm_generation m)"

text \<open>
  What follows a manifest: the walk ends there, it fails, or it goes on with the parent.
\<close>

datatype chain_next = CHAIN_END | CHAIN_FAIL | CHAIN_PARENT chain_pos

definition chain_step :: "string \<Rightarrow> u64 \<Rightarrow> commit_manifest \<Rightarrow> chain_next" where
  "chain_step root stop m =
     (if stop \<noteq> 0 \<and> cm_generation m = stop then CHAIN_END
      else if cm_parent_generation m = 0 then
        (if cm_parent_commit_id m \<noteq> [] \<or> (cm_format_version m \<ge> 2 \<and> cm_parent_manifest_sha256 m \<noteq> [])
         then CHAIN_FAIL else CHAIN_END)
      else if cm_parent_commit_id m = [] then CHAIN_FAIL
      else case parent_pos root m of
        None \<Rightarrow> CHAIN_FAIL
      | Some q \<Rightarrow>
          if cm_format_version m \<ge> 2 \<and> length (cm_parent_manifest_sha256 m) \<noteq> MANIFEST_SHA256_HEX_SIZE
          then CHAIN_FAIL else CHAIN_PARENT q)"

text \<open>The keys of the chain, newest first; the number is how many more the walk may collect.\<close>

primrec collect_chain_loop ::
  "(bytes \<Rightarrow> bytes) \<Rightarrow> 'w object_store \<Rightarrow> string \<Rightarrow> db_metadata \<Rightarrow> u64 \<Rightarrow> nat \<Rightarrow> 'w \<Rightarrow> chain_pos \<Rightarrow> string list option \<times> 'w" where
  "collect_chain_loop sha store root meta stop 0 w p = (if pos_generation p > 0 then (None, w) else (Some [], w))"
| "collect_chain_loop sha store root meta stop (Suc room) w p =
     (if \<not> pos_generation p > 0 then (Some [], w)
      else case read_manifest_object sha store w (pos_key p) (Some (pos_sha256 p)) of
        (None, w') \<Rightarrow> (None, w')
      | (Some (m, enc), w') \<Rightarrow>
          if \<not> chain_manifest_ok meta p m then (None, w')
          else case chain_step root stop m of
            CHAIN_END \<Rightarrow> (Some [pos_key p], w')
          | CHAIN_FAIL \<Rightarrow> (None, w')
          | CHAIN_PARENT q \<Rightarrow>
              (case collect_chain_loop sha store root meta stop room w' q of
                 (None, w'') \<Rightarrow> (None, w'')
               | (Some keys, w'') \<Rightarrow> (Some (pos_key p # keys), w'')))"

definition collect_chain_keys ::
  "(bytes \<Rightarrow> bytes) \<Rightarrow> 'w object_store \<Rightarrow> 'w \<Rightarrow> string \<Rightarrow> db_metadata \<Rightarrow> head \<Rightarrow> u64 \<Rightarrow> string list option \<times> 'w" where
  "collect_chain_keys sha store w root meta h stop =
     collect_chain_loop sha store root meta stop RECOVERY_MAX_COMMITS w (head_pos h)"

text \<open>The keys to apply, oldest first.\<close>

primrec apply_keys_loop ::
  "recovery_env \<Rightarrow> 'w object_store \<Rightarrow> string \<Rightarrow> cipher option \<Rightarrow> string list \<Rightarrow> 'w \<Rightarrow> bytes option \<Rightarrow> bool \<times> bytes option \<times> 'w" where
  "apply_keys_loop env store root cipher [] w file = (True, file, w)"
| "apply_keys_loop env store root cipher (key # keys) w file =
     (case read_manifest_object (re_sha env) store w key None of
        (None, w') \<Rightarrow> (False, file, w')
      | (Some (m, enc), w') \<Rightarrow>
          (case apply_manifest_segments env store w' root m enc cipher file of (ok, file', w'') \<Rightarrow>
             if \<not> ok then (False, file', w'')
             else apply_keys_loop env store root cipher keys w'' file'))"

definition apply_manifest_keys ::
  "recovery_env \<Rightarrow> 'w object_store \<Rightarrow> 'w \<Rightarrow> string \<Rightarrow> string list \<Rightarrow> nat \<Rightarrow> cipher option \<Rightarrow> bytes option \<Rightarrow>
   bool \<times> bytes option \<times> 'w" where
  "apply_manifest_keys env store w root keys key_count cipher file =
     apply_keys_loop env store root cipher (rev (take key_count keys)) w file"

text \<open>The oldest manifest is read again and must have no parent.\<close>

definition genesis_check ::
  "(bytes \<Rightarrow> bytes) \<Rightarrow> 'w object_store \<Rightarrow> 'w \<Rightarrow> string list \<Rightarrow> bool \<times> 'w" where
  "genesis_check sha store w keys =
     (if keys = [] then (False, w)
      else case read_manifest_object sha store w (last keys) None of
        (None, w') \<Rightarrow> (False, w')
      | (Some (m, enc), w') \<Rightarrow> (cm_parent_generation m = 0, w'))"

definition walk_manifest_chain ::
  "recovery_env \<Rightarrow> 'w object_store \<Rightarrow> 'w \<Rightarrow> string \<Rightarrow> db_metadata \<Rightarrow> head \<Rightarrow> bool \<Rightarrow> u64 \<Rightarrow> cipher option \<Rightarrow>
   bytes option \<Rightarrow> bool \<times> bytes option \<times> 'w" where
  "walk_manifest_chain env store w root meta h apply_segs stop cipher file =
     (case collect_chain_keys (re_sha env) store w root meta h stop of
        (None, w1) \<Rightarrow> (False, file, w1)
      | (Some keys, w1) \<Rightarrow>
          (case (if stop = 0 \<and> (keys = [] \<or> apply_segs) then genesis_check (re_sha env) store w1 keys else (True, w1)) of
             (ok, w2) \<Rightarrow>
               if ok \<and> apply_segs
               then apply_manifest_keys env store w2 root keys (length keys) cipher file
               else (ok, file, w2)))"

text \<open>
  The walk for a caller: the visitor sees every manifest, newest first, with its own state \<open>'c\<close>, and may
  stop the walk.  The keys that were visited are the last component.
\<close>

primrec visit_chain_loop ::
  "(bytes \<Rightarrow> bytes) \<Rightarrow> 'w object_store \<Rightarrow> string \<Rightarrow> db_metadata \<Rightarrow> u64 \<Rightarrow>
   (string \<Rightarrow> string \<Rightarrow> commit_manifest \<Rightarrow> segment_enc_set \<Rightarrow> 'c \<Rightarrow> bool \<times> 'c) option \<Rightarrow>
   nat \<Rightarrow> 'w \<Rightarrow> 'c \<Rightarrow> chain_pos \<Rightarrow> string list option \<times> 'c \<times> 'w" where
  "visit_chain_loop sha store root meta stop visitor 0 w c p =
     (if pos_generation p > 0 then (None, c, w) else (Some [], c, w))"
| "visit_chain_loop sha store root meta stop visitor (Suc room) w c p =
     (if \<not> pos_generation p > 0 then (Some [], c, w)
      else case read_manifest_object sha store w (pos_key p) (Some (pos_sha256 p)) of
        (None, w') \<Rightarrow> (None, c, w')
      | (Some (m, enc), w') \<Rightarrow>
          if \<not> chain_manifest_ok meta p m then (None, c, w')
          else case (case visitor of None \<Rightarrow> (True, c) | Some f \<Rightarrow> f (pos_key p) (pos_sha256 p) m enc c) of
            (go, c') \<Rightarrow>
              if \<not> go then (None, c', w')
              else case chain_step root stop m of
                CHAIN_END \<Rightarrow> (Some [pos_key p], c', w')
              | CHAIN_FAIL \<Rightarrow> (None, c', w')
              | CHAIN_PARENT q \<Rightarrow>
                  (case visit_chain_loop sha store root meta stop visitor room w' c' q of
                     (None, c'', w'') \<Rightarrow> (None, c'', w'')
                   | (Some keys, c'', w'') \<Rightarrow> (Some (pos_key p # keys), c'', w'')))"

definition otsardb_recovery_walk_chain ::
  "(bytes \<Rightarrow> bytes) \<Rightarrow> 'w object_store \<Rightarrow> 'w \<Rightarrow> string \<Rightarrow> db_metadata \<Rightarrow> head \<Rightarrow> u64 \<Rightarrow>
   (string \<Rightarrow> string \<Rightarrow> commit_manifest \<Rightarrow> segment_enc_set \<Rightarrow> 'c \<Rightarrow> bool \<times> 'c) option \<Rightarrow> 'c \<Rightarrow> bool \<times> 'c \<times> 'w" where
  "otsardb_recovery_walk_chain sha store w root meta h stop visitor c =
     (case visit_chain_loop sha store root meta stop visitor RECOVERY_MAX_COMMITS w c (head_pos h) of
        (None, c', w') \<Rightarrow> (False, c', w')
      | (Some keys, c', w') \<Rightarrow>
          if stop = 0 then (case genesis_check sha store w' keys of (ok, w'') \<Rightarrow> (ok, c', w''))
          else (True, c', w'))"

section \<open>Checkpoints\<close>

primrec apply_group_records :: "checkpoint_page_view \<Rightarrow> nat list \<Rightarrow> bytes \<Rightarrow> bool \<times> bytes" where
  "apply_group_records view [] img = (True, img)"
| "apply_group_records view (j # js) img =
     (case otsardb_checkpoint_page_frame view (of_nat j) of
        None \<Rightarrow> (False, img)
      | Some (page_no, compressed, page_data) \<Rightarrow>
          if compressed \<or> length page_data \<noteq> unat (cv_page_size view) then (False, img)
          else let offset = (ucast page_no - 1) * ucast (cv_page_size view) :: u64 in
            if unat offset > int64_max then (False, img)
            else apply_group_records view js (write_at img (unat offset) page_data))"

primrec apply_checkpoint_groups ::
  "(bytes \<Rightarrow> bytes) \<Rightarrow> 'w object_store \<Rightarrow> string \<Rightarrow> page_group_ref list \<Rightarrow> 'w \<Rightarrow> bytes option \<Rightarrow> bool \<times> bytes option \<times> 'w" where
  "apply_checkpoint_groups sha store root [] w file = (True, file, w)"
| "apply_checkpoint_groups sha store root (ref # refs) w file =
     (case root_join root (gr_key ref) (KEY_MAX + 1) of
        None \<Rightarrow> (False, file, w)
      | Some key \<Rightarrow>
          (case otsardb_store_get store w key of (rc, ob, w') \<Rightarrow>
             if rc \<noteq> STORE_OK then (False, file, w')
             else if \<not> (otsardb_sha256_hex_data sha (so_data ob) = gr_sha256 ref \<and>
                        length (so_data ob) = unat (gr_size ref))
             then (False, file, w')
             else case otsardb_checkpoint_page_decode (so_data ob) of
               None \<Rightarrow> (False, file, w')
             | Some view \<Rightarrow>
                 (case apply_group_records view [0..<unat (cv_page_count view)] (file_bytes file) of (ok, img) \<Rightarrow>
                    if \<not> ok then (False, Some img, w')
                    else apply_checkpoint_groups sha store root refs w' (Some img))))"

definition otsardb_recovery_apply_checkpoint_pages ::
  "(bytes \<Rightarrow> bytes) \<Rightarrow> 'w object_store \<Rightarrow> 'w \<Rightarrow> string \<Rightarrow> checkpoint_manifest \<Rightarrow> bytes option \<Rightarrow> bool \<times> bytes option \<times> 'w" where
  "otsardb_recovery_apply_checkpoint_pages sha store w root cp file =
     apply_checkpoint_groups sha store root (ck_page_groups cp) w file"

definition file_size_u64 :: "bytes option \<Rightarrow> u64 option" where
  "file_size_u64 file = map_option (\<lambda>f. of_nat (length f)) file"

definition validate_file_against_manifest_checksum :: "bytes option \<Rightarrow> u32 \<Rightarrow> u64 \<Rightarrow> string \<Rightarrow> bool" where
  "validate_file_against_manifest_checksum file page_size database_size_pages expected_hex =
     (if expected_hex = [] then True
      else case otsardb_checksum_parse (Some expected_hex) of
        None \<Rightarrow> False
      | Some expected \<Rightarrow>
          (case file of
             None \<Rightarrow> False
           | Some f \<Rightarrow> otsardb_checksum_file (Some f) page_size database_size_pages = expected))"

definition validate_head_checksum ::
  "(bytes \<Rightarrow> bytes) \<Rightarrow> 'w object_store \<Rightarrow> 'w \<Rightarrow> head \<Rightarrow> bytes option \<Rightarrow> bool \<times> 'w" where
  "validate_head_checksum sha store w h file =
     (case otsardb_store_get store w (hd_commit_key h) of (rc, ob, w') \<Rightarrow>
        if rc \<noteq> STORE_OK then (False, w')
        else if otsardb_sha256_hex_data sha (so_data ob) \<noteq> hd_commit_sha256 h then (False, w')
        else case otsardb_commit_manifest_decode_json (so_data ob) of
          None \<Rightarrow> (False, w')
        | Some m \<Rightarrow>
            (validate_file_against_manifest_checksum file (cm_page_size m) (cm_database_size_pages m)
               (cm_post_apply_checksum m), w'))"

text \<open>The identity of a checkpoint against the metadata and HEAD.\<close>

definition checkpoint_identity :: "db_metadata \<Rightarrow> head \<Rightarrow> checkpoint_manifest \<Rightarrow> bool" where
  "checkpoint_identity meta h cp \<longleftrightarrow>
     ck_covered_generation cp > 0 \<and> ck_covered_generation cp \<le> hd_generation h \<and>
     ck_database_id cp = dm_database_id meta \<and> ck_page_size cp = dm_page_size meta \<and>
     ck_database_size_pages cp > 0 \<and> ck_base_commit_id cp \<noteq> [] \<and> ck_base_manifest_sha256 cp \<noteq> []"

text \<open>
  Binding a checkpoint to the chain: the manifest at the covered generation, authenticated by the walk, has
  the commit id and the digest that the checkpoint names.  The keys of the walk and that manifest.
\<close>

definition bind_checkpoint ::
  "(bytes \<Rightarrow> bytes) \<Rightarrow> 'w object_store \<Rightarrow> 'w \<Rightarrow> string \<Rightarrow> db_metadata \<Rightarrow> head \<Rightarrow> checkpoint_manifest \<Rightarrow>
   (string list \<times> commit_manifest) option \<times> 'w" where
  "bind_checkpoint sha store w root meta h cp =
     (case collect_chain_keys sha store w root meta h (ck_covered_generation cp) of
        (None, w1) \<Rightarrow> (None, w1)
      | (Some keys, w1) \<Rightarrow>
          if keys = [] then (None, w1)
          else case read_manifest_object sha store w1 (last keys) None of
            (None, w2) \<Rightarrow> (None, w2)
          | (Some (covered, enc), w2) \<Rightarrow>
              if \<not> (cm_generation covered = ck_covered_generation cp \<and> cm_commit_id covered = ck_base_commit_id cp)
              then (None, w2)
              else (case otsardb_store_get store w2 (last keys) of (rc, ob, w3) \<Rightarrow>
                      if rc = STORE_OK \<and> otsardb_sha256_hex_data sha (so_data ob) = ck_base_manifest_sha256 cp
                      then (Some (keys, covered), w3) else (None, w3)))"

text \<open>
  The pages of the checkpoint into a fresh file, the checks of that image against the covered manifest, the
  newer commits on top of it and the check against HEAD; nothing is left of a failed attempt.
\<close>

definition base_image_ok :: "bytes option \<Rightarrow> commit_manifest \<Rightarrow> bool" where
  "base_image_ok file covered \<longleftrightarrow>
     file_size_u64 file = Some (cm_database_size_pages covered * ucast (cm_page_size covered)) \<and>
     validate_file_against_manifest_checksum file (cm_page_size covered) (cm_database_size_pages covered)
       (cm_post_apply_checksum covered)"

definition replay_above ::
  "recovery_env \<Rightarrow> 'w object_store \<Rightarrow> 'w \<Rightarrow> string \<Rightarrow> head \<Rightarrow> string list \<Rightarrow> nat \<Rightarrow> cipher option \<Rightarrow> bytes option \<Rightarrow>
   bool \<times> bytes option \<times> 'w" where
  "replay_above env store w root h keys apply_count cipher file =
     (case apply_manifest_keys env store w root keys apply_count cipher file of (ok, file', w1) \<Rightarrow>
        if \<not> ok then (False, file', w1)
        else (case validate_head_checksum (re_sha env) store w1 h file' of (ok, w2) \<Rightarrow> (ok, file', w2)))"

definition restore_from_base ::
  "recovery_env \<Rightarrow> 'w object_store \<Rightarrow> 'w \<Rightarrow> string \<Rightarrow> head \<Rightarrow> checkpoint_manifest \<Rightarrow> string list \<Rightarrow> commit_manifest \<Rightarrow>
   cipher option \<Rightarrow> bool \<times> bytes option \<times> 'w" where
  "restore_from_base env store w root h cp keys covered cipher =
     (case otsardb_recovery_apply_checkpoint_pages (re_sha env) store w root cp None of (ok, file, w1) \<Rightarrow>
        if \<not> ok \<or> \<not> base_image_ok file covered then (False, None, w1)
        else (case replay_above env store w1 root h keys
                     (if cm_post_apply_checksum covered \<noteq> [] then length keys - 1 else length keys) cipher file of
                (ok, file', w2) \<Rightarrow> (ok, if ok then file' else None, w2)))"

text \<open>The attempt with the checkpoint that \<open>CHECKPOINT.json\<close> names.\<close>

definition restore_from_pointer ::
  "recovery_env \<Rightarrow> 'w object_store \<Rightarrow> 'w \<Rightarrow> string \<Rightarrow> db_metadata \<Rightarrow> head \<Rightarrow> cipher option \<Rightarrow> bytes option \<Rightarrow>
   bool \<times> bytes option \<times> 'w" where
  "restore_from_pointer env store w root meta h cipher file =
     (case otsardb_checkpoint_ptr_read store w root of
        (rc, None, w1) \<Rightarrow> (False, file, w1)
      | (rc, Some (ptr, etag), w1) \<Rightarrow>
          if \<not> (cp_covered_generation ptr > 0 \<and> cp_covered_generation ptr \<le> hd_generation h \<and>
                cp_checkpoint_key ptr \<noteq> [] \<and> cp_database_id ptr = dm_database_id meta)
          then (False, file, w1)
          else case otsardb_store_get store w1 (cp_checkpoint_key ptr) of (rc, ob, w2) \<Rightarrow>
            if rc \<noteq> STORE_OK \<or> otsardb_sha256_hex_data (re_sha env) (so_data ob) \<noteq> cp_checkpoint_sha256 ptr
            then (False, file, w2)
            else case otsardb_checkpoint_manifest_decode (so_data ob) of
              None \<Rightarrow> (False, file, w2)
            | Some cp \<Rightarrow>
                if \<not> (ck_covered_generation cp = cp_covered_generation ptr \<and> checkpoint_identity meta h cp)
                then (False, file, w2)
                else case bind_checkpoint (re_sha env) store w2 root meta h cp of
                  (None, w3) \<Rightarrow> (False, file, w3)
                | (Some (keys, covered), w3) \<Rightarrow> restore_from_base env store w3 root h cp keys covered cipher)"

section \<open>Discovery\<close>

definition cp_manifest_list_key_valid :: "string \<Rightarrow> bool" where
  "cp_manifest_list_key_valid key \<longleftrightarrow>
     length key = 64 + 5 \<and> drop 64 key = ''.json'' \<and> list_all is_hex_digit (take 64 key)"

text \<open>One candidate of the listing; the best checkpoint so far comes in and goes out.\<close>

definition cp_discovery_evaluate_one ::
  "(bytes \<Rightarrow> bytes) \<Rightarrow> 'w object_store \<Rightarrow> string \<Rightarrow> db_metadata \<Rightarrow> head \<Rightarrow> string \<Rightarrow>
   checkpoint_manifest option \<Rightarrow> 'w \<Rightarrow> checkpoint_manifest option \<times> 'w" where
  "cp_discovery_evaluate_one sha store root meta h logical_key best w =
     (let name = ''checkpoints/'' @ logical_key in
      if length name \<ge> 256 then (best, w)
      else case root_join root name (KEY_MAX + 1) of
        None \<Rightarrow> (best, w)
      | Some key \<Rightarrow>
          (case otsardb_store_get store w key of (rc, ob, w1) \<Rightarrow>
             if rc \<noteq> STORE_OK then (best, w1)
             else if take 64 (otsardb_sha256_hex_data sha (so_data ob)) \<noteq> take 64 logical_key then (best, w1)
             else case otsardb_checkpoint_manifest_decode (so_data ob) of
               None \<Rightarrow> (best, w1)
             | Some cp \<Rightarrow>
                 if \<not> checkpoint_identity meta h cp then (best, w1)
                 else case bind_checkpoint sha store w1 root meta h cp of
                   (None, w2) \<Rightarrow> (best, w2)
                 | (Some _, w2) \<Rightarrow>
                     ((case best of
                         None \<Rightarrow> Some cp
                       | Some b \<Rightarrow> if ck_covered_generation cp > ck_covered_generation b then Some cp else best), w2)))"

primrec cp_discovery_evaluate ::
  "(bytes \<Rightarrow> bytes) \<Rightarrow> 'w object_store \<Rightarrow> string \<Rightarrow> db_metadata \<Rightarrow> head \<Rightarrow> string list \<Rightarrow>
   checkpoint_manifest option \<Rightarrow> 'w \<Rightarrow> checkpoint_manifest option \<times> 'w" where
  "cp_discovery_evaluate sha store root meta h [] best w = (best, w)"
| "cp_discovery_evaluate sha store root meta h (key # keys) best w =
     (case cp_discovery_evaluate_one sha store root meta h key best w of (best', w') \<Rightarrow>
        cp_discovery_evaluate sha store root meta h keys best' w')"

definition recovery_apply_discovered_checkpoint ::
  "recovery_env \<Rightarrow> 'w object_store \<Rightarrow> 'w \<Rightarrow> string \<Rightarrow> db_metadata \<Rightarrow> head \<Rightarrow> checkpoint_manifest \<Rightarrow> cipher option \<Rightarrow>
   bytes option \<Rightarrow> bool \<times> bytes option \<times> 'w" where
  "recovery_apply_discovered_checkpoint env store w root meta h cp cipher file =
     (case collect_chain_keys (re_sha env) store w root meta h (ck_covered_generation cp) of
        (None, w1) \<Rightarrow> (False, file, w1)
      | (Some keys, w1) \<Rightarrow>
          if keys = [] then (False, file, w1)
          else case read_manifest_object (re_sha env) store w1 (last keys) None of
            (None, w2) \<Rightarrow> (False, None, w2)
          | (Some (covered, enc), w2) \<Rightarrow> restore_from_base env store w2 root h cp keys covered cipher)"

definition restore_from_discovered_checkpoint ::
  "recovery_env \<Rightarrow> 'w object_store \<Rightarrow> 'w \<Rightarrow> string \<Rightarrow> db_metadata \<Rightarrow> head \<Rightarrow> cipher option \<Rightarrow> bytes option \<Rightarrow>
   bool \<times> bytes option \<times> 'w" where
  "restore_from_discovered_checkpoint env store w root meta h cipher file =
     (case root_join root ''checkpoints/'' (KEY_MAX + 1) of
        None \<Rightarrow> (False, file, w)
      | Some checkpoints_prefix \<Rightarrow>
          (case otsardb_store_list store w checkpoints_prefix of (rc, keys, w1) \<Rightarrow>
             if rc \<noteq> STORE_OK then (False, file, w1)
             else (case cp_discovery_evaluate (re_sha env) store root meta h
                          (filter cp_manifest_list_key_valid keys) None w1 of
                     (None, w2) \<Rightarrow> (False, file, w2)
                   | (Some best, w2) \<Rightarrow>
                       recovery_apply_discovered_checkpoint env store w2 root meta h best cipher file)))"

section \<open>Restoring\<close>

definition recovery_head_ok :: "db_metadata \<Rightarrow> head \<Rightarrow> bool" where
  "recovery_head_ok meta h \<longleftrightarrow>
     \<not> (hd_database_id h \<noteq> dm_database_id meta \<or> hd_generation h = 0 \<or>
        unat (hd_generation h) > RECOVERY_MAX_COMMITS \<or> length (hd_commit_sha256 h) \<noteq> MANIFEST_SHA256_HEX_SIZE)"

text \<open>The full chain: validated first, then applied to a fresh file.\<close>

definition restore_full_chain ::
  "recovery_env \<Rightarrow> 'w object_store \<Rightarrow> 'w \<Rightarrow> string \<Rightarrow> db_metadata \<Rightarrow> head \<Rightarrow> cipher option \<Rightarrow> bytes option \<Rightarrow>
   bool \<times> bytes option \<times> 'w" where
  "restore_full_chain env store w root meta h cipher file =
     (case walk_manifest_chain env store w root meta h False 0 cipher file of (ok, file', w1) \<Rightarrow>
        if \<not> ok then (False, file', w1)
        else (case walk_manifest_chain env store w1 root meta h True 0 cipher None of (ok, file'', w2) \<Rightarrow>
                if \<not> ok then (False, None, w2)
                else (case validate_head_checksum (re_sha env) store w2 h file'' of (ok, w3) \<Rightarrow>
                        (ok, if ok then file'' else None, w3))))"

definition otsardb_recovery_restore_store_ex ::
  "recovery_env \<Rightarrow> 'w object_store \<Rightarrow> 'w \<Rightarrow> string \<Rightarrow> cipher option \<Rightarrow> bytes option \<Rightarrow> bool \<times> bytes option \<times> 'w" where
  "otsardb_recovery_restore_store_ex env store w root cipher file =
     (if root = [] then (False, file, w)
      else case otsardb_db_metadata_read store w root of
        (rc, None, w1) \<Rightarrow> (False, file, w1)
      | (rc, Some meta, w1) \<Rightarrow>
          (case otsardb_journal_read_head store w1 root of
             (rc, None, w2) \<Rightarrow> (False, file, w2)
           | (rc, Some (h, etag), w2) \<Rightarrow>
               if \<not> recovery_head_ok meta h then (False, file, w2)
               else (case restore_from_pointer env store w2 root meta h cipher file of (ok, file3, w3) \<Rightarrow>
                       if ok then (True, file3, w3)
                       else (case restore_from_discovered_checkpoint env store w3 root meta h cipher file3 of
                               (ok, file4, w4) \<Rightarrow>
                                 if ok then (True, file4, w4)
                                 else restore_full_chain env store w4 root meta h cipher file4))))"

text \<open>The entry point without a cipher uses the one of the session.\<close>

definition otsardb_recovery_restore_store ::
  "recovery_env \<Rightarrow> cipher option \<Rightarrow> 'w object_store \<Rightarrow> 'w \<Rightarrow> string \<Rightarrow> bytes option \<Rightarrow> bool \<times> bytes option \<times> 'w" where
  "otsardb_recovery_restore_store env thread_cipher store w root file =
     otsardb_recovery_restore_store_ex env store w root thread_cipher file"

section \<open>Deltas\<close>

text \<open>
  Bringing a cached image up to date: the local files are a map from paths to contents.  The delta is applied
  to a temporary copy, and the result replaces the database only when it agrees with HEAD; where the
  temporary copy has the path of the database, removing the one removes the other and the call fails.
\<close>

definition delta_base_ok ::
  "(bytes \<Rightarrow> bytes) \<Rightarrow> 'w object_store \<Rightarrow> 'w \<Rightarrow> string \<Rightarrow> u64 \<Rightarrow> string \<Rightarrow> bytes option \<Rightarrow> bool \<times> 'w" where
  "delta_base_ok sha store w key base_generation base_manifest_sha256 base_image =
     (case read_manifest_object sha store w key (Some base_manifest_sha256) of
        (None, w') \<Rightarrow> (False, w')
      | (Some (m, enc), w') \<Rightarrow> (cm_generation m = base_generation \<and> base_image_ok base_image m, w'))"

definition otsardb_recovery_materialize_delta_ex ::
  "recovery_env \<Rightarrow> 'w object_store \<Rightarrow> 'w \<Rightarrow> string \<Rightarrow> string \<Rightarrow> u64 \<Rightarrow> string \<Rightarrow> string \<Rightarrow> cipher option \<Rightarrow>
   (string \<rightharpoonup> bytes) \<Rightarrow> head option \<times> (string \<rightharpoonup> bytes) \<times> 'w" where
  "otsardb_recovery_materialize_delta_ex env store w root base_path base_generation base_sha db_path cipher files =
     (if root = [] \<or> base_path = [] \<or> db_path = [] \<or> base_generation = 0 \<or>
         length base_sha \<noteq> MANIFEST_SHA256_HEX_SIZE \<or> base_path = db_path
      then (None, files, w)
      else case otsardb_db_metadata_read store w root of
        (rc, None, w1) \<Rightarrow> (None, files, w1)
      | (rc, Some meta, w1) \<Rightarrow>
          (case otsardb_journal_read_head store w1 root of
             (rc, None, w2) \<Rightarrow> (None, files, w2)
           | (rc, Some (h, etag), w2) \<Rightarrow>
               if \<not> recovery_head_ok meta h \<or> hd_generation h \<le> base_generation then (None, files, w2)
               else (case collect_chain_keys (re_sha env) store w2 root meta h base_generation of
                       (None, w3) \<Rightarrow> (None, files, w3)
                     | (Some keys, w3) \<Rightarrow>
                         if keys = [] then (None, files, w3)
                         else (case delta_base_ok (re_sha env) store w3 (last keys) base_generation base_sha (files base_path) of
                           (ok, w4) \<Rightarrow>
                             if \<not> ok then (None, files, w4)
                             else let temp_path = base_path @ ''.deltatmp'' in
                               (case replay_above env store w4 root h keys (length keys - 1) cipher (files base_path) of
                                  (ok, img, w5) \<Rightarrow>
                                    if \<not> ok \<or> temp_path = db_path then (None, files(temp_path := None), w5)
                                    else (Some h, files(db_path := img, temp_path := None), w5))))))"

definition otsardb_recovery_materialize_delta ::
  "recovery_env \<Rightarrow> cipher option \<Rightarrow> 'w object_store \<Rightarrow> 'w \<Rightarrow> string \<Rightarrow> string \<Rightarrow> u64 \<Rightarrow> string \<Rightarrow> string \<Rightarrow>
   (string \<rightharpoonup> bytes) \<Rightarrow> head option \<times> (string \<rightharpoonup> bytes) \<times> 'w" where
  "otsardb_recovery_materialize_delta env thread_cipher store w root base_path base_generation base_sha db_path files =
     otsardb_recovery_materialize_delta_ex env store w root base_path base_generation base_sha db_path thread_cipher files"

section \<open>What the store holds\<close>

text \<open>A manifest object, and the chain of them, as functions of the contents of the store.\<close>

definition manifest_object ::
  "(bytes \<Rightarrow> bytes) \<Rightarrow> (string \<rightharpoonup> store_object) \<Rightarrow> string \<Rightarrow> string option \<Rightarrow> (commit_manifest \<times> segment_enc_set) option" where
  "manifest_object sha contents key expected =
     do { ob \<leftarrow> contents key;
          require (expected = None \<or> expected = Some [] \<or> Some (otsardb_sha256_hex_data sha (so_data ob)) = expected);
          m \<leftarrow> otsardb_commit_manifest_decode_json (so_data ob);
          enc \<leftarrow> otsardb_segment_enc_parse_json (so_data ob);
          Some (m, enc) }"

lemma manifest_object_any: "manifest_object sha contents key e = Some x \<Longrightarrow> manifest_object sha contents key None = Some x"
  by (auto simp: manifest_object_def require_def bind_eq_Some_conv)

inductive chain_list ::
  "(bytes \<Rightarrow> bytes) \<Rightarrow> (string \<rightharpoonup> store_object) \<Rightarrow> string \<Rightarrow> db_metadata \<Rightarrow> u64 \<Rightarrow> chain_pos \<Rightarrow>
   (string \<times> commit_manifest \<times> segment_enc_set) list \<Rightarrow> bool"
  for sha contents root meta stop where
  chain_last: "\<lbrakk>pos_generation p > 0; manifest_object sha contents (pos_key p) (Some (pos_sha256 p)) = Some (m, enc);
     chain_manifest_ok meta p m; chain_step root stop m = CHAIN_END\<rbrakk> \<Longrightarrow>
   chain_list sha contents root meta stop p [(pos_key p, m, enc)]"
| chain_more: "\<lbrakk>pos_generation p > 0; manifest_object sha contents (pos_key p) (Some (pos_sha256 p)) = Some (m, enc);
     chain_manifest_ok meta p m; chain_step root stop m = CHAIN_PARENT q;
     chain_list sha contents root meta stop q es\<rbrakk> \<Longrightarrow>
   chain_list sha contents root meta stop p ((pos_key p, m, enc) # es)"

inductive_cases chain_list_Nil: "chain_list sha contents root meta stop p []"
inductive_cases chain_list_Cons: "chain_list sha contents root meta stop p (e # es)"

text \<open>The image that the segments of a commit, and the commits of a chain, leave of an image.\<close>

primrec segments_image ::
  "recovery_env \<Rightarrow> (string \<rightharpoonup> store_object) \<Rightarrow> string \<Rightarrow> commit_manifest \<Rightarrow> segment_enc_set \<Rightarrow> cipher option \<Rightarrow>
   manifest_segment_ref list \<Rightarrow> nat \<Rightarrow> bytes option \<Rightarrow> bytes option option" where
  "segments_image env contents root m enc cipher [] i file = Some file"
| "segments_image env contents root m enc cipher (ref # refs) i file =
     do { object_key \<leftarrow> segment_object_key root m ref;
          ob \<leftarrow> contents object_key;
          batch \<leftarrow> segment_batch env cipher m (segment_encrypted enc i) object_key ref (so_data ob);
          require (fst (otsardb_recovery_apply_wal_batch_file batch file));
          segments_image env contents root m enc cipher refs (Suc i) (snd (otsardb_recovery_apply_wal_batch_file batch file)) }"

primrec chain_image ::
  "recovery_env \<Rightarrow> (string \<rightharpoonup> store_object) \<Rightarrow> string \<Rightarrow> cipher option \<Rightarrow>
   (string \<times> commit_manifest \<times> segment_enc_set) list \<Rightarrow> bytes option \<Rightarrow> bytes option option" where
  "chain_image env contents root cipher [] file = Some file"
| "chain_image env contents root cipher (e # es) file =
     do { f \<leftarrow> chain_image env contents root cipher es file;
          segments_image env contents root (fst (snd e)) (snd (snd e)) cipher (cm_segments (fst (snd e))) 0 f }"

section \<open>Reading calls\<close>

context object_store_laws
begin

lemma read_object_law:
  assumes "read_manifest_object sha store w key expected = (res, w')" "valid w"
  shows "valid w' \<and> objs w' = objs w \<and> (\<forall>x. res = Some x \<longrightarrow> manifest_object sha (objs w) key expected = Some x)"
proof -
  obtain rc ob w2 where get: "otsardb_store_get store w key = (rc, ob, w2)" by (cases "otsardb_store_get store w key")
  obtain d e where d: "otsardb_commit_manifest_decode_json (so_data ob) = d"
    and e: "otsardb_segment_enc_parse_json (so_data ob) = e" by blast
  from get_law [OF get assms(2)] assms(1) get show ?thesis
    by (cases d; cases e) (auto simp: read_manifest_object_def manifest_object_def require_def d e split: if_splits)
qed

lemma collect_loop_law:
  assumes "collect_chain_loop sha store root meta stop room w p = (res, w')" "valid w"
  shows "valid w' \<and> objs w' = objs w \<and>
    (\<forall>keys. res = Some keys \<longrightarrow> (if pos_generation p > 0
       then \<exists>es. chain_list sha (objs w) root meta stop p es \<and> keys = map fst es else keys = []))"
  using assms
proof (induction room arbitrary: w p res w')
  case (Suc room)
  show ?case
  proof (cases "pos_generation p > 0")
    case True
    obtain r w1 where rd: "read_manifest_object sha store w (pos_key p) (Some (pos_sha256 p)) = (r, w1)"
      by (cases "read_manifest_object sha store w (pos_key p) (Some (pos_sha256 p))")
    note law = read_object_law [OF rd Suc.prems(2)]
    show ?thesis
    proof (cases r)
      case None
      then show ?thesis using Suc.prems(1) True rd law by auto
    next
      case (Some x)
      obtain m enc where x: "x = (m, enc)" by (cases x)
      have at: "manifest_object sha (objs w) (pos_key p) (Some (pos_sha256 p)) = Some (m, enc)" using law Some x by simp
      show ?thesis
      proof (cases "chain_manifest_ok meta p m")
        case False
        then show ?thesis using Suc.prems(1) True rd law Some x by auto
      next
        case ok: True
        show ?thesis
        proof (cases "chain_step root stop m")
          case CHAIN_END
          then show ?thesis using Suc.prems(1) True rd law Some x ok chain_last [OF True at ok CHAIN_END] by force
        next
          case CHAIN_FAIL
          then show ?thesis using Suc.prems(1) True rd law Some x ok by auto
        next
          case (CHAIN_PARENT q)
          obtain r2 w2 where more: "collect_chain_loop sha store root meta stop room w1 q = (r2, w2)"
            by (cases "collect_chain_loop sha store root meta stop room w1 q")
          note IH = Suc.IH [OF more conjunct1 [OF law]]
          have q: "pos_generation q > 0"
            using CHAIN_PARENT parent_pos_generation [of root m]
            by (auto simp: chain_step_def word_neq_0_conv split: if_splits option.splits)
          show ?thesis
          proof (cases r2)
            case None
            then show ?thesis using Suc.prems(1) True rd law Some x ok CHAIN_PARENT more IH by auto
          next
            case (Some ks)
            then obtain es where "chain_list sha (objs w) root meta stop q es" "ks = map fst es"
              using IH q law by auto
            with chain_more [OF True at ok CHAIN_PARENT] have "\<exists>es. chain_list sha (objs w) root meta stop p es \<and> pos_key p # ks = map fst es"
              by force
            then show ?thesis
              using Suc.prems(1) True rd law \<open>r = Some x\<close> x ok CHAIN_PARENT more IH Some by auto
          qed
        qed
      qed
    qed
  qed (use Suc.prems in auto)
qed (auto split: if_splits)

end

text \<open>Whatever is only read: the contents of the store stay as they are.\<close>

context object_store_laws
begin

lemma apply_segment_law:
  assumes "apply_segment env store w root m enc cipher i ref f = (ok, f', w')" "valid w"
  shows "valid w' \<and> objs w' = objs w \<and>
    (ok \<longrightarrow> segments_image env (objs w) root m enc cipher [ref] i f = Some f')"
proof (cases "segment_object_key root m ref")
  case None
  then show ?thesis using assms by (auto simp: apply_segment_def)
next
  case (Some key)
  obtain rc ob w2 where get: "otsardb_store_get store w key = (rc, ob, w2)" by (cases "otsardb_store_get store w key")
  obtain b where b: "segment_batch env cipher m (segment_encrypted enc i) key ref (so_data ob) = b" by blast
  show ?thesis
    using get_law [OF get assms(2)] assms(1) Some get b
    by (cases b) (auto simp: apply_segment_def require_def split: if_splits prod.splits)
qed

lemma segments_image_Cons:
  "segments_image env contents root m enc cipher (ref # refs) i f =
     Option.bind (segments_image env contents root m enc cipher [ref] i f)
       (segments_image env contents root m enc cipher refs (Suc i))"
  by (simp split: Option.bind_split)

lemma apply_segments_law:
  assumes "apply_segments_from env store root m enc cipher refs i w f = (ok, f', w')" "valid w"
  shows "valid w' \<and> objs w' = objs w \<and>
    (ok \<longrightarrow> segments_image env (objs w) root m enc cipher refs i f = Some f')"
  using assms
proof (induction refs arbitrary: i w f)
  case (Cons ref refs)
  obtain ok1 f1 w1 where one: "apply_segment env store w root m enc cipher i ref f = (ok1, f1, w1)"
    by (cases "apply_segment env store w root m enc cipher i ref f")
  note law = apply_segment_law [OF one Cons.prems(2)]
  show ?case
  proof (cases ok1)
    case False
    then show ?thesis using Cons.prems(1) one law by auto
  next
    case True
    then have "apply_segments_from env store root m enc cipher refs (Suc i) w1 f1 = (ok, f', w')"
      using Cons.prems(1) one by simp
    from Cons.IH [OF this] law True show ?thesis
      by (auto simp del: segments_image.simps(2) simp add: segments_image_Cons [of _ _ _ _ _ _ ref refs])
  qed
qed simp

lemma apply_keys_append:
  "apply_keys_loop env store root cipher (ks @ ls) w f =
     (case apply_keys_loop env store root cipher ks w f of (ok, f', w') \<Rightarrow>
        if ok then apply_keys_loop env store root cipher ls w' f' else (False, f', w'))"
  by (induction ks arbitrary: w f) (auto split: prod.splits option.splits if_splits)

lemma apply_keys_law:
  assumes "apply_keys_loop env store root cipher keys w f = (ok, f', w')" "valid w"
  shows "valid w' \<and> objs w' = objs w"
  using assms
proof (induction keys arbitrary: w f)
  case (Cons key keys)
  obtain r w1 where rd: "read_manifest_object (re_sha env) store w key None = (r, w1)"
    by (cases "read_manifest_object (re_sha env) store w key None")
  note law = read_object_law [OF rd Cons.prems(2)]
  show ?case
  proof (cases r)
    case None
    then show ?thesis using Cons.prems(1) rd law by auto
  next
    case (Some x)
    obtain m enc where x: "x = (m, enc)" by (cases x)
    obtain ok1 f1 w2 where seg: "apply_manifest_segments env store w1 root m enc cipher f = (ok1, f1, w2)"
      by (cases "apply_manifest_segments env store w1 root m enc cipher f")
    note law2 = apply_segments_law [OF seg [unfolded apply_manifest_segments_def] conjunct1 [OF law]]
    show ?thesis
      using Cons.prems(1) Cons.IH [of w2 f1] rd Some x seg law law2 by (auto split: if_splits)
  qed
qed simp

lemma apply_keys_chain:
  assumes "apply_keys_loop env store root cipher (rev (map fst es)) w f = (True, f', w')" "valid w"
    "\<forall>(k, m, enc)\<in>set es. manifest_object (re_sha env) (objs w) k None = Some (m, enc)"
  shows "chain_image env (objs w) root cipher es f = Some f'"
  using assms
proof (induction es arbitrary: f' w')
  case (Cons e es)
  obtain k m enc where e: "e = (k, m, enc)" by (cases e)
  obtain ok1 f1 w1 where older: "apply_keys_loop env store root cipher (rev (map fst es)) w f = (ok1, f1, w1)"
    by (cases "apply_keys_loop env store root cipher (rev (map fst es)) w f")
  note same = apply_keys_law [OF older Cons.prems(2)]
  have ok1: "ok1" and one: "apply_keys_loop env store root cipher [k] w1 f1 = (True, f', w')"
    using Cons.prems(1) older e by (auto simp: apply_keys_append simp del: apply_keys_loop.simps(2) split: if_splits)
  obtain r w2 where rd: "read_manifest_object (re_sha env) store w1 k None = (r, w2)"
    by (cases "read_manifest_object (re_sha env) store w1 k None")
  note law = read_object_law [OF rd conjunct1 [OF same]]
  have at: "manifest_object (re_sha env) (objs w) k None = Some (m, enc)" using Cons.prems(3) e by auto
  have r: "r = Some (m, enc)" using one rd law at same by (cases r) auto
  obtain ok2 f2 w3 where seg: "apply_manifest_segments env store w2 root m enc cipher f1 = (ok2, f2, w3)"
    by (cases "apply_manifest_segments env store w2 root m enc cipher f1")
  have "ok2" "f2 = f'" using one rd r seg by (auto split: if_splits)
  with apply_segments_law [OF seg [unfolded apply_manifest_segments_def] conjunct1 [OF law]] law same
  have "segments_image env (objs w) root m enc cipher (cm_segments m) 0 f1 = Some f'" by simp
  moreover have "chain_image env (objs w) root cipher es f = Some f1"
    using Cons.IH [of f1 w1] older ok1 Cons.prems(2,3) by auto
  ultimately show ?case by (simp add: e)
qed simp

lemma genesis_check_law:
  assumes "genesis_check sha store w keys = (ok, w')" "valid w"
  shows "valid w' \<and> objs w' = objs w"
proof -
  obtain r w1 where rd: "read_manifest_object sha store w (last keys) None = (r, w1)"
    by (cases "read_manifest_object sha store w (last keys) None")
  from read_object_law [OF rd assms(2)] assms rd show ?thesis
    by (cases r) (auto simp: genesis_check_def split: if_splits)
qed

lemma head_checksum_law:
  assumes "validate_head_checksum sha store w h f = (ok, w')" "valid w"
  shows "valid w' \<and> objs w' = objs w \<and>
    (ok \<longrightarrow> (\<exists>ob m. objs w (hd_commit_key h) = Some ob \<and>
       otsardb_sha256_hex_data sha (so_data ob) = hd_commit_sha256 h \<and>
       otsardb_commit_manifest_decode_json (so_data ob) = Some m \<and>
       validate_file_against_manifest_checksum f (cm_page_size m) (cm_database_size_pages m)
         (cm_post_apply_checksum m)))"
proof -
  obtain rc ob w2 where get: "otsardb_store_get store w (hd_commit_key h) = (rc, ob, w2)"
    by (cases "otsardb_store_get store w (hd_commit_key h)")
  obtain d where d: "otsardb_commit_manifest_decode_json (so_data ob) = d" by blast
  from get_law [OF get assms(2)] assms(1) get d show ?thesis
    by (cases d) (auto simp: validate_head_checksum_def split: if_splits)
qed

end

section \<open>What a restore returns\<close>

text \<open>
  The image is the replay of the whole chain, or the replay of its newer part on a base image that agrees
  with the manifest of the generation it covers; a base without a checksum gets that commit once more.
\<close>

definition restored ::
  "recovery_env \<Rightarrow> (string \<rightharpoonup> store_object) \<Rightarrow> string \<Rightarrow> db_metadata \<Rightarrow> head \<Rightarrow> cipher option \<Rightarrow> bytes option \<Rightarrow> bool" where
  "restored env contents root meta h cipher img \<longleftrightarrow>
     (\<exists>es. chain_list (re_sha env) contents root meta 0 (head_pos h) es \<and>
        chain_image env contents root cipher es None = Some img) \<or>
     (\<exists>covered_generation es k covered enc base.
        0 < covered_generation \<and> covered_generation \<le> hd_generation h \<and>
        chain_list (re_sha env) contents root meta covered_generation (head_pos h) es \<and>
        last es = (k, covered, enc) \<and> base_image_ok base covered \<and>
        chain_image env contents root cipher (if cm_post_apply_checksum covered \<noteq> [] then butlast es else es) base = Some img)"

text \<open>The manifest that HEAD names is authentic, and its checksum, where it has one, is that of the image.\<close>

definition head_checksum_ok :: "(bytes \<Rightarrow> bytes) \<Rightarrow> (string \<rightharpoonup> store_object) \<Rightarrow> head \<Rightarrow> bytes option \<Rightarrow> bool" where
  "head_checksum_ok sha contents h img \<longleftrightarrow>
     (\<exists>ob m. contents (hd_commit_key h) = Some ob \<and> otsardb_sha256_hex_data sha (so_data ob) = hd_commit_sha256 h \<and>
       otsardb_commit_manifest_decode_json (so_data ob) = Some m \<and>
       validate_file_against_manifest_checksum img (cm_page_size m) (cm_database_size_pages m) (cm_post_apply_checksum m))"

lemma chain_list_not_Nil: "chain_list sha contents root meta stop p es \<Longrightarrow> es \<noteq> []"
  by (auto elim: chain_list.cases)

lemma chain_list_objects:
  assumes "chain_list sha contents root meta stop p es" "(k, m, enc) \<in> set es"
  shows "manifest_object sha contents k None = Some (m, enc)"
  using assms by induction (auto dest: manifest_object_any)

lemma rev_take_map: "rev (take n (map f es)) = rev (map f (take n es))"
  by (simp add: take_map)

context object_store_laws
begin

lemma collect_law:
  assumes "collect_chain_keys sha store w root meta h stop = (res, w')" "valid w" "hd_generation h > 0"
  shows "valid w' \<and> objs w' = objs w \<and>
    (\<forall>keys. res = Some keys \<longrightarrow> (\<exists>es. chain_list sha (objs w) root meta stop (head_pos h) es \<and> keys = map fst es))"
  using collect_loop_law [OF assms(1) [unfolded collect_chain_keys_def] assms(2)] assms(3) by (auto simp: head_pos_def)

lemma replay_above_law:
  assumes "replay_above env store w root h keys n cipher f = (ok, f', w')" "valid w"
  shows "valid w' \<and> objs w' = objs w \<and>
    (ok \<longrightarrow> head_checksum_ok (re_sha env) (objs w) h f' \<and>
      (\<forall>es stop p. chain_list (re_sha env) (objs w) root meta stop p es \<and> keys = map fst es \<longrightarrow>
         chain_image env (objs w) root cipher (take n es) f = Some f'))"
proof -
  obtain ok1 f1 w1 where ap: "apply_manifest_keys env store w root keys n cipher f = (ok1, f1, w1)"
    by (cases "apply_manifest_keys env store w root keys n cipher f")
  note same = apply_keys_law [OF ap [unfolded apply_manifest_keys_def] assms(2)]
  obtain ok2 w2 where hc: "validate_head_checksum (re_sha env) store w1 h f1 = (ok2, w2)"
    by (cases "validate_head_checksum (re_sha env) store w1 h f1")
  note law = head_checksum_law [OF hc conjunct1 [OF same]]
  have img: "chain_image env (objs w) root cipher (take n es) f = Some f1"
    if "ok1" "chain_list (re_sha env) (objs w) root meta stop p es" "keys = map fst es" for es stop p
    using ap that(1,3) chain_list_objects [OF that(2)] assms(2)
    by (intro apply_keys_chain [where w' = w1])
      (auto simp: apply_manifest_keys_def rev_take_map dest: in_set_takeD)
  show ?thesis
    using assms(1) ap hc same law img
    by (auto simp: replay_above_def head_checksum_ok_def split: if_splits)
qed

lemma checkpoint_groups_law:
  assumes "apply_checkpoint_groups sha store root refs w f = (ok, f', w')" "valid w"
  shows "valid w' \<and> objs w' = objs w"
  using assms
proof (induction refs arbitrary: w f)
  case (Cons ref refs)
  show ?case
  proof (cases "root_join root (gr_key ref) (KEY_MAX + 1)")
    case None
    then show ?thesis using Cons.prems by (simp del: root_join_Some)
  next
    case (Some key)
    obtain rc ob w2 where get: "otsardb_store_get store w key = (rc, ob, w2)" by (cases "otsardb_store_get store w key")
    note same = get_same [OF get Cons.prems(2)]
    obtain v where v: "otsardb_checkpoint_page_decode (so_data ob) = v" by blast
    show ?thesis
      using Cons.prems Cons.IH [of w2] Some get v same
      by (cases v) (auto simp del: root_join_Some split: if_splits prod.splits)
  qed
qed simp

lemma restore_from_base_law:
  assumes "restore_from_base env store w root h cp keys covered cipher = (ok, f', w')" "valid w"
    and chain: "chain_list (re_sha env) (objs w) root meta g (head_pos h) es" "keys = map fst es" "last es = (k, covered, enc)"
    and g: "0 < g" "g \<le> hd_generation h"
  shows "valid w' \<and> objs w' = objs w \<and>
    (ok \<longrightarrow> restored env (objs w) root meta h cipher f' \<and> head_checksum_ok (re_sha env) (objs w) h f') \<and> (\<not> ok \<longrightarrow> f' = None)"
proof -
  obtain ok1 base w1 where ap: "otsardb_recovery_apply_checkpoint_pages (re_sha env) store w root cp None = (ok1, base, w1)"
    by (cases "otsardb_recovery_apply_checkpoint_pages (re_sha env) store w root cp None")
  note same = checkpoint_groups_law [OF ap [unfolded otsardb_recovery_apply_checkpoint_pages_def] assms(2)]
  show ?thesis
  proof (cases "ok1 \<and> base_image_ok base covered")
    case False
    then show ?thesis using assms(1) ap same by (auto simp: restore_from_base_def split: if_splits)
  next
    case True
    let ?n = "if cm_post_apply_checksum covered \<noteq> [] then length keys - 1 else length keys"
    obtain ok2 f2 w2 where rp: "replay_above env store w1 root h keys ?n cipher base = (ok2, f2, w2)"
      by (cases "replay_above env store w1 root h keys ?n cipher base")
    note law = replay_above_law [OF rp conjunct1 [OF same], of meta]
    have n: "take ?n es = (if cm_post_apply_checksum covered \<noteq> [] then butlast es else es)"
      using chain(2) by (simp add: butlast_conv_take)
    have out: "ok = ok2" "w' = w2" "f' = (if ok2 then f2 else None)"
      using assms(1) ap True rp by (auto simp: restore_from_base_def)
    have "restored env (objs w) root meta h cipher f2" if "ok2"
    proof -
      have "chain_image env (objs w) root cipher (if cm_post_apply_checksum covered \<noteq> [] then butlast es else es) base = Some f2"
        unfolding n [symmetric] using law that chain(1,2) unfolding conjunct2 [OF same] by blast
      then show ?thesis unfolding restored_def using chain g True by blast
    qed
    then show ?thesis using law same out by auto
  qed
qed

end

context object_store_laws
begin

lemma bind_checkpoint_law:
  assumes "bind_checkpoint sha store w root meta h cp = (res, w')" "valid w" "hd_generation h > 0"
  shows "valid w' \<and> objs w' = objs w \<and>
    (\<forall>keys covered. res = Some (keys, covered) \<longrightarrow>
      (\<exists>es k enc. chain_list sha (objs w) root meta (ck_covered_generation cp) (head_pos h) es \<and> keys = map fst es \<and>
         last es = (k, covered, enc)))"
proof -
  obtain r w1 where col: "collect_chain_keys sha store w root meta h (ck_covered_generation cp) = (r, w1)"
    by (cases "collect_chain_keys sha store w root meta h (ck_covered_generation cp)")
  note law = collect_law [OF col assms(2,3)]
  show ?thesis
  proof (cases r)
    case None
    then show ?thesis using assms(1) col law by (auto simp: bind_checkpoint_def)
  next
    case (Some keys)
    with law obtain es where es: "chain_list sha (objs w) root meta (ck_covered_generation cp) (head_pos h) es"
      "keys = map fst es" by blast
    have ne: "es \<noteq> []" by (rule chain_list_not_Nil [OF es(1)])
    obtain r2 w2 where rd: "read_manifest_object sha store w1 (last keys) None = (r2, w2)"
      by (cases "read_manifest_object sha store w1 (last keys) None")
    note law2 = read_object_law [OF rd conjunct1 [OF law]]
    obtain k m enc where l: "last es = (k, m, enc)" by (cases "last es")
    have k: "last keys = k" using es ne l by (simp add: last_map)
    have at: "manifest_object sha (objs w) k None = Some (m, enc)"
      using chain_list_objects [OF es(1)] last_in_set [OF ne] l by simp
    show ?thesis
    proof (cases r2)
      case None
      then show ?thesis using assms(1) col Some es ne rd law law2 by (auto simp: bind_checkpoint_def)
    next
      case r2: (Some x)
      then have x: "x = (m, enc)" using law2 at k law by auto
      obtain rc ob w3 where get: "otsardb_store_get store w2 (last keys) = (rc, ob, w3)"
        by (cases "otsardb_store_get store w2 (last keys)")
      from get_same [OF get conjunct1 [OF law2]] law law2
      have same: "valid w3 \<and> objs w3 = objs w" by simp
      have "w' = w2 \<or> w' = w3" and "\<forall>keys' covered. res = Some (keys', covered) \<longrightarrow> keys' = keys \<and> covered = m"
        using assms(1) col Some es ne rd r2 x get by (auto simp: bind_checkpoint_def split: if_splits)
      then show ?thesis using es l same law law2 by auto
    qed
  qed
qed

lemma restore_from_pointer_law:
  assumes "restore_from_pointer env store w root meta h cipher f = (ok, f', w')" "valid w" "hd_generation h > 0"
  shows "valid w' \<and> objs w' = objs w \<and>
    (ok \<longrightarrow> restored env (objs w) root meta h cipher f' \<and> head_checksum_ok (re_sha env) (objs w) h f')"
proof -
  obtain r p w1 where rd: "otsardb_checkpoint_ptr_read store w root = (r, p, w1)"
    by (cases "otsardb_checkpoint_ptr_read store w root")
  note law = ptr_read_law [OF rd assms(2)]
  show ?thesis
  proof (cases p)
    case None
    then show ?thesis using assms(1) rd law by (auto simp: restore_from_pointer_def)
  next
    case (Some pe)
    obtain ptr e where p: "p = Some (ptr, e)" using Some by (cases pe) auto
    obtain rc ob w2 where get: "otsardb_store_get store w1 (cp_checkpoint_key ptr) = (rc, ob, w2)"
      by (cases "otsardb_store_get store w1 (cp_checkpoint_key ptr)")
    note same = get_same [OF get conjunct1 [OF law]]
    obtain d where d: "otsardb_checkpoint_manifest_decode (so_data ob) = d" by blast
    show ?thesis
    proof (cases "\<exists>cp. d = Some cp \<and> rc = STORE_OK \<and> cp_covered_generation ptr > 0 \<and> cp_covered_generation ptr \<le> hd_generation h \<and>
        cp_checkpoint_key ptr \<noteq> [] \<and> cp_database_id ptr = dm_database_id meta \<and>
        otsardb_sha256_hex_data (re_sha env) (so_data ob) = cp_checkpoint_sha256 ptr \<and>
        ck_covered_generation cp = cp_covered_generation ptr \<and> checkpoint_identity meta h cp")
      case False
      then have "\<not> ok \<and> (w' = w1 \<or> w' = w2)"
        using assms(1) rd p get d by (cases d) (auto simp: restore_from_pointer_def split: if_splits)
      then show ?thesis using law same by auto
    next
      case True
      then obtain cp where cp: "d = Some cp" and id: "checkpoint_identity meta h cp"
        and go: "restore_from_pointer env store w root meta h cipher f =
          (case bind_checkpoint (re_sha env) store w2 root meta h cp of
             (None, w3) \<Rightarrow> (False, f, w3)
           | (Some (keys, covered), w3) \<Rightarrow> restore_from_base env store w3 root h cp keys covered cipher)"
        using rd p get d by (auto simp: restore_from_pointer_def)
      have g: "0 < ck_covered_generation cp" "ck_covered_generation cp \<le> hd_generation h"
        using id by (auto simp: checkpoint_identity_def)
      obtain b w3 where bind: "bind_checkpoint (re_sha env) store w2 root meta h cp = (b, w3)"
        by (cases "bind_checkpoint (re_sha env) store w2 root meta h cp")
      note law3 = bind_checkpoint_law [OF bind conjunct1 [OF same] assms(3)]
      show ?thesis
      proof (cases b)
        case None
        then show ?thesis using assms(1) go bind law same law3 by auto
      next
        case (Some kc)
        obtain keys covered where kc: "b = Some (keys, covered)" using Some by (cases kc) auto
        with law3 obtain es k enc where es: "chain_list (re_sha env) (objs w2) root meta (ck_covered_generation cp) (head_pos h) es"
          "keys = map fst es" "last es = (k, covered, enc)" by blast
        have "restore_from_base env store w3 root h cp keys covered cipher = (ok, f', w')" using assms(1) go bind kc by simp
        from restore_from_base_law [OF this conjunct1 [OF law3] _ es(2,3) g] es(1) law3 law same show ?thesis by auto
      qed
    qed
  qed
qed

end

context object_store_laws
begin

lemma evaluate_one_law:
  assumes "cp_discovery_evaluate_one sha store root meta h key best w = (best', w')" "valid w" "hd_generation h > 0"
    "\<forall>cp. best = Some cp \<longrightarrow> checkpoint_identity meta h cp"
  shows "valid w' \<and> objs w' = objs w \<and> (\<forall>cp. best' = Some cp \<longrightarrow> checkpoint_identity meta h cp)"
proof (cases "length (''checkpoints/'' @ key) \<ge> 256 \<or> root_join root (''checkpoints/'' @ key) (KEY_MAX + 1) = None")
  case True
  then have "best' = best \<and> w' = w"
    using assms(1) by (auto simp: cp_discovery_evaluate_one_def Let_def simp del: root_join_Some split: if_splits)
  then show ?thesis using assms by simp
next
  case False
  then obtain k where k: "root_join root (''checkpoints/'' @ key) (KEY_MAX + 1) = Some k" by (auto simp del: root_join_Some)
  obtain rc ob w1 where get: "otsardb_store_get store w k = (rc, ob, w1)" by (cases "otsardb_store_get store w k")
  note same = get_same [OF get assms(2)]
  obtain d where d: "otsardb_checkpoint_manifest_decode (so_data ob) = d" by blast
  show ?thesis
  proof (cases "\<exists>cp. d = Some cp \<and> rc = STORE_OK \<and> take 64 (otsardb_sha256_hex_data sha (so_data ob)) = take 64 key \<and>
      checkpoint_identity meta h cp")
    case no: False
    then have "best' = best \<and> w' = w1"
      using assms(1) False k get d
      by (cases d) (auto simp: cp_discovery_evaluate_one_def Let_def simp del: root_join_Some split: if_splits)
    then show ?thesis using same assms(4) by auto
  next
    case True
    then obtain cp where cp: "d = Some cp" "checkpoint_identity meta h cp" by blast
    obtain b w2 where bind: "bind_checkpoint sha store w1 root meta h cp = (b, w2)"
      by (cases "bind_checkpoint sha store w1 root meta h cp")
    note law = bind_checkpoint_law [OF bind conjunct1 [OF same] assms(3)]
    have "w' = w2 \<and> (best' = best \<or> best' = Some cp)"
      using assms(1) True False k get d cp bind
      by (cases b) (auto simp: cp_discovery_evaluate_one_def Let_def simp del: root_join_Some split: option.splits if_splits)
    then show ?thesis using law same assms(4) cp by auto
  qed
qed

lemma evaluate_law:
  assumes "cp_discovery_evaluate sha store root meta h keys best w = (best', w')" "valid w" "hd_generation h > 0"
    "\<forall>cp. best = Some cp \<longrightarrow> checkpoint_identity meta h cp"
  shows "valid w' \<and> objs w' = objs w \<and> (\<forall>cp. best' = Some cp \<longrightarrow> checkpoint_identity meta h cp)"
  using assms
proof (induction keys arbitrary: best w)
  case (Cons key keys)
  obtain b1 w1 where one: "cp_discovery_evaluate_one sha store root meta h key best w = (b1, w1)"
    by (cases "cp_discovery_evaluate_one sha store root meta h key best w")
  note law = evaluate_one_law [OF one Cons.prems(2-4)]
  have "cp_discovery_evaluate sha store root meta h keys b1 w1 = (best', w')" using Cons.prems(1) one by simp
  from Cons.IH [OF this] law Cons.prems(3) show ?case by simp
qed simp

lemma discovered_apply_law:
  assumes "recovery_apply_discovered_checkpoint env store w root meta h cp cipher f = (ok, f', w')" "valid w"
    and id: "checkpoint_identity meta h cp" and h: "hd_generation h > 0"
  shows "valid w' \<and> objs w' = objs w \<and>
    (ok \<longrightarrow> restored env (objs w) root meta h cipher f' \<and> head_checksum_ok (re_sha env) (objs w) h f')"
proof -
  have g: "0 < ck_covered_generation cp" "ck_covered_generation cp \<le> hd_generation h"
    using id by (auto simp: checkpoint_identity_def)
  obtain r w1 where col: "collect_chain_keys (re_sha env) store w root meta h (ck_covered_generation cp) = (r, w1)"
    by (cases "collect_chain_keys (re_sha env) store w root meta h (ck_covered_generation cp)")
  note law = collect_law [OF col assms(2) h]
  show ?thesis
  proof (cases r)
    case None
    then show ?thesis using assms(1) col law by (auto simp: recovery_apply_discovered_checkpoint_def)
  next
    case (Some keys)
    with law obtain es where es: "chain_list (re_sha env) (objs w) root meta (ck_covered_generation cp) (head_pos h) es"
      "keys = map fst es" by blast
    have ne: "es \<noteq> []" by (rule chain_list_not_Nil [OF es(1)])
    obtain k m enc where l: "last es = (k, m, enc)" by (cases "last es")
    obtain r2 w2 where rd: "read_manifest_object (re_sha env) store w1 (last keys) None = (r2, w2)"
      by (cases "read_manifest_object (re_sha env) store w1 (last keys) None")
    note law2 = read_object_law [OF rd conjunct1 [OF law]]
    have at: "manifest_object (re_sha env) (objs w) (last keys) None = Some (m, enc)"
      using chain_list_objects [OF es(1)] last_in_set [OF ne] l es ne by (simp add: last_map)
    show ?thesis
    proof (cases r2)
      case None
      then show ?thesis
        using assms(1) col Some es ne rd law law2 by (auto simp: recovery_apply_discovered_checkpoint_def)
    next
      case r2: (Some x)
      then have "x = (m, enc)" using law2 at law by auto
      then have "restore_from_base env store w2 root h cp keys m cipher = (ok, f', w')"
        using assms(1) col Some es ne rd r2 by (simp add: recovery_apply_discovered_checkpoint_def)
      from restore_from_base_law [OF this conjunct1 [OF law2] _ es(2) l g] es(1) law law2 show ?thesis by auto
    qed
  qed
qed

lemma restore_discovered_law:
  assumes "restore_from_discovered_checkpoint env store w root meta h cipher f = (ok, f', w')" "valid w" "hd_generation h > 0"
  shows "valid w' \<and> objs w' = objs w \<and>
    (ok \<longrightarrow> restored env (objs w) root meta h cipher f' \<and> head_checksum_ok (re_sha env) (objs w) h f')"
proof (cases "root_join root ''checkpoints/'' (KEY_MAX + 1)")
  case None
  then show ?thesis using assms by (auto simp: restore_from_discovered_checkpoint_def simp del: root_join_Some)
next
  case (Some pre)
  obtain rc keys w1 where ls: "otsardb_store_list store w pre = (rc, keys, w1)" by (cases "otsardb_store_list store w pre")
  note same = list_law [OF ls assms(2)]
  obtain best w2 where ev: "cp_discovery_evaluate (re_sha env) store root meta h (filter cp_manifest_list_key_valid keys) None w1 = (best, w2)"
    by (cases "cp_discovery_evaluate (re_sha env) store root meta h (filter cp_manifest_list_key_valid keys) None w1")
  note law = evaluate_law [OF ev conjunct1 [OF same] assms(3)]
  show ?thesis
  proof (cases "rc = STORE_OK \<and> best \<noteq> None")
    case False
    then have "\<not> ok \<and> (w' = w1 \<or> w' = w2)"
      using assms(1) Some ls ev by (auto simp: restore_from_discovered_checkpoint_def simp del: root_join_Some split: if_splits)
    then show ?thesis using law same by auto
  next
    case True
    then obtain cp where cp: "best = Some cp" by auto
    then have "recovery_apply_discovered_checkpoint env store w2 root meta h cp cipher f = (ok, f', w')"
      using assms(1) Some ls ev True by (simp add: restore_from_discovered_checkpoint_def del: root_join_Some)
    from discovered_apply_law [OF this _ _ assms(3)] law same cp show ?thesis by auto
  qed
qed

lemma walk_law:
  assumes "walk_manifest_chain env store w root meta h aps 0 cipher f = (ok, f', w')" "valid w" "hd_generation h > 0"
  shows "valid w' \<and> objs w' = objs w \<and> (\<not> aps \<longrightarrow> f' = f) \<and>
    (ok \<and> aps \<longrightarrow> (\<exists>es. chain_list (re_sha env) (objs w) root meta 0 (head_pos h) es \<and>
       chain_image env (objs w) root cipher es f = Some f'))"
proof -
  obtain r w1 where col: "collect_chain_keys (re_sha env) store w root meta h 0 = (r, w1)"
    by (cases "collect_chain_keys (re_sha env) store w root meta h 0")
  note law = collect_law [OF col assms(2,3)]
  show ?thesis
  proof (cases r)
    case None
    then show ?thesis using assms(1) col law by (auto simp: walk_manifest_chain_def)
  next
    case (Some keys)
    with law obtain es where es: "chain_list (re_sha env) (objs w) root meta 0 (head_pos h) es" "keys = map fst es" by blast
    obtain gok w2 where gen: "(if (0 :: u64) = 0 \<and> (keys = [] \<or> aps) then genesis_check (re_sha env) store w1 keys else (True, w1)) = (gok, w2)"
      by (cases "if (0 :: u64) = 0 \<and> (keys = [] \<or> aps) then genesis_check (re_sha env) store w1 keys else (True, w1)")
    have same: "valid w2 \<and> objs w2 = objs w"
      using gen law genesis_check_law [of "re_sha env" w1 keys gok w2] by (auto split: if_splits)
    have step: "walk_manifest_chain env store w root meta h aps 0 cipher f =
        (if gok \<and> aps then apply_manifest_keys env store w2 root keys (length keys) cipher f else (gok, f, w2))"
      unfolding walk_manifest_chain_def col Some prod.case option.case gen ..
    show ?thesis
    proof (cases "gok \<and> aps")
      case False
      then show ?thesis using assms(1) step same by auto
    next
      case True
      then have ap: "apply_keys_loop env store root cipher (rev (map fst es)) w2 f = (ok, f', w')"
        using assms(1) step es(2) by (simp add: apply_manifest_keys_def)
      note law2 = apply_keys_law [OF ap conjunct1 [OF same]]
      have "ok \<Longrightarrow> chain_image env (objs w2) root cipher es f = Some f'"
        using ap chain_list_objects [OF es(1)] same by (intro apply_keys_chain [where w' = w']) auto
      then show ?thesis using True es law2 same by auto
    qed
  qed
qed

lemma restore_full_chain_law:
  assumes "restore_full_chain env store w root meta h cipher f = (ok, f', w')" "valid w" "hd_generation h > 0"
  shows "valid w' \<and> objs w' = objs w \<and>
    (ok \<longrightarrow> head_checksum_ok (re_sha env) (objs w) h f' \<and>
       (\<exists>es. chain_list (re_sha env) (objs w) root meta 0 (head_pos h) es \<and>
          chain_image env (objs w) root cipher es None = Some f')) \<and> (\<not> ok \<longrightarrow> f' = f \<or> f' = None)"
proof -
  obtain ok1 f1 w1 where one: "walk_manifest_chain env store w root meta h False 0 cipher f = (ok1, f1, w1)"
    by (cases "walk_manifest_chain env store w root meta h False 0 cipher f")
  note law1 = walk_law [OF one assms(2,3)]
  obtain ok2 f2 w2 where two: "walk_manifest_chain env store w1 root meta h True 0 cipher None = (ok2, f2, w2)"
    by (cases "walk_manifest_chain env store w1 root meta h True 0 cipher None")
  note law2 = walk_law [OF two conjunct1 [OF law1] assms(3)]
  obtain ok3 w3 where three: "validate_head_checksum (re_sha env) store w2 h f2 = (ok3, w3)"
    by (cases "validate_head_checksum (re_sha env) store w2 h f2")
  note law3 = head_checksum_law [OF three conjunct1 [OF law2]]
  consider "\<not> ok1" "(ok, f', w') = (False, f1, w1)" | "ok1" "\<not> ok2" "(ok, f', w') = (False, None, w2)"
    | "ok1" "ok2" "(ok, f', w') = (ok3, if ok3 then f2 else None, w3)"
    using assms(1) one two three by (auto simp: restore_full_chain_def split: if_splits)
  then show ?thesis
    using law1 law2 law3 by cases (auto simp: head_checksum_ok_def)
qed

end

text \<open>The description of a database that the contents of a store hold.\<close>

definition stored_metadata :: "(string \<rightharpoonup> store_object) \<Rightarrow> string \<Rightarrow> db_metadata option" where
  "stored_metadata contents root =
     (case contents (metadata_key root) of None \<Rightarrow> None | Some ob \<Rightarrow> otsardb_db_metadata_decode_json (so_data ob))"

lemma metadata_read_ok:
  assumes "otsardb_db_metadata_read store w root = (rc, res, w')"
  shows "res \<noteq> None \<longleftrightarrow> rc = METADATA_OK"
proof (cases "metadata_build_key root (METADATA_KEY_MAX + 1)")
  case (Some key)
  obtain src ob w2 where get: "otsardb_store_get store w key = (src, ob, w2)" by (cases "otsardb_store_get store w key")
  obtain d where d: "otsardb_db_metadata_decode_json (so_data ob) = d" by blast
  show ?thesis
    using assms Some get by (cases d) (auto simp: otsardb_db_metadata_read_def d split: if_splits)
qed (use assms in \<open>auto simp: otsardb_db_metadata_read_def\<close>)

context object_store_laws
begin

lemma restore_store_law:
  assumes "otsardb_recovery_restore_store_ex env store w root cipher f = (ok, f', w')" "valid w"
  shows "valid w' \<and> objs w' = objs w \<and>
    (ok \<longrightarrow> (\<exists>meta h. stored_metadata (objs w) root = Some meta \<and> stored_head (objs w) root = Some h \<and>
       recovery_head_ok meta h \<and> restored env (objs w) root meta h cipher f' \<and>
       head_checksum_ok (re_sha env) (objs w) h f'))"
proof (cases "root = []")
  case True
  then show ?thesis using assms by (simp add: otsardb_recovery_restore_store_ex_def)
next
  case False
  obtain rm m w1 where md: "otsardb_db_metadata_read store w root = (rm, m, w1)" by (cases "otsardb_db_metadata_read store w root")
  note law1 = metadata_read_law [OF md assms(2)]
  obtain rh he w2 where hd: "otsardb_journal_read_head store w1 root = (rh, he, w2)" by (cases "otsardb_journal_read_head store w1 root")
  note law2 = read_head_law [OF hd conjunct1 [OF law1]]
  show ?thesis
  proof (cases "\<exists>meta h e. m = Some meta \<and> he = Some (h, e) \<and> recovery_head_ok meta h")
    case no: False
    then have "\<not> ok \<and> (w' = w1 \<or> w' = w2)"
      using assms(1) False md hd
      by (cases m; cases he) (auto simp: otsardb_recovery_restore_store_ex_def split: if_splits)
    then show ?thesis using law1 law2 by auto
  next
    case True
    then obtain meta h e where m: "m = Some meta" and he: "he = Some (h, e)" and hok: "recovery_head_ok meta h" by blast
    have g: "hd_generation h > 0" using hok by (simp add: recovery_head_ok_def word_neq_0_conv)
    have "rm = METADATA_OK" using metadata_read_ok [OF md] m by simp
    then have base: "stored_metadata (objs w) root = Some meta" "stored_head (objs w) root = Some h" "objs w2 = objs w" "valid w2"
      using law1 law2 m he by (auto simp: stored_metadata_def)
    obtain ok3 f3 w3 where ptr: "restore_from_pointer env store w2 root meta h cipher f = (ok3, f3, w3)"
      by (cases "restore_from_pointer env store w2 root meta h cipher f")
    note law3 = restore_from_pointer_law [OF ptr base(4) g]
    obtain ok4 f4 w4 where dis: "restore_from_discovered_checkpoint env store w3 root meta h cipher f3 = (ok4, f4, w4)"
      by (cases "restore_from_discovered_checkpoint env store w3 root meta h cipher f3")
    note law4 = restore_discovered_law [OF dis conjunct1 [OF law3] g]
    obtain ok5 f5 w5 where full: "restore_full_chain env store w4 root meta h cipher f4 = (ok5, f5, w5)"
      by (cases "restore_full_chain env store w4 root meta h cipher f4")
    note law5 = restore_full_chain_law [OF full conjunct1 [OF law4] g]
    consider "ok3" "(ok, f', w') = (True, f3, w3)" | "\<not> ok3" "ok4" "(ok, f', w') = (True, f4, w4)"
      | "\<not> ok3" "\<not> ok4" "(ok, f', w') = (ok5, f5, w5)"
      using assms(1) False md hd m he hok ptr dis full
      by (auto simp: otsardb_recovery_restore_store_ex_def split: if_splits)
    then show ?thesis
    proof cases
      case 1
      then show ?thesis using law3 base hok by auto
    next
      case 2
      then show ?thesis using law3 law4 base hok by auto
    next
      case 3
      then have "ok \<Longrightarrow> restored env (objs w) root meta h cipher f'"
        using law3 law4 law5 base by (auto simp: restored_def)
      then show ?thesis using law3 law4 law5 base hok 3 by auto
    qed
  qed
qed

end

end
