(* ===== verification/Recovery_Image.thy ===== *)
theory Recovery_Image
  imports Recovery
begin

text \<open>
  What recovery leaves in a local image, page by page, and when it succeeds.  A batch replaces exactly the
  pages it carries, the last frame of a page winning, and sets the size of the database; a store that
  answers for every object it holds makes every replay of an intact chain succeed.
\<close>

section \<open>Pages of an image\<close>

definition byte_at :: "bytes \<Rightarrow> nat \<Rightarrow> byte" where
  "byte_at img i = (if i < length img then img ! i else 0)"

definition image_page :: "bytes \<Rightarrow> nat \<Rightarrow> nat \<Rightarrow> bytes" where
  "image_page img page_size n = read_page_padded img ((n - 1) * page_size) page_size"

lemma length_write_at [simp]: "length (write_at img off data) = max (length img) (off + length data)"
  by (simp add: write_at_def)

lemma byte_at_write:
  "byte_at (write_at img off data) i =
     (if off \<le> i \<and> i < off + length data then data ! (i - off) else byte_at img i)"
  by (auto simp: byte_at_def write_at_def nth_append min_def)

lemma length_ftruncate [simp]: "length (ftruncate img n) = n"
  by (simp add: ftruncate_def)

lemma byte_at_ftruncate: "i < n \<Longrightarrow> byte_at (ftruncate img n) i = byte_at img i"
  by (auto simp: byte_at_def ftruncate_def nth_append)

lemma read_page_bytes: "read_page_padded img off n = map (\<lambda>j. byte_at img (off + j)) [0..<n]"
  by (rule nth_equalityI) (auto simp: read_page_padded_def Let_def byte_at_def mem_slice_def nth_append)

lemma image_page_write:
  assumes "length data = page_size" "k \<ge> 1" "n \<ge> 1"
  shows "image_page (write_at img ((k - 1) * page_size) data) page_size n =
    (if n = k then data else image_page img page_size n)"
proof (cases "n = k")
  case True
  then show ?thesis using assms(1)
    by (auto simp: image_page_def read_page_bytes byte_at_write intro: nth_equalityI)
next
  case False
  have out: "\<not> ((k - 1) * page_size \<le> (n - 1) * page_size + j \<and> (n - 1) * page_size + j < (k - 1) * page_size + page_size)"
    if j: "j < page_size" for j
  proof (cases "n < k")
    case True
    then have "n * page_size \<le> (k - 1) * page_size" by (intro mult_le_mono1) simp
    moreover have "(n - 1) * page_size + page_size = n * page_size" using assms(3) by (cases n) auto
    ultimately show ?thesis using j by linarith
  next
    case False
    with \<open>n \<noteq> k\<close> have "k * page_size \<le> (n - 1) * page_size" by (intro mult_le_mono1) simp
    moreover have "(k - 1) * page_size + page_size = k * page_size" using assms(2) by (cases k) auto
    ultimately show ?thesis using j by linarith
  qed
  then show ?thesis
    using False assms(1) by (auto simp: image_page_def read_page_bytes byte_at_write)
qed

lemma image_page_ftruncate:
  assumes "n * page_size \<le> total_size" "n \<ge> 1"
  shows "image_page (ftruncate img total_size) page_size n = image_page img page_size n"
proof -
  have "(n - 1) * page_size + page_size = n * page_size" using assms(2) by (cases n) auto
  then show ?thesis using assms by (auto simp: image_page_def read_page_bytes byte_at_ftruncate)
qed

section \<open>One batch\<close>

definition batch_frames :: "wal_batch_view \<Rightarrow> (nat \<times> bytes) list" where
  "batch_frames batch = map (\<lambda>i. case otsardb_wal_batch_frame batch (of_nat i) of
     None \<Rightarrow> (0, []) | Some (page_no, page) \<Rightarrow> (unat page_no, page)) [0..<unat (wb_frame_count batch)]"

lemma frame_offset:
  assumes "valid_page_size p" "page_no \<noteq> 0"
  shows "unat ((ucast (page_no :: u32) - 1) * ucast p :: u64) = (unat page_no - 1) * unat p"
    "(unat page_no - 1) * unat p \<le> int64_max"
proof -
  have n: "unat (ucast page_no - 1 :: u64) = unat page_no - 1"
  proof -
    have "(1 :: u64) \<le> ucast page_no" using assms(2) by (simp add: word_le_nat_alt unat_gt_0 Suc_le_eq)
    then show ?thesis by (simp add: unat_sub)
  qed
  have "(unat page_no - 1) * unat p \<le> uint32_max * 65536"
    using unat_u32_le [of page_no] valid_page_size_bounds [OF assms(1)] by (intro mult_le_mono) auto
  then have b: "(unat page_no - 1) * unat p \<le> 281474976645120" by (simp add: uint32_max_def)
  then show "unat ((ucast page_no - 1) * ucast p :: u64) = (unat page_no - 1) * unat p"
    using n by (simp add: unat_word_ariths)
  from b show "(unat page_no - 1) * unat p \<le> int64_max" by (simp add: int64_max_def)
qed

definition write_frame :: "nat \<Rightarrow> nat \<times> bytes \<Rightarrow> bytes \<Rightarrow> bytes" where
  "write_frame page_size fr img = write_at img ((fst fr - 1) * page_size) (snd fr)"

lemma write_frame_pair: "write_frame page_size (n, d) img = write_at img ((n - 1) * page_size) d"
  by (simp add: write_frame_def)

lemma apply_batch_frames_fold:
  assumes "valid_page_size (wb_page_size batch)"
  shows "apply_batch_frames batch is img =
    (if \<forall>i\<in>set is. otsardb_wal_batch_frame batch (of_nat i) \<noteq> None
     then (True, fold (write_frame (unat (wb_page_size batch)))
       (map (\<lambda>i. case otsardb_wal_batch_frame batch (of_nat i) of
          None \<Rightarrow> (0, []) | Some (page_no, page) \<Rightarrow> (unat page_no, page)) is) img)
     else (False, snd (apply_batch_frames batch is img)))"
proof (induction "is" arbitrary: img)
  case (Cons i "is")
  show ?case
  proof (cases "otsardb_wal_batch_frame batch (of_nat i)")
    case (Some fr)
    obtain n d where fr: "fr = (n, d)" by (cases fr)
    have "n \<noteq> 0" using Some fr by (auto simp: otsardb_wal_batch_frame_def Let_def split: if_splits)
    note off = frame_offset [OF assms this]
    show ?thesis
      using Some fr off Cons.IH [of "write_at img ((unat n - 1) * unat (wb_page_size batch)) d"]
      by (simp add: write_frame_pair)
  qed simp
qed simp

lemma fold_frames_page:
  assumes "\<forall>(k, d)\<in>set fs. k \<ge> 1 \<and> length d = page_size" "n \<ge> 1"
  shows "image_page (fold (write_frame page_size) fs img) page_size n =
    (case map_of (rev fs) n of Some d \<Rightarrow> d | None \<Rightarrow> image_page img page_size n)"
  using assms(1)
proof (induction fs rule: rev_induct)
  case (snoc fr fs)
  obtain k d where fr: "fr = (k, d)" by (cases fr)
  have "k \<ge> 1" "length d = page_size" using snoc.prems fr by auto
  from image_page_write [OF this(2,1) assms(2)] snoc fr show ?case
    by (simp add: write_frame_def)
qed simp

lemma batch_frames_ok:
  assumes "otsardb_wal_batch_decode b = Some batch" "\<forall>i<unat (wb_frame_count batch). otsardb_wal_batch_frame batch (of_nat i) \<noteq> None"
  shows "\<forall>(k, d)\<in>set (batch_frames batch). k \<ge> 1 \<and> length d = unat (wb_page_size batch)"
proof -
  have "k \<ge> 1 \<and> length d = unat (wb_page_size batch)" if "(k, d) \<in> set (batch_frames batch)" for k d
  proof -
    from that obtain i where i: "i < unat (wb_frame_count batch)"
      and kd: "(k, d) = (case otsardb_wal_batch_frame batch (of_nat i) of
        None \<Rightarrow> (0, []) | Some (page_no, page) \<Rightarrow> (unat page_no, page))"
      by (auto simp: batch_frames_def)
    obtain n where n: "otsardb_wal_batch_frame batch (of_nat i) = Some (n, d)" "k = unat n"
      using kd assms(2) i by (cases "otsardb_wal_batch_frame batch (of_nat i)") auto
    have i': "(of_nat i :: u32) < wb_frame_count batch"
      using i unat_u32_le [of "wb_frame_count batch"]
      by (simp add: word_less_nat_alt unsigned_of_nat take_bit_nat_eq_self uint32_max_def)
    from n(1) have "n \<noteq> 0" by (auto simp: otsardb_wal_batch_frame_def Let_def split: if_splits)
    moreover have "length d = unat (wb_page_size batch)"
      using n(1) i' wal_batch_frame_offset [OF assms(1) i'] assms(1)
      by (auto simp: otsardb_wal_batch_frame_def Let_def wal_batch_decode_eq length_mem_slice split: if_splits)
    ultimately show ?thesis using n(2) by (simp add: unat_gt_0 Suc_le_eq)
  qed
  then show ?thesis by auto
qed

lemma apply_batch_cases:
  assumes "otsardb_wal_batch_decode b = Some batch"
  defines "n \<equiv> unat (wb_database_size_pages batch * ucast (wb_page_size batch))"
  shows "otsardb_recovery_apply_wal_batch_file b f = (True, f') \<longleftrightarrow>
    (\<forall>i<unat (wb_frame_count batch). otsardb_wal_batch_frame batch (of_nat i) \<noteq> None) \<and> n \<le> int64_max \<and>
    f' = Some (ftruncate (fold (write_frame (unat (wb_page_size batch))) (batch_frames batch) (file_bytes f)) n)"
proof -
  have v: "valid_page_size (wb_page_size batch)" using assms(1) by (auto simp: wal_batch_decode_eq)
  show ?thesis
    using apply_batch_frames_fold [OF v, of "[0..<unat (wb_frame_count batch)]" "file_bytes f"] assms(1)
    by (auto simp: otsardb_recovery_apply_wal_batch_file_def batch_frames_def n_def Let_def split: prod.splits if_splits)
qed

lemma apply_batch_pages_law:
  assumes dec: "otsardb_wal_batch_decode b = Some batch"
    and app: "otsardb_recovery_apply_wal_batch_file b f = (True, f')"
  shows "\<exists>img. f' = Some img \<and> length img = unat (wb_database_size_pages batch * ucast (wb_page_size batch)) \<and>
    (\<forall>n\<ge>1. n * unat (wb_page_size batch) \<le> length img \<longrightarrow>
       image_page img (unat (wb_page_size batch)) n =
         (case map_of (rev (batch_frames batch)) n of
            Some d \<Rightarrow> d | None \<Rightarrow> image_page (file_bytes f) (unat (wb_page_size batch)) n))"
proof -
  note c = iffD1 [OF apply_batch_cases [OF dec] app]
  show ?thesis
    using c fold_frames_page [OF batch_frames_ok [OF dec], of _ "file_bytes f"]
    by (auto simp: image_page_ftruncate)
qed

section \<open>Stores that answer\<close>

text \<open>A store that delivers every object it holds, and gives every object an etag.\<close>

locale answering_store = object_store_laws +
  assumes get_live: "valid w \<Longrightarrow> objs w key = Some ob \<Longrightarrow> \<exists>w'. otsardb_store_get store w key = (STORE_OK, ob, w')"
    and etag_live: "valid w \<Longrightarrow> objs w key = Some ob \<Longrightarrow> \<exists>e. so_etag ob = Some e \<and> e \<noteq> []"
begin

lemma read_object_live:
  assumes "manifest_object sha (objs w) key e = Some x" "valid w"
  shows "\<exists>w'. read_manifest_object sha store w key e = (Some x, w') \<and> valid w' \<and> objs w' = objs w"
proof -
  from assms(1) obtain ob where ob: "objs w key = Some ob" by (auto simp: manifest_object_def bind_eq_Some_conv)
  obtain w' where get: "otsardb_store_get store w key = (STORE_OK, ob, w')" using get_live [OF assms(2) ob] by blast
  then have "read_manifest_object sha store w key e = (Some x, w')"
    using assms(1) ob
    by (auto simp: read_manifest_object_def manifest_object_def require_def bind_eq_Some_conv split: if_splits)
  then show ?thesis using get_same [OF get assms(2)] by blast
qed

lemma collect_loop_live:
  assumes "chain_list sha (objs w) root meta stop p es" "length es \<le> room" "valid w"
  shows "\<exists>w'. collect_chain_loop sha store root meta stop room w p = (Some (map fst es), w') \<and> valid w' \<and> objs w' = objs w"
  using assms
proof (induction es arbitrary: p room w rule: list.induct)
  case Nil
  then show ?case using chain_list_not_Nil by blast
next
  case (Cons e es)
  then obtain room' where room: "room = Suc room'" by (cases room) auto
  from Cons.prems(1) obtain m enc where e: "e = (pos_key p, m, enc)" and g: "pos_generation p > 0"
    and at: "manifest_object sha (objs w) (pos_key p) (Some (pos_sha256 p)) = Some (m, enc)"
    and ok: "chain_manifest_ok meta p m"
    and step: "chain_step root stop m = CHAIN_END \<and> es = [] \<or>
      (\<exists>q. chain_step root stop m = CHAIN_PARENT q \<and> chain_list sha (objs w) root meta stop q es)"
    by (rule chain_list_Cons) auto
  obtain w1 where rd: "read_manifest_object sha store w (pos_key p) (Some (pos_sha256 p)) = (Some (m, enc), w1)"
    "valid w1" "objs w1 = objs w" using read_object_live [OF at Cons.prems(3)] by blast
  from step show ?case
  proof (elim disjE conjE exE)
    assume "chain_step root stop m = CHAIN_END" "es = []"
    then show ?thesis using g rd ok by (simp add: room e)
  next
    fix q assume q: "chain_step root stop m = CHAIN_PARENT q" "chain_list sha (objs w) root meta stop q es"
    then obtain w2 where "collect_chain_loop sha store root meta stop room' w1 q = (Some (map fst es), w2)"
      "valid w2" "objs w2 = objs w"
      using Cons.IH [of w1 q room'] Cons.prems(2) rd room by auto
    then show ?thesis using g rd ok q by (simp add: room e)
  qed
qed

lemma apply_segments_live:
  assumes "segments_image env (objs w) root m enc cipher refs i f = Some f'" "valid w"
  shows "\<exists>w'. apply_segments_from env store root m enc cipher refs i w f = (True, f', w') \<and> valid w' \<and> objs w' = objs w"
  using assms
proof (induction refs arbitrary: i w f)
  case (Cons ref refs)
  from Cons.prems(1) obtain key ob batch where k: "segment_object_key root m ref = Some key" "objs w key = Some ob"
    "segment_batch env cipher m (segment_encrypted enc i) key ref (so_data ob) = Some batch"
    "fst (otsardb_recovery_apply_wal_batch_file batch f)"
    "segments_image env (objs w) root m enc cipher refs (Suc i) (snd (otsardb_recovery_apply_wal_batch_file batch f)) = Some f'"
    by (auto simp: bind_eq_Some_conv require_Some)
  obtain w1 where get: "otsardb_store_get store w key = (STORE_OK, ob, w1)" using get_live [OF Cons.prems(2) k(2)] by blast
  note same = get_same [OF get Cons.prems(2)]
  obtain f1 where f1: "otsardb_recovery_apply_wal_batch_file batch f = (True, f1)"
    using k(4) by (cases "otsardb_recovery_apply_wal_batch_file batch f") auto
  have one: "apply_segment env store w root m enc cipher i ref f = (True, f1, w1)"
    using k(1-3) get f1 by (simp add: apply_segment_def)
  show ?case using Cons.IH [of w1 "Suc i" f1] k(5) f1 one same by auto
qed simp

lemma apply_keys_live:
  assumes "chain_image env (objs w) root cipher es f = Some f'" "valid w"
    "\<forall>(k, m, enc)\<in>set es. manifest_object (re_sha env) (objs w) k None = Some (m, enc)"
  shows "\<exists>w'. apply_keys_loop env store root cipher (rev (map fst es)) w f = (True, f', w') \<and> valid w' \<and> objs w' = objs w"
  using assms
proof (induction es arbitrary: f')
  case (Cons e es)
  obtain k m enc where e: "e = (k, m, enc)" by (cases e)
  from Cons.prems(1) e obtain f1 where f1: "chain_image env (objs w) root cipher es f = Some f1"
    "segments_image env (objs w) root m enc cipher (cm_segments m) 0 f1 = Some f'" by (auto simp: bind_eq_Some_conv)
  obtain w1 where older: "apply_keys_loop env store root cipher (rev (map fst es)) w f = (True, f1, w1)"
    "valid w1" "objs w1 = objs w" using Cons.IH [OF f1(1) Cons.prems(2)] Cons.prems(3) by auto
  have at: "manifest_object (re_sha env) (objs w1) k None = Some (m, enc)" using Cons.prems(3) e older by auto
  obtain w2 where rd: "read_manifest_object (re_sha env) store w1 k None = (Some (m, enc), w2)" "valid w2" "objs w2 = objs w1"
    using read_object_live [OF at older(2)] by blast
  obtain w3 where seg: "apply_manifest_segments env store w2 root m enc cipher f1 = (True, f', w3)" "valid w3" "objs w3 = objs w2"
    using apply_segments_live [of env w2 root m enc cipher "cm_segments m" 0 f1 f'] f1(2) older rd
    by (auto simp: apply_manifest_segments_def)
  show ?case using older rd seg by (simp add: e apply_keys_append)
qed simp

end

lemma chain_step_genesis: "chain_step root 0 m = CHAIN_END \<Longrightarrow> cm_parent_generation m = 0"
  by (auto simp: chain_step_def split: if_splits option.splits)

lemma chain_list_genesis:
  assumes "chain_list sha contents root meta 0 p es"
  shows "cm_parent_generation (fst (snd (last es))) = 0"
  using assms
proof induction
  case (chain_more p m enc q es)
  then show ?case using chain_list_not_Nil by auto
qed (simp add: chain_step_genesis)

lemma chain_list_length:
  assumes "chain_list sha contents root meta stop p es"
  shows "length es \<le> unat (pos_generation p)"
  using assms
proof induction
  case (chain_last p m enc)
  then show ?case by (simp add: unat_gt_0 Suc_le_eq word_neq_0_conv)
next
  case (chain_more p m enc q es)
  have q: "pos_generation q = cm_parent_generation m"
    using chain_more(4) parent_pos_generation [of root m] by (auto simp: chain_step_def split: if_splits option.splits)
  have p: "cm_parent_generation m + 1 = pos_generation p" using chain_more(3) by (auto simp: chain_manifest_ok_def)
  then have "1 + cm_parent_generation m \<noteq> 0" using chain_more(1) by (auto simp: add.commute)
  from unatSuc [OF this] p have "unat (pos_generation p) = unat (cm_parent_generation m) + 1" by (simp add: add.commute)
  then show ?case using chain_more(6) q by simp
qed

section \<open>When a restore succeeds\<close>

definition readable_head :: "(string \<rightharpoonup> store_object) \<Rightarrow> string \<Rightarrow> head \<Rightarrow> bool" where
  "readable_head contents root h \<longleftrightarrow> length (head_key root) \<le> KEY_MAX \<and>
     (\<exists>ob e. contents (head_key root) = Some ob \<and> so_etag ob = Some e \<and> e \<noteq> [] \<and>
       otsardb_head_decode_json (so_data ob) = Some h)"

definition readable_metadata :: "(string \<rightharpoonup> store_object) \<Rightarrow> string \<Rightarrow> db_metadata \<Rightarrow> bool" where
  "readable_metadata contents root meta \<longleftrightarrow> length (metadata_key root) \<le> METADATA_KEY_MAX \<and>
     stored_metadata contents root = Some meta"

text \<open>An intact database: everything that a replay from the first commit reads is there.\<close>

definition intact ::
  "recovery_env \<Rightarrow> (string \<rightharpoonup> store_object) \<Rightarrow> string \<Rightarrow> cipher option \<Rightarrow> db_metadata \<Rightarrow> head \<Rightarrow> bytes option \<Rightarrow> bool" where
  "intact env contents root cipher meta h img \<longleftrightarrow>
     root \<noteq> [] \<and> readable_metadata contents root meta \<and> readable_head contents root h \<and> recovery_head_ok meta h \<and>
     (\<exists>es. chain_list (re_sha env) contents root meta 0 (head_pos h) es \<and>
        chain_image env contents root cipher es None = Some img) \<and>
     head_checksum_ok (re_sha env) contents h img"

context answering_store
begin

lemma metadata_read_live:
  assumes "readable_metadata (objs w) root meta" "valid w"
  shows "\<exists>w'. otsardb_db_metadata_read store w root = (METADATA_OK, Some meta, w') \<and> valid w' \<and> objs w' = objs w"
proof -
  obtain ob where ob: "objs w (metadata_key root) = Some ob" "otsardb_db_metadata_decode_json (so_data ob) = Some meta"
    using assms(1) by (auto simp: readable_metadata_def stored_metadata_def split: option.splits)
  have key: "metadata_build_key root (METADATA_KEY_MAX + 1) = Some (metadata_key root)"
    using assms(1) by (simp add: readable_metadata_def metadata_build_key_def metadata_key_def join_root_def)
  obtain w' where get: "otsardb_store_get store w (metadata_key root) = (STORE_OK, ob, w')"
    using get_live [OF assms(2) ob(1)] by blast
  then show ?thesis
    using key ob get_same [OF get assms(2)] unfolding otsardb_db_metadata_read_def by simp
qed

lemma head_read_live:
  assumes "readable_head (objs w) root h" "valid w"
  shows "\<exists>e w'. otsardb_journal_read_head store w root = (JOURNAL_OK, Some (h, e), w') \<and> valid w' \<and> objs w' = objs w"
proof -
  obtain ob e where ob: "objs w (head_key root) = Some ob" "otsardb_head_decode_json (so_data ob) = Some h"
    "so_etag ob = Some e" "e \<noteq> []"
    using assms(1) by (auto simp: readable_head_def)
  have key: "build_head_key root (KEY_MAX + 1) = Some (head_key root)"
    using assms(1) by (simp add: readable_head_def build_head_key_def head_key_def join_root_def)
  obtain w' where get: "otsardb_store_get store w (head_key root) = (STORE_OK, ob, w')"
    using get_live [OF assms(2) ob(1)] by blast
  then show ?thesis
    using key ob get_same [OF get assms(2)] unfolding otsardb_journal_read_head_def by simp
qed

lemma head_checksum_live:
  assumes "head_checksum_ok sha (objs w) h f" "valid w"
  shows "\<exists>w'. validate_head_checksum sha store w h f = (True, w') \<and> valid w' \<and> objs w' = objs w"
proof -
  obtain ob m where ob: "objs w (hd_commit_key h) = Some ob" "otsardb_sha256_hex_data sha (so_data ob) = hd_commit_sha256 h"
    "otsardb_commit_manifest_decode_json (so_data ob) = Some m"
    "validate_file_against_manifest_checksum f (cm_page_size m) (cm_database_size_pages m) (cm_post_apply_checksum m)"
    using assms(1) by (auto simp: head_checksum_ok_def)
  obtain w' where get: "otsardb_store_get store w (hd_commit_key h) = (STORE_OK, ob, w')"
    using get_live [OF assms(2) ob(1)] by blast
  then show ?thesis
    using ob get_same [OF get assms(2)] by (simp add: validate_head_checksum_def)
qed

lemma walk_live:
  assumes chain: "chain_list (re_sha env) (objs w) root meta 0 (head_pos h) es"
    and "unat (hd_generation h) \<le> RECOVERY_MAX_COMMITS" "valid w"
    and img: "aps \<Longrightarrow> chain_image env (objs w) root cipher es f = Some f'" "\<not> aps \<Longrightarrow> f' = f"
  shows "\<exists>w'. walk_manifest_chain env store w root meta h aps 0 cipher f = (True, f', w') \<and> valid w' \<and> objs w' = objs w"
proof -
  have len: "length es \<le> RECOVERY_MAX_COMMITS" using chain_list_length [OF chain] assms(2) by (simp add: head_pos_def)
  obtain w1 where col: "collect_chain_keys (re_sha env) store w root meta h 0 = (Some (map fst es), w1)" "valid w1" "objs w1 = objs w"
    using collect_loop_live [OF chain len assms(3)] by (auto simp: collect_chain_keys_def)
  have ne: "es \<noteq> []" by (rule chain_list_not_Nil [OF chain])
  obtain k m enc where l: "last es = (k, m, enc)" by (cases "last es")
  have at: "manifest_object (re_sha env) (objs w1) k None = Some (m, enc)"
    using chain_list_objects [OF chain] last_in_set [OF ne] l col(3) by simp
  obtain w2 where rd: "read_manifest_object (re_sha env) store w1 k None = (Some (m, enc), w2)" "valid w2" "objs w2 = objs w1"
    using read_object_live [OF at col(2)] by blast
  have gen: "genesis_check (re_sha env) store w1 (map fst es) = (True, w2)"
    using chain_list_genesis [OF chain] ne l rd(1) by (simp add: genesis_check_def last_map)
  show ?thesis
  proof (cases aps)
    case False
    then show ?thesis using col ne img(2) by (simp add: walk_manifest_chain_def)
  next
    case True
    obtain w3 where "apply_keys_loop env store root cipher (rev (map fst es)) w2 f = (True, f', w3)" "valid w3" "objs w3 = objs w2"
      using apply_keys_live [of env w2 root cipher es f f'] img(1) [OF True] rd col chain_list_objects [OF chain] by auto
    then show ?thesis using True col gen rd by (simp add: walk_manifest_chain_def apply_manifest_keys_def)
  qed
qed

lemma full_chain_live:
  assumes "chain_list (re_sha env) (objs w) root meta 0 (head_pos h) es" "unat (hd_generation h) \<le> RECOVERY_MAX_COMMITS"
    "chain_image env (objs w) root cipher es None = Some f'" "head_checksum_ok (re_sha env) (objs w) h f'" "valid w"
  shows "\<exists>w'. restore_full_chain env store w root meta h cipher f = (True, f', w')"
proof -
  obtain w1 where one: "walk_manifest_chain env store w root meta h False 0 cipher f = (True, f, w1)" "valid w1" "objs w1 = objs w"
    using walk_live [OF assms(1,2,5), of False cipher f f] by auto
  obtain w2 where two: "walk_manifest_chain env store w1 root meta h True 0 cipher None = (True, f', w2)" "valid w2" "objs w2 = objs w1"
    using walk_live [of env w1 root meta h es True cipher None f'] assms(1-3) one by auto
  obtain w3 where "validate_head_checksum (re_sha env) store w2 h f' = (True, w3)"
    using head_checksum_live [of "re_sha env" w2 h f'] assms(4) one two by auto
  then show ?thesis using one two by (simp add: restore_full_chain_def)
qed

text \<open>Where there is no checkpoint, both attempts with one leave the image alone.\<close>

lemma no_pointer:
  assumes "objs w (checkpoint_key root) = None" "valid w"
  shows "\<exists>w'. restore_from_pointer env store w root meta h cipher f = (False, f, w')"
proof -
  obtain r p w1 where rd: "otsardb_checkpoint_ptr_read store w root = (r, p, w1)"
    by (cases "otsardb_checkpoint_ptr_read store w root")
  have "p = None"
    using ptr_read_law [OF rd assms(2)] assms(1) by (cases p) (auto simp: stored_checkpoint_def)
  then show ?thesis using rd by (simp add: restore_from_pointer_def)
qed

lemma no_candidates:
  assumes "\<forall>name. objs w (join_root root (''checkpoints/'' @ name)) = None" "valid w"
  shows "\<exists>w'. cp_discovery_evaluate sha store root meta h keys None w = (None, w') \<and> valid w' \<and> objs w' = objs w"
  using assms
proof (induction keys arbitrary: w)
  case (Cons key keys)
  have "\<exists>w1. cp_discovery_evaluate_one sha store root meta h key None w = (None, w1) \<and> valid w1 \<and> objs w1 = objs w"
  proof (cases "length (''checkpoints/'' @ key) \<ge> 256 \<or> root_join root (''checkpoints/'' @ key) (KEY_MAX + 1) = None")
    case True
    then show ?thesis
      using Cons.prems(2) by (auto simp: cp_discovery_evaluate_one_def Let_def simp del: root_join_Some)
  next
    case False
    then obtain k where k: "root_join root (''checkpoints/'' @ key) (KEY_MAX + 1) = Some k" by (auto simp del: root_join_Some)
    obtain rc ob w1 where get: "otsardb_store_get store w k = (rc, ob, w1)" by (cases "otsardb_store_get store w k")
    have "rc \<noteq> STORE_OK" using get_law [OF get Cons.prems(2)] Cons.prems(1) k by auto
    then show ?thesis
      using False k get get_same [OF get Cons.prems(2)]
      by (auto simp: cp_discovery_evaluate_one_def Let_def simp del: root_join_Some)
  qed
  then obtain w1 where "cp_discovery_evaluate_one sha store root meta h key None w = (None, w1)" "valid w1" "objs w1 = objs w"
    by blast
  with Cons.IH [of w1] Cons.prems show ?case by simp
qed simp

lemma no_discovery:
  assumes "\<forall>name. objs w (join_root root (''checkpoints/'' @ name)) = None" "valid w"
  shows "\<exists>w'. restore_from_discovered_checkpoint env store w root meta h cipher f = (False, f, w')"
proof (cases "root_join root ''checkpoints/'' (KEY_MAX + 1)")
  case None
  then show ?thesis by (simp add: restore_from_discovered_checkpoint_def del: root_join_Some)
next
  case (Some pre)
  obtain rc keys w1 where ls: "otsardb_store_list store w pre = (rc, keys, w1)" by (cases "otsardb_store_list store w pre")
  note same = list_law [OF ls assms(2)]
  show ?thesis
    using no_candidates [of w1 root "re_sha env" meta h "filter cp_manifest_list_key_valid keys"] same assms(1) Some ls
    by (auto simp: restore_from_discovered_checkpoint_def simp del: root_join_Some)
qed

lemma restore_live:
  assumes "intact env (objs w) root cipher meta h img" "valid w"
  shows "\<exists>f' w'. otsardb_recovery_restore_store_ex env store w root cipher f = (True, f', w') \<and>
    (objs w (checkpoint_key root) = None \<and> (\<forall>name. objs w (join_root root (''checkpoints/'' @ name)) = None) \<longrightarrow> f' = img)"
proof -
  note ok = assms(1) [unfolded intact_def]
  obtain w1 where md: "otsardb_db_metadata_read store w root = (METADATA_OK, Some meta, w1)" "valid w1" "objs w1 = objs w"
    using metadata_read_live [of w root meta] ok assms(2) by blast
  obtain e w2 where hd: "otsardb_journal_read_head store w1 root = (JOURNAL_OK, Some (h, e), w2)" "valid w2" "objs w2 = objs w1"
    using head_read_live [of w1 root h] ok md by auto
  have hok: "recovery_head_ok meta h" and g: "hd_generation h > 0" "unat (hd_generation h) \<le> RECOVERY_MAX_COMMITS"
    using ok by (auto simp: recovery_head_ok_def word_neq_0_conv)
  obtain ok3 f3 w3 where ptr: "restore_from_pointer env store w2 root meta h cipher f = (ok3, f3, w3)"
    by (cases "restore_from_pointer env store w2 root meta h cipher f")
  note law3 = restore_from_pointer_law [OF ptr hd(2) g(1)]
  obtain ok4 f4 w4 where dis: "restore_from_discovered_checkpoint env store w3 root meta h cipher f3 = (ok4, f4, w4)"
    by (cases "restore_from_discovered_checkpoint env store w3 root meta h cipher f3")
  note law4 = restore_discovered_law [OF dis conjunct1 [OF law3] g(1)]
  have same: "objs w4 = objs w" "objs w3 = objs w" using law3 law4 hd md by auto
  obtain w5 where full: "restore_full_chain env store w4 root meta h cipher f4 = (True, img, w5)"
    using full_chain_live [of env w4 root meta h _ cipher img f4] ok g(2) same law4 by auto
  have go: "otsardb_recovery_restore_store_ex env store w root cipher f =
      (if ok3 then (True, f3, w3) else if ok4 then (True, f4, w4) else (True, img, w5))"
    using ok md hd hok ptr dis full by (simp add: otsardb_recovery_restore_store_ex_def)
  have "\<not> ok3 \<and> \<not> ok4"
    if "objs w (checkpoint_key root) = None \<and> (\<forall>name. objs w (join_root root (''checkpoints/'' @ name)) = None)"
    using no_pointer [of w2 root env meta h cipher f] no_discovery [of w3 root env meta h cipher f3] ptr dis hd md law3 same that
    by auto
  with go show ?thesis by auto
qed

end

interpretation mem_live: answering_store "memory_object_store caps" memory_objs memory_valid
proof
  fix w :: memory_store and key ob
  assume "memory_valid w" "memory_objs w key = Some ob"
  then show "\<exists>w'. otsardb_store_get (memory_object_store caps) w key = (STORE_OK, ob, w')"
    by (auto simp: otsardb_store_get_def memory_object_store_def memory_get_objs)
next
  fix w :: memory_store and key ob
  assume "memory_valid w" "memory_objs w key = Some ob"
  then show "\<exists>e. so_etag ob = Some e \<and> e \<noteq> []" by (auto simp: memory_objs_def make_etag_def)
qed

end
