(* ===== verification/Database_History.thy ===== *)
theory Database_History
  imports Recovery_Image
begin

text \<open>
  Publishing and recovery together.  The history of a database is the chain of manifests below HEAD, and its
  state the image that replaying the chain gives.  A published commit extends the history by exactly the
  pages of its request and keeps everything below it, and a restore from the store gives that state.
\<close>

section \<open>What a publisher leaves in the store\<close>

definition segment_stored ::
  "publish_env \<Rightarrow> commit_request \<Rightarrow> (string \<rightharpoonup> store_object) \<Rightarrow> nat \<Rightarrow> segment_input \<Rightarrow>
   manifest_segment_ref \<times> segment_enc option \<Rightarrow> bool" where
  "segment_stored env rq contents i input s \<longleftrightarrow>
     (\<exists>data hash key_hash frames entry.
        segment_bytes env rq i input = Some (data, hash, key_hash, frames, entry) \<and>
        holds_data contents (join_root (rq_database_root rq) (segment_suffix key_hash)) data \<and>
        length (join_root (rq_database_root rq) (segment_suffix key_hash)) \<le> KEY_MAX \<and>
        length (segment_suffix key_hash) \<le> MANIFEST_SEGMENT_KEY_MAX \<and>
        s = (\<lparr>sg_key = segment_suffix key_hash, sg_sha256 = hash, sg_size = of_nat (length data),
              sg_pages = (case si_pages input of None \<Rightarrow> [] | Some pages \<Rightarrow> pages),
              sg_frame_offsets = recorded_offsets entry input frames\<rparr>, entry))"

fun segments_stored ::
  "publish_env \<Rightarrow> commit_request \<Rightarrow> (string \<rightharpoonup> store_object) \<Rightarrow> nat \<Rightarrow> segment_input list \<Rightarrow>
   (manifest_segment_ref \<times> segment_enc option) list \<Rightarrow> bool" where
  "segments_stored env rq contents i [] ss = (ss = [])"
| "segments_stored env rq contents i (input # inputs) [] = False"
| "segments_stored env rq contents i (input # inputs) (s # ss) =
     (segment_stored env rq contents i input s \<and> segments_stored env rq contents (Suc i) inputs ss)"

text \<open>Everything but HEAD is kept.\<close>

definition keeps_objects :: "string \<Rightarrow> (string \<rightharpoonup> store_object) \<Rightarrow> (string \<rightharpoonup> store_object) \<Rightarrow> bool" where
  "keeps_objects root old new \<longleftrightarrow> (\<forall>k ob. k \<noteq> head_key root \<longrightarrow> old k = Some ob \<longrightarrow> new k = Some ob)"

lemma segment_stored_mono:
  assumes "segment_stored env rq m i input s" "keeps_objects (rq_database_root rq) m m'"
  shows "segment_stored env rq m' i input s"
  using assms segment_suffix_not_head(1) unfolding segment_stored_def holds_data_def keeps_objects_def by blast

lemma segments_stored_mono:
  "segments_stored env rq m i inputs ss \<Longrightarrow> keeps_objects (rq_database_root rq) m m' \<Longrightarrow> segments_stored env rq m' i inputs ss"
  by (induction env rq m i inputs ss rule: segments_stored.induct) (auto intro: segment_stored_mono)

lemma map_le_keeps: "m \<subseteq>\<^sub>m m' \<Longrightarrow> keeps_objects root m m'"
  unfolding keeps_objects_def map_le_def by (metis domI)

lemma keeps_trans: "keeps_objects root a b \<Longrightarrow> keeps_objects root b c \<Longrightarrow> keeps_objects root a c"
  by (simp add: keeps_objects_def)

definition commit_stored ::
  "publish_env \<Rightarrow> commit_request \<Rightarrow> (string \<rightharpoonup> store_object) \<Rightarrow> segment_input list \<Rightarrow>
   (manifest_segment_ref \<times> segment_enc option) list \<Rightarrow> string \<Rightarrow> head \<Rightarrow> bool" where
  "commit_stored env rq contents inputs segs json h \<longleftrightarrow>
     (let key = join_root (rq_database_root rq) (commit_name (rq_commit_id rq)) in
      \<exists>hash. segments_stored env rq contents 0 inputs segs \<and> manifest_bytes env rq segs = Some (json, hash) \<and>
        holds_data contents key (bytes_of_string json) \<and> length key \<le> KEY_MAX \<and> h = request_head rq key hash \<and>
        holds_data contents (head_key (rq_database_root rq)) (bytes_of_string (otsardb_head_encode_json h)))"

context object_store_laws
begin

lemma publish_segment_stored:
  assumes "publish_segment env store w rq i input = (Inr s, w')" "valid w"
  shows "segment_stored env rq (objs w') i input s"
proof -
  obtain data hash key_hash frames entry where
    sb: "segment_bytes env rq i input = Some (data, hash, key_hash, frames, entry)"
    and fits: "snprintf_fits (segment_suffix key_hash) (KEY_MAX + 1) = Some (segment_suffix key_hash)"
      "root_join (rq_database_root rq) (segment_suffix key_hash) (KEY_MAX + 1) =
         Some (join_root (rq_database_root rq) (segment_suffix key_hash))"
    using assms(1) by (auto simp: publish_segment_def split: option.splits prod.splits)
  let ?key = "join_root (rq_database_root rq) (segment_suffix key_hash)"
  obtain rc w1 where put: "immutable_put store w ?key data = (rc, w1)" by (cases "immutable_put store w ?key data")
  note law = immutable_put_law [OF put assms(2)]
  have "w' = w1" "rc = JOURNAL_OK" "length (segment_suffix key_hash) \<le> MANIFEST_SEGMENT_KEY_MAX"
    "s = (\<lparr>sg_key = segment_suffix key_hash, sg_sha256 = hash, sg_size = of_nat (length data),
           sg_pages = (case si_pages input of None \<Rightarrow> [] | Some pages \<Rightarrow> pages),
           sg_frame_offsets = recorded_offsets entry input frames\<rparr>, entry)"
    using assms(1) sb fits put
    by (auto simp: publish_segment_def simp del: snprintf_fits_Some root_join_Some split: if_splits)
  then show ?thesis using sb law fits unfolding segment_stored_def by auto
qed

lemma publish_segments_stored:
  assumes "publish_segments env store w rq i inputs = (Inr ss, w')" "valid w"
  shows "segments_stored env rq (objs w') i inputs ss"
  using assms
proof (induction inputs arbitrary: i w ss)
  case (Cons input inputs)
  obtain r1 w1 where one: "publish_segment env store w rq i input = (r1, w1)" by (cases "publish_segment env store w rq i input")
  note law = publish_segment_law [OF one Cons.prems(2)]
  obtain s ss' where s: "r1 = Inr s" "ss = s # ss'" "publish_segments env store w1 rq (Suc i) inputs = (Inr ss', w')"
    using Cons.prems(1) one by (auto split: sum.splits prod.splits)
  note rest = publish_segments_law [OF s(3) conjunct1 [OF law]]
  have "segment_stored env rq (objs w') i input s"
    using segment_stored_mono [OF publish_segment_stored [OF one [unfolded s] Cons.prems(2)] map_le_keeps] rest by blast
  then show ?case using Cons.IH [OF s(3)] law s by simp
qed simp

lemma publish_manifest_stored:
  assumes "publish_manifest env store w rq segs = (rc, res, w')" "valid w"
    "segments_stored env rq (objs w) 0 inputs segs"
    "effective_strategy rq = STRATEGY_CAS \<or> head_condition rq (objs w)"
    and moved: "rc = JOURNAL_OK \<or> objs w' (head_key (rq_database_root rq)) \<noteq> objs w (head_key (rq_database_root rq))"
  shows "\<exists>json h. commit_stored env rq (objs w') inputs segs json h"
proof -
  let ?root = "rq_database_root rq" and ?key = "join_root (rq_database_root rq) (commit_name (rq_commit_id rq))"
  obtain json hash where mb: "manifest_bytes env rq segs = Some (json, hash)"
    and fits: "snprintf_fits (commit_name (rq_commit_id rq)) (KEY_MAX + 1) = Some (commit_name (rq_commit_id rq))"
      "root_join ?root (commit_name (rq_commit_id rq)) (KEY_MAX + 1) = Some ?key" and len: "length ?key \<le> KEY_MAX"
    using assms(1) moved by (auto simp: publish_manifest_def split: option.splits prod.splits)
  define h where "h = request_head rq ?key hash"
  obtain r1 w1 where put: "immutable_put store w ?key (bytes_of_string json) = (r1, w1)"
    by (cases "immutable_put store w ?key (bytes_of_string json)")
  obtain r2 e w2 where hs: "publish_head_step store w1 rq h = (r2, e, w2)" by (cases "publish_head_step store w1 rq h")
  note law1 = immutable_put_law [OF put assms(2)]
  have same: "objs w1 (head_key ?root) = objs w (head_key ?root)" using law1 segment_suffix_not_head(2) by metis
  have c1: "effective_strategy rq = STRATEGY_CAS \<or> head_condition rq (objs w1)"
    using assms(4) head_condition_cong [of "objs w1" rq "objs w"] same by simp
  note law2 = publish_head_step_law [OF hs conjunct1 [OF law1] c1]
  have ok: "r1 = JOURNAL_OK" "w' = w2" "r2 = JOURNAL_OK \<or> objs w2 (head_key ?root) \<noteq> objs w1 (head_key ?root)"
    using assms(1) mb fits put hs same moved
    by (auto simp: publish_manifest_def Let_def h_def simp del: snprintf_fits_Some root_join_Some split: if_splits)
  have k1: "keeps_objects ?root (objs w) (objs w1)" using law1 map_le_keeps by blast
  have k2: "keeps_objects ?root (objs w1) (objs w')" using law2 ok by (simp add: keeps_objects_def)
  have "holds_data (objs w') ?key (bytes_of_string json)"
    using law1 ok k2 segment_suffix_not_head(2) [of ?root "rq_commit_id rq"]
    unfolding holds_data_def keeps_objects_def by blast
  moreover have "segments_stored env rq (objs w') 0 inputs segs"
    by (rule segments_stored_mono [OF assms(3) keeps_trans [OF k1 k2]])
  moreover have "holds_data (objs w') (head_key ?root) (bytes_of_string (otsardb_head_encode_json h))"
    using law2 ok by auto
  ultimately have "commit_stored env rq (objs w') inputs segs json h"
    using mb len unfolding commit_stored_def Let_def h_def by blast
  then show ?thesis by blast
qed

text \<open>Also a call that reports a failure may have moved HEAD; then its commit is as complete as after a success.\<close>

lemma publish_commit_stored:
  assumes "otsardb_publish_commit env store w rq = (rc, res, w')" "valid w"
    and moved: "rc = JOURNAL_OK \<or> objs w' (head_key (rq_database_root rq)) \<noteq> objs w (head_key (rq_database_root rq))"
  shows "\<exists>inputs segs json h. resolve_segment_inputs rq = Some inputs \<and> request_valid rq (Some inputs) \<and>
    commit_stored env rq (objs w') inputs segs json h"
proof -
  obtain inputs where inputs: "resolve_segment_inputs rq = Some inputs"
    using assms(1) moved by (auto simp: otsardb_publish_commit_def Let_def request_valid_def split: if_splits)
  obtain r1 w1 where sc: "strategy_check store w rq = (r1, w1)" by (cases "strategy_check store w rq")
  obtain r2 w2 where ps: "publish_segments env store w1 rq 0 inputs = (r2, w2)" by (cases "publish_segments env store w1 rq 0 inputs")
  note law1 = strategy_check_law [OF sc assms(2)]
  note law2 = publish_segments_law [OF ps conjunct1 [OF law1]]
  have v: "request_valid rq (Some inputs)" "list_all valid_segment_input inputs" "r1 = JOURNAL_OK"
    using assms(1) moved inputs sc law1 by (auto simp: otsardb_publish_commit_def Let_def split: if_splits)
  then obtain segs where segs: "r2 = Inr segs" and pm: "publish_manifest env store w2 rq segs = (rc, res, w')"
    using assms(1) moved inputs sc ps law1 law2 by (auto simp: otsardb_publish_commit_def Let_def split: sum.splits)
  have c: "effective_strategy rq = STRATEGY_CAS \<or> head_condition rq (objs w2)"
    using law1 law2 v(3) head_condition_cong [of "objs w2" rq "objs w"] by auto
  have st: "segments_stored env rq (objs w2) 0 inputs segs"
    using publish_segments_stored [OF ps [unfolded segs]] law1 by blast
  have m2: "rc = JOURNAL_OK \<or> objs w' (head_key (rq_database_root rq)) \<noteq> objs w2 (head_key (rq_database_root rq))"
    using moved law1 law2 by auto
  from publish_manifest_stored [OF pm _ st c m2] law2 inputs v show ?thesis by blast
qed

end

section \<open>Reading the published manifest\<close>

text \<open>A manifest without encrypted segments has no list of vectors and tags.\<close>

lemma segment_enc_absent:
  assumes "manifest_wf m" "manifest_valid m" "cm_format_version m \<ge> 3"
  shows "strstr (manifest_extended m []) segment_enc_marker = None"
proof -
  note wf = assms(1) [unfolded manifest_wf_def plain_string_def list_all_iff]
  have n: "json_name ''segment_enc''" by (simp add: json_name_def)
  have p: "segment_enc_marker = quote # ''segment_enc'' @ quote # CHR '':'' # ''[''"
    by (simp add: segment_enc_marker_def pattern_u64_def)
  note skip = strstr_skip_u64 [OF n] strstr_skip_str [OF n] strstr_skip_char strstr_skip_key [OF n]
    strstr_skip_segments [OF _ n]
  have "strstr (manifest_extended m []) segment_enc_marker =
      strstr (manifest_trailer_open m @ [CHR ''}'', CHR 0x0A]) segment_enc_marker"
    unfolding p using wf
    by (simp add: manifest_extended_def common_fields_def list_fields_def segments_marker_def
        skip [simplified] p [simplified])
  also have "\<dots> = None"
    unfolding p using wf checksum_field_plain [of "cm_post_apply_checksum m"]
    by (simp add: manifest_trailer_open_def skip [simplified] plain_string_def strstr.simps)
  finally show ?thesis .
qed

lemma plain_manifest_round_trip:
  assumes "manifest_wf m" "cm_format_version m = COMMIT_MANIFEST_VERSION"
    and enc: "otsardb_commit_manifest_encode_json sha m = Some (json, hash)"
  shows "otsardb_commit_manifest_decode_json (bytes_of_string json) = Some m \<and>
    otsardb_segment_enc_parse_json (bytes_of_string json) = Some \<lparr>es_entries = [], es_present = False\<rparr> \<and>
    hash = otsardb_sha256_hex_data sha (bytes_of_string json)"
proof -
  have valid: "manifest_valid m" and json: "json = manifest_document m" and len: "length json \<le> int_max"
    and hash: "hash = otsardb_sha256_hex_data sha (bytes_of_string json)"
    using enc by (auto simp: otsardb_commit_manifest_encode_json_def manifest_text_exact split: if_splits)
  have f: "cm_format_version m \<ge> 3" "cm_format_version m \<ge> 4"
    using assms(2) by (simp_all add: COMMIT_MANIFEST_VERSION_def)
  have ext: "json = manifest_extended m []" using json f by (simp add: manifest_document_def manifest_list_extended)
  have copy: "c_str json = json"
    using manifest_extended_no_nul [OF assms(1) extension_ok_Nil] by (simp add: c_str_id ext)
  have ne: "bytes_of_string json \<noteq> []" by (simp add: ext manifest_extended_def common_fields_def bytes_of_string_def)
  have "otsardb_segment_enc_parse_json (bytes_of_string json) = Some \<lparr>es_entries = [], es_present = False\<rparr>"
    using segment_enc_absent [OF assms(1) valid f(1)] ne
    by (simp add: otsardb_segment_enc_parse_json_def copy ext [symmetric])
  then show ?thesis
    using manifest_decode_document [OF assms(1) valid] len json hash manifest_stored_v4 [OF f(2)]
    by (simp add: int_max_def size_max_def)
qed

text \<open>What a publisher and its environment have to provide for the manifest to be readable.\<close>

definition request_plain :: "commit_request \<Rightarrow> segment_input list \<Rightarrow> bool" where
  "request_plain rq inputs \<longleftrightarrow>
     plain_string (rq_database_root rq) \<and> plain_string (rq_database_id rq) \<and> plain_string (rq_commit_id rq) \<and>
     plain_string (string_or_empty (rq_parent_commit_id rq)) \<and>
     plain_string (string_or_empty (rq_parent_manifest_sha256 rq)) \<and>
     checksum_field_valid (string_or_empty (rq_post_apply_checksum rq)) \<and>
     (\<forall>input\<in>set inputs. \<forall>pages. si_pages input = Some pages \<longrightarrow> length pages \<le> MANIFEST_MAX_LIST_ENTRIES)"

definition entropy_ok :: "publish_env \<Rightarrow> bool" where
  "entropy_ok env \<longleftrightarrow> (\<forall>i iv. pe_entropy env i = Some iv \<longrightarrow> length iv = CIPHER_IV_BYTES)"

lemma emit_blocks_length:
  "segment_emit_blocks lz4c bs off = Some (out, offsets) \<Longrightarrow> length offsets = length bs"
  by (induction lz4c bs off arbitrary: out offsets rule: segment_emit_blocks.induct) (auto split: option.splits prod.splits)

lemma frame_info_length:
  assumes "otsardb_segment_encode_with_frames sha lz4c kind cid payload compress = Some (data, hash, frames)"
  shows "length (fi_offsets frames) = length (fi_page_nos frames)"
proof -
  have "length (fi_offsets frames) = length (fi_page_nos frames)"
    if "segment_encode_v3 sha lz4c cid payload compress = Some (data, hash, frames)"
    using that by (auto simp: segment_encode_v3_def Let_def dest!: emit_blocks_length split: if_splits option.splits prod.splits)
  then show ?thesis
    using assms by (auto simp: otsardb_segment_encode_with_frames_def Let_def split: if_splits option.splits prod.splits)
qed

lemma frame_hash_plain:
  "otsardb_segment_encode_with_frames sha lz4c kind cid payload compress = Some (data, hash, frames) \<Longrightarrow> plain_string hash"
  using sha256_hex_plain by (auto dest!: encode_with_frames_hash simp: otsardb_sha256_hex_data_def)

lemma segment_bytes_info:
  assumes "segment_bytes env rq i input = Some (data, hash, key_hash, frames, entry)"
  shows "plain_string hash \<and> plain_string key_hash \<and> length (fi_offsets frames) = length (fi_page_nos frames)"
  using assms sha256_hex_plain frame_info_length frame_hash_plain
  by (auto simp: segment_bytes_def segment_encrypt_envelope_def Let_def otsardb_sha256_hex_data_def bind_eq_Some_conv
      split: option.splits)

lemma segment_suffix_plain: "plain_string h \<Longrightarrow> plain_string (segment_suffix h)"
  by (auto simp: segment_suffix_def plain_string_def dest: in_set_takeD)

lemma segment_stored_wf:
  assumes "segment_stored env rq contents i input s"
    "\<forall>pages. si_pages input = Some pages \<longrightarrow> length pages \<le> MANIFEST_MAX_LIST_ENTRIES"
  shows "segment_ref_wf (fst s)"
proof -
  obtain data hash key_hash frames entry where
    sb: "segment_bytes env rq i input = Some (data, hash, key_hash, frames, entry)"
    and len: "length (segment_suffix key_hash) \<le> MANIFEST_SEGMENT_KEY_MAX"
    and s: "s = (\<lparr>sg_key = segment_suffix key_hash, sg_sha256 = hash, sg_size = of_nat (length data),
              sg_pages = (case si_pages input of None \<Rightarrow> [] | Some pages \<Rightarrow> pages),
              sg_frame_offsets = recorded_offsets entry input frames\<rparr>, entry)"
    using assms(1) unfolding segment_stored_def by blast
  show ?thesis
    using segment_bytes_info [OF sb] len assms(2) segment_suffix_plain
    by (auto simp: s segment_ref_wf_def recorded_offsets_def split: option.splits)
qed

lemma segments_stored_all:
  assumes "segments_stored env rq contents i inputs segs"
    "\<And>input s j. input \<in> set inputs \<Longrightarrow> segment_stored env rq contents j input s \<Longrightarrow> P s"
  shows "list_all P segs \<and> length segs = length inputs"
  using assms by (induction env rq contents i inputs segs rule: segments_stored.induct) auto

lemma request_manifest_wf:
  assumes "segments_stored env rq contents 0 inputs segs" "request_plain rq inputs"
  shows "manifest_wf (request_manifest rq (map fst segs))"
proof -
  have "list_all (\<lambda>s. segment_ref_wf (fst s)) segs"
    using segments_stored_all [OF assms(1), of "\<lambda>s. segment_ref_wf (fst s)"] segment_stored_wf assms(2)
    by (fastforce simp: request_plain_def)
  then have refs: "list_all segment_ref_wf (map fst segs)" by (simp add: list_all_iff)
  have c: "checksum_field_valid (take 16 (string_or_empty (rq_post_apply_checksum rq)))"
    using assms(2) by (auto simp: request_plain_def checksum_field_valid_def)
  show ?thesis
    using assms(2) refs c by (simp add: manifest_wf_def request_manifest_def request_plain_def plain_string_take)
qed

section \<open>Batches with the same effect\<close>

lemma image_byte: "0 < page_size \<Longrightarrow> byte_at img i = image_page img page_size (i div page_size + 1) ! (i mod page_size)"
  by (simp add: image_page_def read_page_bytes)

lemma map_of_unat_keys:
  "map_of (map (\<lambda>(k, d). (unat (k :: u32), d)) xs) n = (if n < 2 ^ 32 then map_of xs (of_nat n) else None)"
proof (induction xs)
  case (Cons x xs)
  obtain k d where x: "x = (k, d)" by (cases x)
  have "unat k < 2 ^ 32" using unsigned_less [where ?'a = nat, of k] by simp
  moreover have "n = unat k \<longleftrightarrow> of_nat n = k" if "n < 2 ^ 32"
    using that by (auto simp: unsigned_of_nat take_bit_nat_eq_self)
  ultimately show ?case using Cons x by auto
qed simp

lemma encoded_frames:
  assumes "otsardb_wal_batch_encode p d nos pages n = Some b" "length pages = unat n * unat p"
  shows "\<forall>i<unat n. otsardb_wal_batch_frame (encoded_view p d n b) (of_nat i) \<noteq> None"
    "batch_frames (encoded_view p d n b) = map (\<lambda>(k, x). (unat k, x)) (wal_batch_frames (encoded_view p d n b))"
proof -
  have "otsardb_wal_batch_frame (encoded_view p d n b) (of_nat i) = Some (nos ! i, batch_page p pages i)"
    if "i < unat n" for i
    using wal_batch_encode_frame [OF assms, of "of_nat i"] that unat_u32_le [of n] by (simp add: word_less_nat_alt)
  then show "\<forall>i<unat n. otsardb_wal_batch_frame (encoded_view p d n b) (of_nat i) \<noteq> None"
    "batch_frames (encoded_view p d n b) = map (\<lambda>(k, x). (unat k, x)) (wal_batch_frames (encoded_view p d n b))"
    by (simp_all add: batch_frames_def wal_batch_frames_def)
qed

lemma fold_frames_byte:
  assumes "\<forall>(k, d)\<in>set fs. k \<ge> 1 \<and> length d = page_size" "0 < page_size"
  shows "byte_at (fold (write_frame page_size) fs img) i =
    (case map_of (rev fs) (i div page_size + 1) of Some d \<Rightarrow> d ! (i mod page_size) | None \<Rightarrow> byte_at img i)"
  using fold_frames_page [OF assms(1), of "i div page_size + 1" img] image_byte [OF assms(2), of _ i]
  by (simp split: option.splits)

lemma ftruncate_eq:
  assumes "\<And>i. i < n \<Longrightarrow> byte_at a i = byte_at b i"
  shows "ftruncate a n = ftruncate b n"
proof (rule nth_equalityI)
  fix i assume "i < length (ftruncate a n)"
  then have "i < n" by simp
  with assms byte_at_ftruncate [of i n a] byte_at_ftruncate [of i n b]
  show "ftruncate a n ! i = ftruncate b n ! i" by (simp add: byte_at_def split: if_splits)
qed simp

lemma apply_batch_equiv:
  assumes e1: "otsardb_wal_batch_encode p d nos pages n = Some b" "length pages = unat n * unat p"
    and e2: "otsardb_wal_batch_encode p d nos' pages' n' = Some b'" "length pages' = unat n' * unat p"
    and eq: "\<forall>db. apply_frames (wal_batch_frames (encoded_view p d n' b')) db = apply_frames (wal_batch_frames (encoded_view p d n b)) db"
  shows "otsardb_recovery_apply_wal_batch_file b' f = (True, f') \<longleftrightarrow> otsardb_recovery_apply_wal_batch_file b f = (True, f')"
proof -
  note v1 = wal_batch_encode_view [OF e1] and v2 = wal_batch_encode_view [OF e2]
  note fr1 = encoded_frames [OF e1] and fr2 = encoded_frames [OF e2]
  let ?v1 = "encoded_view p d n b" and ?v2 = "encoded_view p d n' b'"
  have ps: "0 < unat p"
    using e1(1) valid_page_size_bounds(1) [of p] by (auto simp: wal_batch_encode_eq)
  have maps: "map_of (rev (batch_frames ?v2)) = map_of (rev (batch_frames ?v1))"
  proof -
    have "map_of (rev (wal_batch_frames ?v2)) = map_of (rev (wal_batch_frames ?v1))"
      using eq [rule_format, of Map.empty] by (simp add: apply_frames_map_of)
    then show ?thesis
      unfolding fr1(2) fr2(2) rev_map by (simp add: fun_eq_iff map_of_unat_keys)
  qed
  have ok1: "\<forall>(k, d)\<in>set (batch_frames ?v1). k \<ge> 1 \<and> length d = unat p"
    using batch_frames_ok [OF v1] fr1(1) by simp
  have ok2: "\<forall>(k, d)\<in>set (batch_frames ?v2). k \<ge> 1 \<and> length d = unat p"
    using batch_frames_ok [OF v2] fr2(1) by simp
  have "ftruncate (fold (write_frame (unat p)) (batch_frames ?v2) img) k =
      ftruncate (fold (write_frame (unat p)) (batch_frames ?v1) img) k" for img k
    by (rule ftruncate_eq) (simp only: fold_frames_byte [OF ok1 ps] fold_frames_byte [OF ok2 ps] maps)
  then show ?thesis
    using apply_batch_cases [OF v1, of f f'] apply_batch_cases [OF v2, of f f'] fr1(1) fr2(1) by simp
qed

section \<open>Reading a published segment\<close>

text \<open>
  A recovery that fits a publisher: the same digest, the decoders for its encoders, and its key if it encrypts.
\<close>

definition env_matches :: "publish_env \<Rightarrow> commit_request \<Rightarrow> recovery_env \<Rightarrow> cipher option \<Rightarrow> bool" where
  "env_matches env rq renv cipher \<longleftrightarrow>
     re_sha renv = pe_sha env \<and> (\<forall>x. length (pe_sha env x) = 32) \<and> lz4_inverse (pe_lz4c env) (re_lz4d renv) \<and>
     entropy_ok env \<and> aead (pe_gcm env) (re_gdec renv) \<and>
     (\<forall>c. request_cipher env rq = Some c \<longrightarrow> cipher = Some c \<and> length (ci_key c) = CIPHER_KEY_BYTES)"

text \<open>A payload that is an encoded batch of a size that a segment may have.\<close>

definition batch_payload :: "bytes \<Rightarrow> bool" where
  "batch_payload payload \<longleftrightarrow>
     (\<exists>p d nos pages n. otsardb_wal_batch_encode p d nos pages n = Some payload \<and> length pages = unat n * unat p \<and>
        unat n \<le> (segment_max_decompressed - wal_batch_header_size) div (wal_batch_frame_header_size + unat p))"

lemma segment_decode_size: "otsardb_segment_decode sha data = Some v \<Longrightarrow> length data \<le> size_max"
  unfolding otsardb_segment_decode_def Let_def by (simp only: split: if_split_asm) (linarith | simp)+

lemma batch_segment:
  assumes "batch_payload payload" "\<forall>x. length (sha x) = 32" "lz4_inverse lz4c lz4d"
    "cid \<noteq> []" "length cid \<le> segment_commit_id_max"
    and enc: "otsardb_segment_encode_with_frames sha lz4c segment_wal_frames cid payload compress = Some (data, hash, info)"
  shows "\<exists>view out. otsardb_segment_decode sha data = Some view \<and> sv_commit_id view = cid \<and>
    sv_kind view = segment_wal_frames \<and> sv_compressed view \<and> otsardb_segment_decompress lz4d view = Some out \<and>
    (\<forall>f f'. otsardb_recovery_apply_wal_batch_file out f = (True, f') \<longleftrightarrow>
            otsardb_recovery_apply_wal_batch_file payload f = (True, f'))"
proof -
  obtain p d nos pages n where b: "otsardb_wal_batch_encode p d nos pages n = Some payload" "length pages = unat n * unat p"
    "unat n \<le> (segment_max_decompressed - wal_batch_header_size) div (wal_batch_frame_header_size + unat p)"
    using assms(1) unfolding batch_payload_def by blast
  obtain view out batch batch' nos' pages' n' where s:
    "otsardb_segment_decode sha data = Some view" "sv_commit_id view = cid" "sv_kind view = segment_wal_frames"
    "sv_compressed view" "otsardb_segment_decompress lz4d view = Some out"
    "otsardb_wal_batch_encode p d nos' pages' n' = Some out" "length pages' = unat n' * unat p"
    "otsardb_wal_batch_decode payload = Some batch" "otsardb_wal_batch_decode out = Some batch'"
    "\<forall>db. apply_frames (wal_batch_frames batch') db = apply_frames (wal_batch_frames batch) db"
    using segment_v3_stored [OF b(1,2) assms(2,4,5,3) b(3), of compress] unfolding enc option.inject prod.inject by blast
  have "batch = encoded_view p d n payload" "batch' = encoded_view p d n' out"
    using s(8,9) wal_batch_encode_view [OF b(1,2)] wal_batch_encode_view [OF s(6,7)] by auto
  then show ?thesis using apply_batch_equiv [OF b(1,2) s(6,7)] s by blast
qed

lemma of_nat_u64_size: "n \<le> size_max \<Longrightarrow> unat (of_nat n :: u64) = n"
  by (simp add: unsigned_of_nat take_bit_nat_eq_self size_max_def)

lemma encrypted_segment:
  assumes env: "env_matches env rq renv cipher" and c: "request_cipher env rq = Some c"
    and se: "segment_encrypt_envelope env i c root cid data = Some (envelope, entry, key_hash)"
  shows "enc_entry_wf (Some entry) \<and> length envelope \<le> size_max \<and>
    decrypt_segment_envelope (re_gdec renv) cipher (join_root root (segment_suffix key_hash)) cid envelope = Some data"
proof -
  note e = env [unfolded env_matches_def]
  obtain iv stream aad tag where s: "otsardb_cipher_encrypt_stream (pe_gcm env) (pe_entropy env i) c data = Some (iv, stream)"
    "segment_aad_build (join_root root (segment_suffix key_hash)) cid = Some aad"
    "otsardb_cipher_encrypt_with_aad (pe_gcm env) c iv aad data = Some (envelope, tag)"
    "entry = \<lparr>en_alg = CIPHER_ALG_NAME, en_iv = iv, en_tag = tag\<rparr>"
    using se by (auto simp: segment_encrypt_envelope_def Let_def bind_eq_Some_conv)
  have iv: "length iv = CIPHER_IV_BYTES"
    using s(1) e by (auto simp: otsardb_cipher_encrypt_stream_def entropy_ok_def split: if_splits option.splits)
  have key: "length (ci_key c) = CIPHER_KEY_BYTES" "cipher = Some c" using e c by auto
  have a: "aead (pe_gcm env) (re_gdec renv)" using e by blast
  obtain ct where ct: "envelope = iv @ ct @ tag" "length ct = length data" "length tag = CIPHER_TAG_BYTES" "length data \<le> int_max"
    using aead.envelope_parts [OF a key(1) iv s(3)] by blast
  have "otsardb_cipher_decrypt (re_gdec renv) c envelope aad = Some data"
    using aead.decrypt_envelope [OF a key(1) iv s(3) ct(3)] ct by simp
  then show ?thesis
    using s(2,4) key iv ct by (simp add: enc_entry_wf_def decrypt_segment_envelope_def int_max_def size_max_def
        CIPHER_IV_BYTES_def CIPHER_TAG_BYTES_def)
qed

lemma segment_readable:
  assumes st: "segment_stored env rq contents i input s" and env: "env_matches env rq renv cipher"
    and payload: "batch_payload (si_payload input)" and cid: "rq_commit_id rq \<noteq> []" "length (rq_commit_id rq) \<le> COMMIT_ID_MAX"
  shows "enc_entry_wf (snd s) \<and> (\<exists>ob out key. key = join_root (rq_database_root rq) (sg_key (fst s)) \<and> contents key = Some ob \<and>
    segment_object_key (rq_database_root rq) (request_manifest rq refs) (fst s) = Some key \<and>
    segment_batch renv cipher (request_manifest rq refs) (snd s \<noteq> None) key (fst s) (so_data ob) = Some out \<and>
    (\<forall>f f'. otsardb_recovery_apply_wal_batch_file out f = (True, f') \<longleftrightarrow>
            otsardb_recovery_apply_wal_batch_file (si_payload input) f = (True, f')))"
proof -
  note e = env [unfolded env_matches_def]
  let ?root = "rq_database_root rq" and ?m = "request_manifest rq refs"
  obtain data hash key_hash frames entry where
    sb: "segment_bytes env rq i input = Some (data, hash, key_hash, frames, entry)"
    and at: "holds_data contents (join_root ?root (segment_suffix key_hash)) data"
    and fits: "length (join_root ?root (segment_suffix key_hash)) \<le> KEY_MAX"
    and s: "sg_key (fst s) = segment_suffix key_hash" "sg_sha256 (fst s) = hash" "sg_size (fst s) = of_nat (length data)"
      "snd s = entry"
    using st unfolding segment_stored_def by auto
  let ?key = "join_root ?root (segment_suffix key_hash)"
  have cids: "cm_commit_id ?m = rq_commit_id rq" "length (rq_commit_id rq) \<le> segment_commit_id_max"
    using cid(2) by (simp_all add: request_manifest_def MANIFEST_ID_MAX_def COMMIT_ID_MAX_def segment_commit_id_max_def)
  obtain plain plain_hash where enc: "otsardb_segment_encode_with_frames (pe_sha env) (pe_lz4c env) segment_wal_frames (rq_commit_id rq)
      (si_payload input) True = Some (plain, plain_hash, frames)"
    and b: "if request_cipher env rq = None then data = plain \<and> hash = plain_hash \<and> entry = None
       else (\<exists>x. segment_encrypt_envelope env i (the (request_cipher env rq)) ?root (rq_commit_id rq) plain = Some (data, x, key_hash) \<and>
          entry = Some x \<and> hash = otsardb_sha256_hex_data (pe_sha env) data)"
    using sb by (cases "request_cipher env rq") (auto simp: segment_bytes_def bind_eq_Some_conv)
  have l: "\<forall>x. length (pe_sha env x) = 32" "lz4_inverse (pe_lz4c env) (re_lz4d renv)" using e by auto
  obtain view out where d: "otsardb_segment_decode (pe_sha env) plain = Some view" "sv_commit_id view = rq_commit_id rq"
    "sv_kind view = segment_wal_frames" "sv_compressed view" "otsardb_segment_decompress (re_lz4d renv) view = Some out"
    and same: "\<forall>f f'. otsardb_recovery_apply_wal_batch_file out f = (True, f') \<longleftrightarrow>
            otsardb_recovery_apply_wal_batch_file (si_payload input) f = (True, f')"
    using batch_segment [OF payload l cid(1) cids(2) enc] by blast
  have dec: "enc_entry_wf entry \<and> length data \<le> size_max \<and> hash = otsardb_sha256_hex_data (pe_sha env) data \<and>
    (if entry \<noteq> None then decrypt_segment_envelope (re_gdec renv) cipher ?key (rq_commit_id rq) data else Some data) = Some plain"
  proof (cases "request_cipher env rq")
    case None
    then show ?thesis
      using b segment_decode_size [OF d(1)] encode_with_frames_hash [OF enc] by (simp add: enc_entry_wf_def)
  next
    case (Some c)
    then show ?thesis using b encrypted_segment [OF env Some] by auto
  qed
  obtain ob where ob: "contents ?key = Some ob" "so_data ob = data" using at by (auto simp: holds_data_def)
  have size: "length data = unat (of_nat (length data) :: u64)" using dec of_nat_u64_size by simp
  have "segment_batch renv cipher ?m (snd s \<noteq> None) ?key (fst s) (so_data ob) = Some out"
    using e ob dec d cids s size
    by (cases entry) (simp_all add: segment_batch_def require_def)
  moreover have "segment_object_key ?root ?m (fst s) = Some ?key"
    using fits s
    by (simp add: segment_object_key_def request_manifest_def COMMIT_MANIFEST_VERSION_def join_root_def segment_suffix_def)
  ultimately show ?thesis unfolding s(1,4) using dec same ob(1) by blast
qed

section \<open>The effect of a published commit\<close>

text \<open>The batches of a request, one after the other.\<close>

primrec apply_payloads :: "bytes list \<Rightarrow> bytes option \<Rightarrow> bytes option option" where
  "apply_payloads [] f = Some f"
| "apply_payloads (payload # payloads) f =
     (case otsardb_recovery_apply_wal_batch_file payload f of (ok, f') \<Rightarrow>
        if ok then apply_payloads payloads f' else None)"

lemma published_segments_image:
  assumes "segments_stored env rq contents i inputs segs" "env_matches env rq renv cipher"
    "\<forall>input\<in>set inputs. batch_payload (si_payload input)" "rq_commit_id rq \<noteq> []" "length (rq_commit_id rq) \<le> COMMIT_ID_MAX"
    "\<forall>j<length segs. segment_encrypted enc (i + j) \<longleftrightarrow> snd (segs ! j) \<noteq> None"
  shows "segments_image renv contents (rq_database_root rq) (request_manifest rq refs) enc cipher (map fst segs) i f =
    apply_payloads (map si_payload inputs) f"
  using assms
proof (induction inputs arbitrary: i segs f)
  case (Cons input inputs)
  obtain s ss where s: "segs = s # ss" "segment_stored env rq contents i input s" "segments_stored env rq contents (Suc i) inputs ss"
    using Cons.prems(1) by (cases segs) auto
  have pl: "batch_payload (si_payload input)" using Cons.prems(3) by simp
  obtain ob out key where k: "contents key = Some ob"
    "segment_object_key (rq_database_root rq) (request_manifest rq refs) (fst s) = Some key"
    "segment_batch renv cipher (request_manifest rq refs) (snd s \<noteq> None) key (fst s) (so_data ob) = Some out"
    and same: "\<forall>f f'. otsardb_recovery_apply_wal_batch_file out f = (True, f') \<longleftrightarrow>
        otsardb_recovery_apply_wal_batch_file (si_payload input) f = (True, f')"
    using segment_readable [OF s(2) Cons.prems(2) pl Cons.prems(4,5)] by blast
  have e: "segment_encrypted enc i \<longleftrightarrow> snd s \<noteq> None" using Cons.prems(6) s(1) by force
  have rest: "segments_image renv contents (rq_database_root rq) (request_manifest rq refs) enc cipher (map fst ss) (Suc i) f' =
      apply_payloads (map si_payload inputs) f'" for f'
    using Cons.IH [OF s(3) Cons.prems(2) _ Cons.prems(4,5)] Cons.prems(3,6) s(1) by force
  show ?case
  proof (cases "fst (otsardb_recovery_apply_wal_batch_file out f)")
    case True
    then obtain f1 where f1: "otsardb_recovery_apply_wal_batch_file out f = (True, f1)"
      by (cases "otsardb_recovery_apply_wal_batch_file out f") simp
    then have "otsardb_recovery_apply_wal_batch_file (si_payload input) f = (True, f1)" using same by blast
    with f1 show ?thesis using k e rest s(1) by (simp add: require_def)
  next
    case False
    obtain ok f1 where r: "otsardb_recovery_apply_wal_batch_file (si_payload input) f = (ok, f1)"
      by (cases "otsardb_recovery_apply_wal_batch_file (si_payload input) f")
    have "\<not> ok"
    proof
      assume ok
      then have "otsardb_recovery_apply_wal_batch_file out f = (True, f1)" using same r by simp
      then show False using False by simp
    qed
    then show ?thesis using False r k e s(1) by (simp add: require_def)
  qed
qed auto

lemma published_manifest:
  assumes st: "commit_stored env rq contents inputs segs json h" and env: "env_matches env rq renv cipher"
    and plain: "request_plain rq inputs" and payload: "\<forall>input\<in>set inputs. batch_payload (si_payload input)"
    and cid: "rq_commit_id rq \<noteq> []" "length (rq_commit_id rq) \<le> COMMIT_ID_MAX"
  shows "hd_commit_key h = join_root (rq_database_root rq) (commit_name (rq_commit_id rq)) \<and>
    length (hd_commit_sha256 h) = MANIFEST_SHA256_HEX_SIZE \<and>
    (\<exists>enc. manifest_object (re_sha renv) contents (hd_commit_key h) (Some (hd_commit_sha256 h)) =
       Some (request_manifest rq (map fst segs), enc) \<and>
     (\<forall>j<length segs. segment_encrypted enc j \<longleftrightarrow> snd (segs ! j) \<noteq> None))"
proof -
  let ?key = "join_root (rq_database_root rq) (commit_name (rq_commit_id rq))" and ?m = "request_manifest rq (map fst segs)"
  obtain hash where st': "segments_stored env rq contents 0 inputs segs" "manifest_bytes env rq segs = Some (json, hash)"
    "holds_data contents ?key (bytes_of_string json)" "length ?key \<le> KEY_MAX" "h = request_head rq ?key hash"
    using st by (auto simp: commit_stored_def Let_def)
  have wf: "manifest_wf ?m" by (rule request_manifest_wf [OF st'(1) plain])
  have v: "cm_format_version ?m = COMMIT_MANIFEST_VERSION" by (simp add: request_manifest_def)
  have "list_all (\<lambda>s. enc_entry_wf (snd s)) segs"
    using segments_stored_all [OF st'(1), of "\<lambda>s. enc_entry_wf (snd s)"] segment_readable [OF _ env _ cid] payload by blast
  then have es: "list_all enc_entry_wf (map snd segs)" "length (map snd segs) = length (cm_segments ?m)"
    by (simp_all add: list_all_iff request_manifest_def)
  obtain json0 hash0 where enc: "otsardb_commit_manifest_encode_json (pe_sha env) ?m = Some (json0, hash0)"
    and json: "if list_ex (\<lambda>s. snd s \<noteq> None) segs
       then manifest_inject_segment_enc (pe_sha env) json0 (map snd segs) = Some (json, hash) else json = json0 \<and> hash = hash0"
    using st'(2) by (auto simp: manifest_bytes_def bind_eq_Some_conv split: if_splits)
  have "\<exists>e. otsardb_commit_manifest_decode_json (bytes_of_string json) = Some ?m \<and>
      otsardb_segment_enc_parse_json (bytes_of_string json) = Some e \<and>
      hash = otsardb_sha256_hex_data (pe_sha env) (bytes_of_string json) \<and>
      (\<forall>j<length segs. segment_encrypted e j \<longleftrightarrow> snd (segs ! j) \<noteq> None)"
  proof (cases "list_ex (\<lambda>s. snd s \<noteq> None) segs")
    case True
    then show ?thesis using inject_round_trip [OF wf v es enc, of json hash] json by (auto simp: segment_encrypted_def)
  next
    case False
    then show ?thesis
      using plain_manifest_round_trip [OF wf v enc] json by (auto simp: segment_encrypted_def list_ex_iff)
  qed
  then obtain e where e: "otsardb_commit_manifest_decode_json (bytes_of_string json) = Some ?m"
      "otsardb_segment_enc_parse_json (bytes_of_string json) = Some e"
      "hash = otsardb_sha256_hex_data (pe_sha env) (bytes_of_string json)"
      "\<forall>j<length segs. segment_encrypted e j \<longleftrightarrow> snd (segs ! j) \<noteq> None" by blast
  have sha: "re_sha renv = pe_sha env" "length (pe_sha env x) = 32" for x using env by (auto simp: env_matches_def)
  have len: "length hash = 64"
    using e(3) sha256_provider.hex_length [of "pe_sha env"] sha(2) by (simp add: sha256_provider_def)
  have h: "hd_commit_key h = ?key" "hd_commit_sha256 h = hash"
    using st'(4,5) len by (simp_all add: request_head_def SHA256_HEX_MAX_def)
  have "manifest_object (re_sha renv) contents (hd_commit_key h) (Some (hd_commit_sha256 h)) = Some (?m, e)"
    using st'(3) e sha by (auto simp: manifest_object_def h holds_data_def require_def)
  then show ?thesis using h e(4) len by (auto simp: MANIFEST_SHA256_HEX_SIZE_def)
qed

section \<open>The history below HEAD\<close>

text \<open>
  The chain of the given head and the image it gives; without a head there is neither.  No manifest of the
  chain refers to HEAD as a segment, so that moving HEAD changes nothing below it.
\<close>

definition history ::
  "recovery_env \<Rightarrow> (string \<rightharpoonup> store_object) \<Rightarrow> string \<Rightarrow> cipher option \<Rightarrow> db_metadata \<Rightarrow> head option \<Rightarrow> bytes option \<Rightarrow> bool" where
  "history env contents root cipher meta parent img \<longleftrightarrow>
     (case parent of
        None \<Rightarrow> img = None
      | Some h \<Rightarrow>
          hd_commit_key h = join_root root (commit_name (hd_commit_id h)) \<and> length (hd_commit_key h) \<le> KEY_MAX \<and>
          (\<exists>es. chain_list (re_sha env) contents root meta 0 (head_pos h) es \<and>
             chain_image env contents root cipher es None = Some img \<and>
             (\<forall>(k, m, enc)\<in>set es. \<forall>ref\<in>set (cm_segments m). segment_object_key root m ref \<noteq> Some (head_key root))))"

lemma parent_key: "parent_pos root m = Some q \<Longrightarrow> pos_key q \<noteq> head_key root"
  using segment_suffix_not_head(2) by (auto simp: parent_pos_def Let_def build_manifest_key_def split: option.splits)

lemma chain_step_parent: "chain_step root stop m = CHAIN_PARENT q \<Longrightarrow> parent_pos root m = Some q"
  by (auto simp: chain_step_def split: if_splits option.splits)

lemma manifest_object_keep:
  "manifest_object sha a k e = Some x \<Longrightarrow> k \<noteq> head_key root \<Longrightarrow> keeps_objects root a b \<Longrightarrow> manifest_object sha b k e = Some x"
  by (auto simp: manifest_object_def keeps_objects_def bind_eq_Some_conv)

lemma chain_list_keep:
  assumes "chain_list sha a root meta stop p es" "pos_key p \<noteq> head_key root" "keeps_objects root a b"
  shows "chain_list sha b root meta stop p es"
  using assms
proof induction
  case (chain_last p m enc)
  then show ?case using manifest_object_keep chain_list.chain_last by blast
next
  case (chain_more p m enc q es)
  have "chain_list sha b root meta stop q es"
    using chain_more parent_key [OF chain_step_parent [OF chain_more(4)]] by blast
  then show ?case using chain_more manifest_object_keep chain_list.chain_more by blast
qed

lemma segments_image_keep:
  assumes "segments_image env a root m enc cipher refs i f = Some f'" "keeps_objects root a b"
    "\<forall>ref\<in>set refs. segment_object_key root m ref \<noteq> Some (head_key root)"
  shows "segments_image env b root m enc cipher refs i f = Some f'"
  using assms
proof (induction refs arbitrary: i f)
  case (Cons ref refs)
  then obtain key ob where "segment_object_key root m ref = Some key" "a key = Some ob"
    by (auto simp: bind_eq_Some_conv)
  with Cons show ?case by (auto simp: bind_eq_Some_conv keeps_objects_def)
qed simp

lemma chain_image_keep:
  assumes "chain_image env a root cipher es f = Some f'" "keeps_objects root a b"
    "\<forall>(k, m, enc)\<in>set es. \<forall>ref\<in>set (cm_segments m). segment_object_key root m ref \<noteq> Some (head_key root)"
  shows "chain_image env b root cipher es f = Some f'"
  using assms
proof (induction es arbitrary: f')
  case (Cons e es)
  obtain k m enc where e: "e = (k, m, enc)" by (cases e)
  from Cons.prems(1) obtain f1 where f1: "chain_image env a root cipher es f = Some f1"
    "segments_image env a root m enc cipher (cm_segments m) 0 f1 = Some f'" by (auto simp: e bind_eq_Some_conv)
  have "segments_image env b root m enc cipher (cm_segments m) 0 f1 = Some f'"
    by (rule segments_image_keep [OF f1(2) Cons.prems(2)]) (use Cons.prems(3) e in simp)
  then show ?case using Cons.IH [OF f1(1) Cons.prems(2)] Cons.prems(3) by (simp add: e)
qed simp

lemma history_keep:
  assumes "history env a root cipher meta parent img" "keeps_objects root a b"
  shows "history env b root cipher meta parent img"
proof (cases parent)
  case (Some h)
  then have k: "hd_commit_key h = join_root root (commit_name (hd_commit_id h))" "length (hd_commit_key h) \<le> KEY_MAX"
    using assms(1) unfolding history_def by auto
  have "pos_key (head_pos h) \<noteq> head_key root"
    using k(2) segment_suffix_not_head(2) [of root "hd_commit_id h"] by (simp add: head_pos_def flip: k(1))
  moreover obtain es where es: "chain_list (re_sha env) a root meta 0 (head_pos h) es"
    "chain_image env a root cipher es None = Some img"
    "\<forall>(k, m, enc)\<in>set es. \<forall>ref\<in>set (cm_segments m). segment_object_key root m ref \<noteq> Some (head_key root)"
    using assms(1) [unfolded history_def Some option.case] by blast
  ultimately have "chain_list (re_sha env) b root meta 0 (head_pos h) es" "chain_image env b root cipher es None = Some img"
    using chain_list_keep [OF es(1) _ assms(2)] chain_image_keep [OF es(2) assms(2) es(3)] by simp_all
  then show ?thesis using k es(3) unfolding history_def Some option.case by blast
qed (use assms in \<open>simp add: history_def\<close>)

text \<open>A request that continues a history.\<close>

definition request_extends :: "db_metadata \<Rightarrow> commit_request \<Rightarrow> head option \<Rightarrow> bool" where
  "request_extends meta rq parent \<longleftrightarrow>
     rq_database_id rq = dm_database_id meta \<and> rq_page_size rq = dm_page_size meta \<and>
     unat (rq_parent_generation rq) < RECOVERY_MAX_COMMITS \<and>
     (case parent of
        None \<Rightarrow> rq_create_head_if_missing rq
      | Some h \<Rightarrow> \<not> rq_create_head_if_missing rq \<and> rq_parent_generation rq = hd_generation h \<and>
          rq_parent_commit_id rq = Some (hd_commit_id h) \<and> rq_parent_manifest_sha256 rq = Some (hd_commit_sha256 h))"

lemma extends_step:
  assumes "request_extends meta rq parent" "request_valid rq (Some inputs)"
    "history env contents (rq_database_root rq) cipher meta parent img"
  shows "chain_step (rq_database_root rq) 0 (request_manifest rq refs) =
    (case parent of None \<Rightarrow> CHAIN_END | Some h \<Rightarrow> CHAIN_PARENT (head_pos h))"
proof (cases parent)
  case None
  then show ?thesis
    using assms(1,2) by (auto simp: chain_step_def request_manifest_def request_extends_def request_valid_def
        valid_parent_request_def string_or_empty_def)
next
  case (Some h)
  then have p: "rq_parent_generation rq = hd_generation h" "rq_parent_commit_id rq = Some (hd_commit_id h)"
    "rq_parent_manifest_sha256 rq = Some (hd_commit_sha256 h)" "\<not> rq_create_head_if_missing rq"
    using assms(1) by (auto simp: request_extends_def)
  then have v: "hd_generation h \<noteq> 0" "hd_commit_id h \<noteq> []" "length (hd_commit_sha256 h) = MANIFEST_SHA256_HEX_SIZE"
    "length (hd_commit_id h) \<le> COMMIT_ID_MAX"
    using assms(2) by (auto simp: request_valid_def valid_parent_request_def string_or_empty_def)
  have k: "hd_commit_key h = join_root (rq_database_root rq) (commit_name (hd_commit_id h))" "length (hd_commit_key h) \<le> KEY_MAX"
    using assms(3) Some by (auto simp: history_def)
  have b: "build_manifest_key (rq_database_root rq) (hd_commit_id h) (KEY_MAX + 1) = Some (hd_commit_key h)"
  proof -
    have "snprintf_fits (commit_name (hd_commit_id h)) (KEY_MAX + 1) = Some (commit_name (hd_commit_id h))"
      using v(4) by (simp add: COMMIT_ID_MAX_def KEY_MAX_def commit_name_def)
    moreover have "hd_commit_key h \<noteq> []" by (simp add: k(1) join_root_def commit_name_def)
    ultimately show ?thesis
      using k by (simp add: build_manifest_key_def del: snprintf_fits_Some)
  qed
  have m: "cm_parent_generation (request_manifest rq refs) = hd_generation h"
    "cm_parent_commit_id (request_manifest rq refs) = hd_commit_id h"
    "cm_parent_manifest_sha256 (request_manifest rq refs) = hd_commit_sha256 h"
    "cm_format_version (request_manifest rq refs) \<ge> 2"
    using p v by (simp_all add: request_manifest_def string_or_empty_def COMMIT_MANIFEST_VERSION_def
        COMMIT_ID_MAX_def MANIFEST_ID_MAX_def)
  then have "parent_pos (rq_database_root rq) (request_manifest rq refs) = Some (head_pos h)"
    using b v k by (simp add: parent_pos_def head_pos_def Let_def)
  then show ?thesis using Some m v by (simp add: chain_step_def)
qed

lemma segment_stored_key: "segment_stored env rq contents i input s \<Longrightarrow> \<exists>k. sg_key (fst s) = segment_suffix k"
  by (auto simp: segment_stored_def)

lemma stored_refs_not_head:
  assumes "segments_stored env rq contents i inputs segs" "ref \<in> set (map fst segs)" "cm_format_version m \<ge> 3"
  shows "segment_object_key root m ref \<noteq> Some (head_key root)"
proof -
  have "list_all (\<lambda>s. \<exists>k. sg_key (fst s) = segment_suffix k) segs"
    by (rule conjunct1 [OF segments_stored_all [OF assms(1)]]) (rule segment_stored_key)
  then obtain k where "sg_key ref = segment_suffix k" using assms(2) by (auto simp: list_all_iff)
  then show ?thesis using assms(3) segment_suffix_not_head(1) [of root k] by (auto simp: segment_object_key_def)
qed

lemma history_extended:
  assumes st: "commit_stored env rq contents inputs segs json h" and env: "env_matches env rq renv cipher"
    and plain: "request_plain rq inputs" and payload: "\<forall>input\<in>set inputs. batch_payload (si_payload input)"
    and valid: "request_valid rq (Some inputs)" and ext: "request_extends meta rq parent"
    and hist: "history renv contents (rq_database_root rq) cipher meta parent img"
    and img: "apply_payloads (map si_payload inputs) img = Some img'"
  shows "history renv contents (rq_database_root rq) cipher meta (Some h) img' \<and> recovery_head_ok meta h \<and>
    (\<exists>enc. manifest_object (re_sha renv) contents (hd_commit_key h) (Some (hd_commit_sha256 h)) =
       Some (request_manifest rq (map fst segs), enc))"
proof -
  let ?root = "rq_database_root rq" and ?m = "request_manifest rq (map fst segs)"
  have cid: "rq_commit_id rq \<noteq> []" "length (rq_commit_id rq) \<le> COMMIT_ID_MAX" "length (rq_database_id rq) \<le> COMMIT_ID_MAX"
    using valid by (auto simp: request_valid_def)
  obtain enc where key: "hd_commit_key h = join_root ?root (commit_name (rq_commit_id rq))"
    and len: "length (hd_commit_sha256 h) = MANIFEST_SHA256_HEX_SIZE"
    and at: "manifest_object (re_sha renv) contents (hd_commit_key h) (Some (hd_commit_sha256 h)) = Some (?m, enc)"
    and es: "\<forall>j<length segs. segment_encrypted enc j \<longleftrightarrow> snd (segs ! j) \<noteq> None"
    using published_manifest [OF st env plain payload cid(1,2)] by blast
  obtain hash where st': "segments_stored env rq contents 0 inputs segs" "length (hd_commit_key h) \<le> KEY_MAX"
    "h = request_head rq (hd_commit_key h) hash"
    using st by (auto simp: commit_stored_def Let_def key)
  have h: "hd_commit_id h = rq_commit_id rq" "hd_database_id h = rq_database_id rq" "hd_generation h = rq_parent_generation rq + 1"
    using cid by (subst st'(3), simp add: request_head_def)+
  have nz: "1 + rq_parent_generation rq \<noteq> 0"
  proof
    assume "1 + rq_parent_generation rq = 0"
    then have "rq_parent_generation rq = - 1" by (metis add.commute eq_neg_iff_add_eq_0)
    then show False using ext by (simp add: request_extends_def RECOVERY_MAX_COMMITS_def unsigned_minus_1_eq_mask mask_eq_exp_minus_1)
  qed
  have gen: "unat (hd_generation h) = unat (rq_parent_generation rq) + 1" using unatSuc [OF nz] by (simp add: h(3) add.commute)
  have hok: "recovery_head_ok meta h"
    using ext len gen h by (auto simp: recovery_head_ok_def request_extends_def)
  have pos: "pos_key (head_pos h) = hd_commit_key h" "pos_sha256 (head_pos h) = hd_commit_sha256 h"
    "pos_commit_id (head_pos h) = hd_commit_id h" "pos_generation (head_pos h) = hd_generation h"
    using st'(2) len cid(2) h by (simp_all add: head_pos_def)
  have ok: "chain_manifest_ok meta (head_pos h) ?m"
    using ext h cid by (simp add: chain_manifest_ok_def pos request_manifest_def request_extends_def MANIFEST_ID_MAX_def COMMIT_ID_MAX_def)
  have new: "segments_image renv contents ?root ?m enc cipher (cm_segments ?m) 0 img = Some img'"
    using published_segments_image [OF st'(1) env payload cid(1,2), of enc "map fst segs" img] es img
    by (simp add: request_manifest_def)
  have g: "pos_generation (head_pos h) > 0" using gen by (simp add: pos word_less_nat_alt)
  have refs: "\<forall>ref\<in>set (cm_segments ?m). segment_object_key ?root ?m ref \<noteq> Some (head_key ?root)"
    using stored_refs_not_head [OF st'(1)] by (auto simp: request_manifest_def COMMIT_MANIFEST_VERSION_def)
  note step = extends_step [OF ext valid hist, of "map fst segs"] and at' = at [folded pos(1,2)]
  have "\<exists>es. chain_list (re_sha renv) contents ?root meta 0 (head_pos h) es \<and>
      chain_image renv contents ?root cipher es None = Some img' \<and>
      (\<forall>(k, m, enc)\<in>set es. \<forall>ref\<in>set (cm_segments m). segment_object_key ?root m ref \<noteq> Some (head_key ?root))"
  proof (cases parent)
    case None
    have "chain_list (re_sha renv) contents ?root meta 0 (head_pos h) [(pos_key (head_pos h), ?m, enc)]"
      by (rule chain_list.chain_last [OF g at' ok]) (simp add: step None)
    moreover have "img = None" using hist None by (simp add: history_def)
    ultimately show ?thesis using new refs by (intro exI [of _ "[(pos_key (head_pos h), ?m, enc)]"]) simp
  next
    case (Some h0)
    obtain es0 where es0: "chain_list (re_sha renv) contents ?root meta 0 (head_pos h0) es0"
      "chain_image renv contents ?root cipher es0 None = Some img"
      "\<forall>(k, m, enc)\<in>set es0. \<forall>ref\<in>set (cm_segments m). segment_object_key ?root m ref \<noteq> Some (head_key ?root)"
      using hist [unfolded history_def Some option.case] by blast
    have "chain_list (re_sha renv) contents ?root meta 0 (head_pos h) ((pos_key (head_pos h), ?m, enc) # es0)"
      by (rule chain_list.chain_more [OF g at' ok _ es0(1)]) (simp add: step Some)
    then show ?thesis using es0 new refs by (intro exI [of _ "(pos_key (head_pos h), ?m, enc) # es0"]) simp
  qed
  then show ?thesis using hok at st'(2) key h(1) unfolding history_def option.case by auto
qed

text \<open>The image of a history can be restored once its head is readable and its checksum fits.\<close>

lemma published_head_readable:
  assumes st: "commit_stored env rq contents inputs segs json h" and env: "env_matches env rq renv cipher"
    and plain: "request_plain rq inputs" and payload: "\<forall>input\<in>set inputs. batch_payload (si_payload input)"
    and valid: "request_valid rq (Some inputs)"
    and etag: "\<And>ob. contents (head_key (rq_database_root rq)) = Some ob \<Longrightarrow> \<exists>e. so_etag ob = Some e \<and> e \<noteq> []"
  shows "readable_head contents (rq_database_root rq) h"
proof -
  let ?root = "rq_database_root rq"
  have cid: "rq_commit_id rq \<noteq> []" "length (rq_commit_id rq) \<le> COMMIT_ID_MAX" "length (rq_database_id rq) \<le> COMMIT_ID_MAX"
    using valid by (auto simp: request_valid_def)
  have key: "hd_commit_key h = join_root ?root (commit_name (rq_commit_id rq))"
    and len: "length (hd_commit_sha256 h) = MANIFEST_SHA256_HEX_SIZE"
    and at: "\<exists>m. manifest_object (re_sha renv) contents (hd_commit_key h) (Some (hd_commit_sha256 h)) = Some m"
    using published_manifest [OF st env plain payload cid(1,2)] by blast+
  obtain hash where st': "length (hd_commit_key h) \<le> KEY_MAX" "h = request_head rq (hd_commit_key h) hash"
    "holds_data contents (head_key ?root) (bytes_of_string (otsardb_head_encode_json h))"
    using st by (auto simp: commit_stored_def Let_def key)
  have h: "hd_commit_id h = rq_commit_id rq" "hd_database_id h = rq_database_id rq" "hd_format_version h = 1"
    using cid by (subst st'(2), simp add: request_head_def)+
  obtain d where "otsardb_sha256_hex d = hd_commit_sha256 h"
    using at len by (auto simp: manifest_object_def bind_eq_Some_conv require_Some otsardb_sha256_hex_data_def MANIFEST_SHA256_HEX_SIZE_def)
  then have sha: "plain_string (hd_commit_sha256 h)" using sha256_hex_plain by metis
  have "plain_string (hd_commit_key h)"
    using plain unfolding key by (auto simp: request_plain_def plain_string_def join_root_def commit_name_def)
  then have "head_wf h"
    using h cid plain sha len st'(1) by (simp add: head_wf_def request_plain_def MANIFEST_SHA256_HEX_SIZE_def SHA256_HEX_MAX_def)
  moreover have "length (head_key ?root) \<le> KEY_MAX"
    using st'(1) unfolding key by (simp add: head_key_def join_root_def commit_name_def split: if_splits)
  ultimately show ?thesis
    using st'(3) etag head_decode_encode [of h] by (auto simp: readable_head_def holds_data_def)
qed

lemma history_intact:
  assumes "history env contents root cipher meta (Some h) img" "recovery_head_ok meta h" "readable_head contents root h"
    "readable_metadata contents root meta" "root \<noteq> []"
    "manifest_object (re_sha env) contents (hd_commit_key h) (Some (hd_commit_sha256 h)) = Some (m, enc)"
    "validate_file_against_manifest_checksum img (cm_page_size m) (cm_database_size_pages m) (cm_post_apply_checksum m)"
  shows "intact env contents root cipher meta h img"
proof -
  have "hd_commit_sha256 h \<noteq> []" using assms(2) by (auto simp: recovery_head_ok_def MANIFEST_SHA256_HEX_SIZE_def)
  then have "head_checksum_ok (re_sha env) contents h img"
    using assms(6,7) by (auto simp: head_checksum_ok_def manifest_object_def bind_eq_Some_conv require_Some)
  then show ?thesis using assms(1-5) unfolding intact_def history_def option.case by blast
qed

lemma readable_metadata_keep:
  assumes "readable_metadata a root meta" "keeps_objects root a b"
  shows "readable_metadata b root meta"
proof -
  have "metadata_key root \<noteq> head_key root" by (simp add: metadata_key_def head_key_def)
  then show ?thesis using assms by (auto simp: readable_metadata_def stored_metadata_def keeps_objects_def split: option.splits)
qed

text \<open>A head has one history.\<close>

lemma chain_list_unique:
  assumes "chain_list sha contents root meta stop p es" "chain_list sha contents root meta stop p es'"
  shows "es = es'"
  using assms
proof (induction arbitrary: es')
  case (chain_last p m enc)
  from chain_last.prems show ?case by (cases rule: chain_list.cases) (use chain_last.hyps in simp_all)
next
  case (chain_more p m enc q es)
  from chain_more.prems show ?case by (cases rule: chain_list.cases) (use chain_more.hyps(2,4) chain_more.IH in simp_all)
qed

lemma history_unique:
  "history env contents root cipher meta p img \<Longrightarrow> history env contents root cipher meta p img' \<Longrightarrow> img = img'"
  using chain_list_unique unfolding history_def by (cases p) (auto, fastforce)

end
