(* ===== verification/Sample_Database.thy ===== *)
theory Sample_Database
  imports Database_History
begin

text \<open>
  A small database in the in-memory store of the tests: its metadata and one commit with one page.  The
  theorems on recovery and on concurrent writers are applied to it.
\<close>

section \<open>The store\<close>

text \<open>A database with its metadata, and one writer that makes the first commit: one page of sevens.\<close>

definition demo_payload :: bytes where
  "demo_payload = wal_batch_header 512 1 1 @ wal_batch_record 512 [1] (replicate 512 7) 0"

definition demo_checksum :: string where
  "demo_checksum = otsardb_checksum_hex (otsardb_checksum_file (Some (replicate 512 7)) 512 1)"

definition demo_request :: commit_request where
  "demo_request = sample_request\<lparr>rq_segment_payload := Some demo_payload, rq_post_apply_checksum := Some demo_checksum\<rparr>"

definition demo_env :: publish_env where
  "demo_env = sample_env\<lparr>pe_lz4c := sample_lz4c, pe_gcm := pure_enc\<rparr>"

definition demo_recovery :: recovery_env where
  "demo_recovery = \<lparr>re_sha = pe_sha sample_env, re_lz4d = sample_lz4d, re_gdec = pure_dec\<rparr>"

definition demo_metadata :: db_metadata where
  "demo_metadata = \<lparr>dm_format_version = 1, dm_page_size = 512, dm_database_id = ''d1''\<rparr>"

definition demo_object :: bytes where
  "demo_object = fst (the (otsardb_segment_encode_with_frames (pe_sha demo_env) sample_lz4c segment_wal_frames ''c1'' demo_payload True))"

definition demo_ref :: manifest_segment_ref where
  "demo_ref = sample_ref\<lparr>sg_size := of_nat (length demo_object)\<rparr>"

definition demo_json :: string where
  "demo_json = manifest_document (request_manifest demo_request [demo_ref])"

definition demo_head :: head where
  "demo_head = request_head demo_request ''db/commits/c1.json'' sample_hash"

definition demo_memory :: memory_store where
  "demo_memory = \<lparr>ms_entries =
     [\<lparr>me_key = ''db/db.json'', me_data = bytes_of_string (the (otsardb_db_metadata_encode_json demo_metadata)),
       me_version = 1, me_last_modified = 0\<rparr>,
      \<lparr>me_key = ''db/'' @ segment_suffix sample_hash, me_data = demo_object, me_version = 2, me_last_modified = 0\<rparr>,
      \<lparr>me_key = ''db/commits/c1.json'', me_data = bytes_of_string demo_json, me_version = 3, me_last_modified = 0\<rparr>,
      \<lparr>me_key = ''db/HEAD.json'', me_data = bytes_of_string (otsardb_head_encode_json demo_head),
       me_version = 4, me_last_modified = 0\<rparr>],
     ms_next_version = 4, ms_supported = memory_capabilities, ms_clock = 0\<rparr>"

text \<open>The same store after the first \<open>n\<close> writes.\<close>

definition demo_after :: "nat \<Rightarrow> memory_store" where
  "demo_after n = demo_memory\<lparr>ms_entries := take n (ms_entries demo_memory), ms_next_version := of_nat n\<rparr>"

lemma demo_checksum_ok:
  "length demo_checksum = 16" "demo_checksum \<noteq> []" "list_all is_hex_digit demo_checksum"
  "validate_file_against_manifest_checksum (Some (replicate 512 7)) 512 1 demo_checksum"
proof -
  show len: "length demo_checksum = 16" by (simp add: demo_checksum_def)
  then show ne: "demo_checksum \<noteq> []" by auto
  have "is_hex_digit (hex_digits ! n)" if "n < 16" for n
  proof -
    have "n \<in> {0, 1, 2, 3, 4, 5, 6, 7, 8, 9, 10, 11, 12, 13, 14, 15}" using that by (simp; presburger)
    then show ?thesis by (auto simp: is_hex_digit_def hex_digits_def)
  qed
  then have "list_all is_hex_digit (nibbles n v)" for n v by (induction n) (simp_all add: unat_nibble)
  then show "list_all is_hex_digit demo_checksum"
    by (simp add: demo_checksum_def otsardb_checksum_hex_def checksum_hex_size_def checksum_hex_loop_nibbles del: nibbles.simps)
  show "validate_file_against_manifest_checksum (Some (replicate 512 7)) 512 1 demo_checksum"
    using ne by (simp add: validate_file_against_manifest_checksum_def demo_checksum_def parse_checksum_hex)
qed

lemma demo_batch: "otsardb_wal_batch_encode 512 1 [1] (replicate 512 7) 1 = Some demo_payload"
  by (simp add: demo_payload_def wal_batch_encode_eq valid_page_size_def size_max_def wal_batch_header_size_def
      wal_batch_frame_header_size_def)

lemma demo_batch_payload: "batch_payload demo_payload"
  unfolding batch_payload_def
  by (intro exI conjI, rule demo_batch) (simp_all add: segment_max_decompressed_def wal_batch_header_size_def
      wal_batch_frame_header_size_def)

lemma demo_hash: "otsardb_sha256_hex_data (pe_sha demo_env) d = sample_hash"
  using sample_hash_eq by (simp add: demo_env_def)

lemma demo_encode:
  "\<exists>info. otsardb_segment_encode_with_frames (pe_sha demo_env) sample_lz4c segment_wal_frames ''c1'' demo_payload True =
     Some (demo_object, sample_hash, info)"
proof -
  have "\<forall>x. length (pe_sha demo_env x) = 32" by (simp add: demo_env_def sample_env_def)
  then obtain obj hex info where
    e: "otsardb_segment_encode_with_frames (pe_sha demo_env) sample_lz4c segment_wal_frames ''c1'' demo_payload True =
      Some (obj, hex, info)"
    using segment_v3_stored [OF demo_batch _ _ _ _ sample_lz4_inverse, of "pe_sha demo_env" "''c1''" True]
    by (fastforce simp: segment_commit_id_max_def segment_max_decompressed_def wal_batch_header_size_def
      wal_batch_frame_header_size_def)
  have "hex = sample_hash" using encode_with_frames_hash [OF e] by (simp add: demo_hash)
  then show ?thesis using e by (simp add: demo_object_def)
qed

lemma demo_object_size: "of_nat (length demo_object) \<noteq> (0 :: u64)"
proof -
  obtain info where e: "otsardb_segment_encode_with_frames (pe_sha demo_env) sample_lz4c segment_wal_frames ''c1'' demo_payload True =
      Some (demo_object, sample_hash, info)" using demo_encode by blast
  have "\<forall>x. length (pe_sha demo_env x) = 32" by (simp add: demo_env_def sample_env_def)
  then obtain v where v: "otsardb_segment_decode (pe_sha demo_env) demo_object = Some v"
    using batch_segment [OF demo_batch_payload _ sample_lz4_inverse _ _ e] by (auto simp: segment_commit_id_max_def)
  then have "demo_object \<noteq> []" by (auto simp: otsardb_segment_decode_def segment_header_size_def)
  then show ?thesis using of_nat_u64_size [OF segment_decode_size [OF v]] by auto
qed

lemma demo_segment:
  "\<exists>info. segment_bytes demo_env demo_request i \<lparr>si_payload = demo_payload, si_pages = None\<rparr> =
     Some (demo_object, sample_hash, sample_hash, info, None)"
  using demo_encode
  by (auto simp: segment_bytes_def request_cipher_def demo_request_def sample_request_def) (simp add: demo_env_def sample_env_def)

lemma demo_manifest_ok:
  "manifest_bytes demo_env demo_request [(demo_ref, None)] = Some (demo_json, sample_hash)"
proof -
  let ?m = "request_manifest demo_request [demo_ref]"
  have valid: "manifest_valid ?m"
    using demo_object_size
    by (simp add: manifest_valid_def request_manifest_def demo_request_def sample_request_def demo_ref_def sample_ref_def format_allowed_def
        COMMIT_MANIFEST_VERSION_def string_or_empty_def MANIFEST_ID_MAX_def sample_hash_def
      manifest_parent_is_valid_def manifest_segments_valid_def manifest_segment_valid_def MANIFEST_MAX_SEGMENTS_def
      MANIFEST_SHA256_HEX_SIZE_def pages_list_valid_def frame_offsets_valid_def segment_suffix_def demo_checksum_ok)
  have d: "length (dec n) \<le> 20" if "n < 10 ^ 20" for n using length_dec_le [of n 19] that by simp
  have u: "unat (x :: u64) < 10 ^ 20" for x using unsigned_less [where ?'a = nat, of x] by simp
  have "length (manifest_document ?m) \<le> int_max"
    using d [of 1] d [of 4] d [of 0] d [of 512] d [OF u, of "of_nat (length demo_object)"]
    by (simp add: manifest_document_def manifest_list_text_def manifest_header_def manifest_trailer_def
        request_manifest_def demo_request_def sample_request_def demo_ref_def sample_ref_def COMMIT_MANIFEST_VERSION_def string_or_empty_def
        MANIFEST_ID_MAX_def sample_hash_def segment_suffix_def
        segment_text_def segment_head_def segment_offsets_def array_text_def json_u64_def json_str_def pattern_defs
        segments_marker_def int_max_def demo_checksum_ok)
  with valid show ?thesis
    by (simp add: manifest_bytes_def otsardb_commit_manifest_encode_json_def manifest_text_exact demo_hash demo_json_def)
qed

lemma demo_request_valid:
  "resolve_segment_inputs demo_request = Some [\<lparr>si_payload = demo_payload, si_pages = None\<rparr>]"
  "request_valid demo_request (Some [\<lparr>si_payload = demo_payload, si_pages = None\<rparr>])"
  "strategy_check (memory_object_store memory_capabilities) w demo_request = (JOURNAL_OK, w)"
proof -
  have "demo_payload \<noteq> []" by (simp add: demo_payload_def wal_batch_header_def wal_batch_magic_def)
  then show "resolve_segment_inputs demo_request = Some [\<lparr>si_payload = demo_payload, si_pages = None\<rparr>]"
    "request_valid demo_request (Some [\<lparr>si_payload = demo_payload, si_pages = None\<rparr>])"
    "strategy_check (memory_object_store memory_capabilities) w demo_request = (JOURNAL_OK, w)"
  by (simp_all add: resolve_segment_inputs_def request_valid_def demo_request_def sample_request_def valid_parent_request_def
      string_or_empty_def MANIFEST_MAX_SEGMENTS_def COMMIT_ID_MAX_def strategy_check_def effective_strategy_def memory_eval)
qed

lemma demo_publish_ok:
  "\<exists>r. otsardb_publish_commit demo_env (memory_object_store memory_capabilities) (demo_after 1) demo_request =
     (JOURNAL_OK, Some r, demo_memory)"
proof -
  let ?store = "memory_object_store memory_capabilities"
  have len: "length (segment_suffix sample_hash) = 90" "segment_suffix sample_hash \<noteq> []"
    by (simp_all add: segment_suffix_def sample_hash_def)
  have k: "segment_suffix sample_hash \<noteq> ''commits/c1.json''" "segment_suffix sample_hash \<noteq> ''HEAD.json''"
    "segment_suffix sample_hash \<noteq> ''db.json''" by (simp_all add: segment_suffix_def)
  have j: "join_root ''db'' n = ''db/'' @ n" "rq_database_root demo_request = ''db''" "rq_commit_id demo_request = ''c1''" for n
    by (simp_all add: join_root_def demo_request_def sample_request_def)
  have p1: "immutable_put ?store (demo_after 1) (''db/'' @ segment_suffix sample_hash) demo_object = (JOURNAL_OK, demo_after 2)"
    by (simp add: immutable_put_def memory_eval demo_after_def demo_memory_def Let_def k k [symmetric])
  have p2: "immutable_put ?store (demo_after 2) ''db/commits/c1.json'' (bytes_of_string demo_json) = (JOURNAL_OK, demo_after 3)"
    by (simp add: immutable_put_def memory_eval demo_after_def demo_memory_def Let_def k)
  have p3: "publish_head_step ?store (demo_after 3) demo_request demo_head = (JOURNAL_OK, Some (make_etag 4), demo_memory)"
    by (simp add: publish_head_step_def otsardb_journal_publish_head_def publish_head_json_def build_head_key_def
        snprintf_fits_def join_root_def KEY_MAX_def effective_strategy_def)
     (simp add: demo_request_def sample_request_def demo_after_def demo_memory_def memory_eval k Let_def)
  have s: "publish_segments demo_env ?store (demo_after 1) demo_request 0 [\<lparr>si_payload = demo_payload, si_pages = None\<rparr>] =
      (Inr [(demo_ref, None)], demo_after 2)"
    using demo_segment [of 0] p1 len
    by (auto simp: publish_segment_def root_join_def snprintf_fits_def j KEY_MAX_def)
      (simp_all add: MANIFEST_SEGMENT_KEY_MAX_def demo_ref_def sample_ref_def recorded_offsets_def)
  have "\<exists>r. publish_manifest demo_env ?store (demo_after 2) demo_request [(demo_ref, None)] = (JOURNAL_OK, Some r, demo_memory)"
    using p2 p3 [unfolded demo_head_def] by (simp add: publish_manifest_def demo_manifest_ok root_join_def snprintf_fits_def KEY_MAX_def
        commit_name_def j string_or_empty_def)
  then show ?thesis
    using s by (simp add: otsardb_publish_commit_def demo_request_valid valid_segment_input_def Let_def)
qed

lemma demo_frames: "batch_frames (encoded_view 512 1 1 demo_payload) = [(1, replicate 512 7)]"
proof -
  have l: "length (replicate 512 (7 :: byte)) = unat (1 :: u32) * unat (512 :: u32)" by simp
  have "wal_batch_frames (encoded_view 512 1 1 demo_payload) = [(1, replicate 512 7)]"
    using wal_batch_encode_frame [OF demo_batch l, of 0] by (simp add: wal_batch_frames_def mem_slice_def)
  then show ?thesis using encoded_frames(2) [OF demo_batch l] by simp
qed

lemma demo_applied: "apply_payloads [demo_payload] None = Some (Some (replicate 512 7))"
proof -
  have l: "length (replicate 512 (7 :: byte)) = unat (1 :: u32) * unat (512 :: u32)" by simp
  have "otsardb_recovery_apply_wal_batch_file demo_payload None = (True, Some (replicate 512 7))"
    unfolding apply_batch_cases [OF wal_batch_encode_view [OF demo_batch l]]
    using encoded_frames(1) [OF demo_batch l]
    by (simp add: demo_frames write_frame_def write_at_def ftruncate_def file_bytes_def int64_max_def)
  then show ?thesis by simp
qed

lemma demo_start:
  "memory_valid (demo_after 1)" "memory_objs (demo_after 1) (head_key ''db'') = None"
  "readable_metadata (memory_objs (demo_after 1)) ''db'' demo_metadata"
proof -
  show "memory_valid (demo_after 1)" by (simp add: memory_valid_def demo_after_def demo_memory_def)
  show "memory_objs (demo_after 1) (head_key ''db'') = None"
    by (simp add: memory_objs_def find_entry_def demo_after_def demo_memory_def head_key_def join_root_def)
  have "metadata_wf demo_metadata" by (simp add: metadata_wf_def demo_metadata_def plain_string_def DATABASE_ID_MAX_def)
  then have "otsardb_db_metadata_decode_json (bytes_of_string (the (otsardb_db_metadata_encode_json demo_metadata))) =
      Some demo_metadata"
    by (rule metadata_decode_encode) (simp add: otsardb_db_metadata_encode_json_def demo_metadata_def)
  then show "readable_metadata (memory_objs (demo_after 1)) ''db'' demo_metadata"
    by (simp add: readable_metadata_def stored_metadata_def metadata_key_def join_root_def METADATA_KEY_MAX_def memory_objs_def
        find_entry_def demo_after_def demo_memory_def)
qed

lemma demo_no_checkpoint:
  "memory_objs demo_memory (checkpoint_key ''db'') = None \<and>
   (\<forall>name. memory_objs demo_memory (join_root ''db'' (''checkpoints/'' @ name)) = None)"
  by (simp add: memory_objs_def find_entry_def demo_memory_def checkpoint_key_def join_root_def segment_suffix_def)

end
