(* ===== verification/Writers.thy ===== *)
theory Writers
  imports Sample_Database
begin

text \<open>
  Several writers on one database.  Any number of writers read HEAD and publish commits, in any order, on a
  store whose calls may fail.  The commits form one line: each was made on the state that the one
  before it left, and the image of the database is what all of them, in their order, make of an empty file.
\<close>

section \<open>Runs\<close>

text \<open>The image that a log of commits gives, the newest commit first; a commit is the list of its batches.\<close>

primrec log_image :: "bytes list list \<Rightarrow> bytes option option" where
  "log_image [] = Some None"
| "log_image (payloads # log) = Option.bind (log_image log) (apply_payloads payloads)"

text \<open>What a writer knows: the HEAD it has read, the etag of that version, and the log behind it.\<close>

type_synonym session = "(head \<times> string \<times> bytes list list) option"

definition session_log :: "session \<Rightarrow> bytes list list" where
  "session_log s = (case s of None \<Rightarrow> [] | Some (h, e, log) \<Rightarrow> log)"

text \<open>A request that a writer makes of what it knows, with the compare-and-swap strategy.\<close>

definition writer_request ::
  "recovery_env \<Rightarrow> string \<Rightarrow> cipher option \<Rightarrow> db_metadata \<Rightarrow> session \<Rightarrow> publish_env \<Rightarrow> commit_request \<Rightarrow> bytes list \<Rightarrow> bool" where
  "writer_request renv root cipher meta s env rq payloads \<longleftrightarrow>
     rq_database_root rq = root \<and> effective_strategy rq = STRATEGY_CAS \<and> env_matches env rq renv cipher \<and>
     rq_expected_head_etag rq = map_option (fst \<circ> snd) s \<and> request_extends meta rq (map_option fst s) \<and>
     (\<exists>inputs. resolve_segment_inputs rq = Some inputs \<and> request_plain rq inputs \<and> payloads = map si_payload inputs \<and>
        (\<forall>input\<in>set inputs. batch_payload (si_payload input))) \<and>
     (\<exists>img. log_image (payloads # session_log s) = Some img \<and>
        validate_file_against_manifest_checksum img (rq_page_size rq) (rq_database_size_pages rq)
          (take 16 (string_or_empty (rq_post_apply_checksum rq))))"

text \<open>An etag stands for one content of HEAD.\<close>

definition head_versioned :: "(string \<Rightarrow> bytes) \<Rightarrow> string \<Rightarrow> (string \<rightharpoonup> store_object) \<Rightarrow> bool" where
  "head_versioned content root contents \<longleftrightarrow>
     (\<forall>ob e. contents (head_key root) = Some ob \<longrightarrow> so_etag ob = Some e \<longrightarrow> so_data ob = content e)"

text \<open>
  The steps: a writer reads HEAD; a call that leaves HEAD alone and reports a failure; and a call that reports
  success or, whatever it reports, has moved HEAD.
\<close>

inductive writers_run ::
  "recovery_env \<Rightarrow> 'w object_store \<Rightarrow> ('w \<Rightarrow> string \<rightharpoonup> store_object) \<Rightarrow> (string \<Rightarrow> bytes) \<Rightarrow> string \<Rightarrow> cipher option \<Rightarrow>
   db_metadata \<Rightarrow> 'w \<Rightarrow> 'w \<Rightarrow> (nat \<Rightarrow> session) \<Rightarrow> bytes list list \<Rightarrow> bool"
  for renv store objs content root cipher meta w0 where
  run_start: "objs w0 (head_key root) = None \<Longrightarrow>
   writers_run renv store objs content root cipher meta w0 w0 (\<lambda>_. None) []"
| run_read: "\<lbrakk>writers_run renv store objs content root cipher meta w0 w ss log;
     otsardb_journal_read_head store w root = (JOURNAL_OK, Some (h, e), w')\<rbrakk> \<Longrightarrow>
   writers_run renv store objs content root cipher meta w0 w' (ss(i := Some (h, e, log))) log"
| run_failed: "\<lbrakk>writers_run renv store objs content root cipher meta w0 w ss log;
     writer_request renv root cipher meta (ss i) env rq payloads;
     otsardb_publish_commit env store w rq = (rc, res, w'); rc \<noteq> JOURNAL_OK;
     objs w' (head_key root) = objs w (head_key root)\<rbrakk> \<Longrightarrow>
   writers_run renv store objs content root cipher meta w0 w' ss log"
| run_commit: "\<lbrakk>writers_run renv store objs content root cipher meta w0 w ss log;
     writer_request renv root cipher meta (ss i) env rq payloads;
     otsardb_publish_commit env store w rq = (rc, res, w');
     rc = JOURNAL_OK \<or> objs w' (head_key root) \<noteq> objs w (head_key root); head_versioned content root (objs w')\<rbrakk> \<Longrightarrow>
   writers_run renv store objs content root cipher meta w0 w' ss (payloads # log)"

section \<open>The invariant\<close>

definition session_ok ::
  "recovery_env \<Rightarrow> (string \<rightharpoonup> store_object) \<Rightarrow> (string \<Rightarrow> bytes) \<Rightarrow> string \<Rightarrow> cipher option \<Rightarrow> db_metadata \<Rightarrow> session \<Rightarrow> bool" where
  "session_ok renv contents content root cipher meta s \<longleftrightarrow>
     (case s of None \<Rightarrow> True
      | Some (h, e, log) \<Rightarrow> otsardb_head_decode_json (content e) = Some h \<and>
          (\<exists>img. log_image log = Some img \<and> history renv contents root cipher meta (Some h) img))"

definition line_ok ::
  "recovery_env \<Rightarrow> (string \<rightharpoonup> store_object) \<Rightarrow> string \<Rightarrow> cipher option \<Rightarrow> db_metadata \<Rightarrow> bytes list list \<Rightarrow> bool" where
  "line_ok renv contents root cipher meta log \<longleftrightarrow>
     (\<exists>img. log_image log = Some img \<and>
        (if contents (head_key root) = None then log = []
         else \<exists>h. stored_head contents root = Some h \<and> unat (hd_generation h) = length log \<and>
           history renv contents root cipher meta (Some h) img \<and> intact renv contents root cipher meta h img))"

lemma session_ok_keep:
  "session_ok renv a content root cipher meta s \<Longrightarrow> keeps_objects root a b \<Longrightarrow> session_ok renv b content root cipher meta s"
  by (auto simp: session_ok_def intro: history_keep split: option.splits)

lemma history_None: "history renv contents root cipher meta None img \<longleftrightarrow> img = None"
  by (simp add: history_def)

lemma intact_keep:
  assumes "intact renv a root cipher meta h img" "history renv a root cipher meta (Some h) img" "keeps_objects root a b"
    "b (head_key root) = a (head_key root)"
  shows "intact renv b root cipher meta h img"
proof -
  note ok = assms(1) [unfolded intact_def]
  have k: "hd_commit_key h \<noteq> head_key root"
    using assms(2) segment_suffix_not_head(2) [of root "hd_commit_id h"] by (auto simp: history_def)
  have "head_checksum_ok (re_sha renv) b h img"
    using ok k assms(3) unfolding head_checksum_ok_def keeps_objects_def by blast
  moreover have "readable_head b root h" using ok assms(4) by (simp add: readable_head_def)
  moreover have "readable_metadata b root meta" using ok readable_metadata_keep assms(3) by blast
  ultimately show ?thesis
    using ok history_keep [OF assms(2,3)] unfolding intact_def history_def option.case by blast
qed

lemma line_ok_keep:
  assumes "line_ok renv a root cipher meta log" "keeps_objects root a b" "b (head_key root) = a (head_key root)"
  shows "line_ok renv b root cipher meta log"
proof -
  have "stored_head b root = stored_head a root" using assms(3) by (simp add: stored_head_def)
  then show ?thesis
    using assms intact_keep [OF _ _ assms(2,3)] history_keep [OF _ assms(2)] unfolding line_ok_def by (metis (no_types, lifting))
qed

context answering_store
begin

text \<open>The compare-and-swap succeeds only on the state that the writer knows.\<close>

lemma commit_on_known_state:
  assumes cond: "head_condition rq (objs w)" and rq: "writer_request renv root cipher meta s env rq payloads"
    and line: "line_ok renv (objs w) root cipher meta log" and s: "session_ok renv (objs w) content root cipher meta s"
    and ver: "head_versioned content root (objs w)" and valid: "request_valid rq (Some inputs)"
  shows "\<exists>img. log_image log = Some img \<and> log_image (session_log s) = Some img \<and>
    history renv (objs w) root cipher meta (map_option fst s) img \<and> unat (rq_parent_generation rq) = length log"
proof (cases s)
  case None
  then have "rq_create_head_if_missing rq" using rq by (simp add: writer_request_def request_extends_def)
  then have absent: "objs w (head_key root) = None"
    using cond rq by (simp add: head_condition_def writer_request_def)
  have "rq_parent_generation rq = 0"
    using valid \<open>rq_create_head_if_missing rq\<close> by (simp add: request_valid_def valid_parent_request_def)
  then show ?thesis
    using line absent None by (auto simp: line_ok_def session_log_def history_None)
next
  case (Some x)
  obtain h e l where x: "x = (h, e, l)" by (cases x)
  have n: "\<not> rq_create_head_if_missing rq" "rq_expected_head_etag rq = Some e" "rq_parent_generation rq = hd_generation h"
    "effective_strategy rq = STRATEGY_CAS" "rq_database_root rq = root"
    using rq Some x by (simp_all add: writer_request_def request_extends_def)
  then obtain ob where ob: "objs w (head_key root) = Some ob" "so_etag ob = Some e" using cond by (auto simp: head_condition_def)
  have "otsardb_head_decode_json (content e) = Some h" using s Some x by (simp add: session_ok_def)
  then have h: "stored_head (objs w) root = Some h" using ob ver by (simp add: stored_head_def head_versioned_def)
  obtain img where img: "log_image log = Some img" "unat (hd_generation h) = length log"
    "history renv (objs w) root cipher meta (Some h) img"
    using line ob h by (auto simp: line_ok_def)
  obtain img' where img': "log_image l = Some img'" "history renv (objs w) root cipher meta (Some h) img'"
    using s Some x by (auto simp: session_ok_def)
  have "img' = img" by (rule history_unique [OF img'(2) img(3)])
  then show ?thesis using img img' Some x n by (simp add: session_log_def)
qed

end

context answering_store
begin

lemma commit_extends_line:
  assumes pub: "otsardb_publish_commit env store w rq = (rc, res, w')" and w: "valid w"
    and moved: "rc = JOURNAL_OK \<or> objs w' (head_key root) \<noteq> objs w (head_key root)"
    and rq: "writer_request renv root cipher meta s env rq payloads"
    and line: "line_ok renv (objs w) root cipher meta log" and s: "session_ok renv (objs w) content root cipher meta s"
    and ver: "head_versioned content root (objs w)" and md: "readable_metadata (objs w) root meta" "root \<noteq> []"
  shows "line_ok renv (objs w') root cipher meta (payloads # log)"
proof -
  have root: "rq_database_root rq = root" using rq by (simp add: writer_request_def)
  note law = publish_commit_law [OF pub w, unfolded root]
  have keep: "keeps_objects root (objs w) (objs w')" using law by (simp add: keeps_objects_def)
  have cond: "head_condition rq (objs w)" using law moved by blast
  obtain inputs segs json h where c: "resolve_segment_inputs rq = Some inputs" "request_valid rq (Some inputs)"
    "commit_stored env rq (objs w') inputs segs json h"
    using publish_commit_stored [OF pub w] moved root by blast
  have r: "env_matches env rq renv cipher" "request_plain rq inputs" "payloads = map si_payload inputs"
    "\<forall>input\<in>set inputs. batch_payload (si_payload input)" "request_extends meta rq (map_option fst s)"
    using rq c(1) by (auto simp: writer_request_def)
  obtain img where img: "log_image log = Some img" "log_image (session_log s) = Some img"
    "history renv (objs w) root cipher meta (map_option fst s) img" "unat (rq_parent_generation rq) = length log"
    using commit_on_known_state [OF cond rq line s ver c(2)] by blast
  obtain img' where img': "apply_payloads payloads img = Some img'"
    "validate_file_against_manifest_checksum img' (rq_page_size rq) (rq_database_size_pages rq)
       (take 16 (string_or_empty (rq_post_apply_checksum rq)))"
    using rq img(2) by (auto simp: writer_request_def)
  obtain enc where new: "history renv (objs w') root cipher meta (Some h) img'" "recovery_head_ok meta h"
    "manifest_object (re_sha renv) (objs w') (hd_commit_key h) (Some (hd_commit_sha256 h)) =
       Some (request_manifest rq (map fst segs), enc)"
    using history_extended [OF c(3) r(1,2,4) c(2) r(5), of img img'] history_keep [OF img(3) keep] img'(1) r(3) root by auto
  have valid': "valid w'" using law by blast
  have rh: "readable_head (objs w') root h"
    using published_head_readable [OF c(3) r(1,2,4) c(2)] etag_live [OF valid'] root by blast
  have int: "intact renv (objs w') root cipher meta h img'"
    by (rule history_intact [OF new(1,2) rh readable_metadata_keep [OF md(1) keep] md(2) new(3)])
      (use img'(2) in \<open>simp add: request_manifest_def\<close>)
  have "hd_generation h = rq_parent_generation rq + 1" using c(3) by (auto simp: commit_stored_def Let_def request_head_def)
  moreover have "unat (rq_parent_generation rq) < RECOVERY_MAX_COMMITS" using r(5) by (simp add: request_extends_def)
  ultimately have "unat (hd_generation h) = Suc (length log)"
    using img(4) by (simp add: unat_word_ariths RECOVERY_MAX_COMMITS_def)
  then show ?thesis
    using int new(1) rh img(1) img'(1) by (auto simp: line_ok_def readable_head_def stored_head_def)
qed

lemma run_invariant:
  assumes "writers_run renv store objs content root cipher meta w0 w ss log"
    "valid w0" "readable_metadata (objs w0) root meta" "root \<noteq> []"
  shows "valid w \<and> readable_metadata (objs w) root meta \<and> head_versioned content root (objs w) \<and>
    line_ok renv (objs w) root cipher meta log \<and> (\<forall>i. session_ok renv (objs w) content root cipher meta (ss i))"
  using assms
proof induction
  case run_start
  then show ?case by (simp add: head_versioned_def line_ok_def session_ok_def)
next
  case (run_read w ss log h e w' i)
  then have inv: "valid w" "readable_metadata (objs w) root meta" "head_versioned content root (objs w)"
    "line_ok renv (objs w) root cipher meta log" "\<forall>i. session_ok renv (objs w) content root cipher meta (ss i)" by auto
  note law = read_head_law [OF run_read(2) inv(1)]
  obtain ob where ob: "stored_head (objs w) root = Some h" "objs w (head_key root) = Some ob" "so_etag ob = Some e"
    using law by blast
  have "otsardb_head_decode_json (content e) = Some h"
    using ob inv(3) by (auto simp: stored_head_def head_versioned_def)
  then have "session_ok renv (objs w) content root cipher meta (Some (h, e, log))"
    using inv(4) ob by (auto simp: session_ok_def line_ok_def)
  then show ?case using inv law by simp
next
  case (run_failed w ss log i env rq payloads rc res w')
  then have inv: "valid w" "readable_metadata (objs w) root meta" "head_versioned content root (objs w)"
    "line_ok renv (objs w) root cipher meta log" "\<forall>i. session_ok renv (objs w) content root cipher meta (ss i)" by auto
  have root: "rq_database_root rq = root" using run_failed(2) by (simp add: writer_request_def)
  note law = publish_commit_law [OF run_failed(3) inv(1), unfolded root]
  have keep: "keeps_objects root (objs w) (objs w')" using law by (simp add: keeps_objects_def)
  have ver: "head_versioned content root (objs w')" using inv(3) run_failed(5) by (simp add: head_versioned_def)
  show ?case
    using law ver readable_metadata_keep [OF inv(2) keep] line_ok_keep [OF inv(4) keep run_failed(5)]
      session_ok_keep [OF _ keep] inv(5) by blast
next
  case (run_commit w ss log i env rq payloads rc res w')
  then have inv: "valid w" "readable_metadata (objs w) root meta" "head_versioned content root (objs w)"
    "line_ok renv (objs w) root cipher meta log" "\<forall>i. session_ok renv (objs w) content root cipher meta (ss i)" by auto
  have root: "rq_database_root rq = root" using run_commit(2) by (simp add: writer_request_def)
  note law = publish_commit_law [OF run_commit(3) inv(1), unfolded root]
  have keep: "keeps_objects root (objs w) (objs w')" using law by (simp add: keeps_objects_def)
  have "line_ok renv (objs w') root cipher meta (payloads # log)"
    using commit_extends_line [OF run_commit(3) inv(1) run_commit(4,2) inv(4) _ inv(3,2)] inv(5) run_commit.prems(3) by blast
  then show ?case
    using law run_commit(5) readable_metadata_keep [OF inv(2) keep] session_ok_keep [OF _ keep] inv(5) by blast
qed

end

section \<open>A run\<close>

lemma demo_writer_request:
  "writer_request demo_recovery ''db'' None demo_metadata None demo_env demo_request [demo_payload]"
proof -
  let ?inputs = "[\<lparr>si_payload = demo_payload, si_pages = None\<rparr>]"
  have e: "env_matches demo_env demo_request demo_recovery None"
    using sample_lz4_inverse pure_gcm.aead_axioms
    by (simp add: env_matches_def demo_env_def demo_request_def demo_recovery_def sample_env_def sample_request_def entropy_ok_def
        request_cipher_def)
  have p: "request_plain demo_request ?inputs"
    by (simp add: request_plain_def demo_request_def sample_request_def plain_string_def string_or_empty_def checksum_field_valid_def demo_checksum_ok)
  have x: "request_extends demo_metadata demo_request None"
    by (simp add: request_extends_def demo_metadata_def demo_request_def sample_request_def RECOVERY_MAX_COMMITS_def)
  have i: "log_image ([demo_payload] # session_log None) = Some (Some (replicate 512 7))"
    using demo_applied by (simp add: session_log_def)
  have c: "take 16 (string_or_empty (rq_post_apply_checksum demo_request)) = demo_checksum" "rq_database_root demo_request = ''db''"
    "effective_strategy demo_request = STRATEGY_CAS" "rq_expected_head_etag demo_request = None"
    "rq_page_size demo_request = 512" "rq_database_size_pages demo_request = 1"
    by (simp_all add: demo_request_def sample_request_def string_or_empty_def effective_strategy_def demo_checksum_ok)
  show ?thesis
    unfolding writer_request_def i c
    using e p x demo_batch_payload demo_request_valid(1) demo_checksum_ok(4) by auto
qed

abbreviation "demo_content \<equiv> \<lambda>e :: string. bytes_of_string (otsardb_head_encode_json demo_head)"

lemma demo_run:
  "writers_run demo_recovery (memory_object_store memory_capabilities) memory_objs demo_content ''db'' None demo_metadata
     (demo_after 1) demo_memory (\<lambda>_. None) [[demo_payload]]"
proof -
  obtain r where pub: "otsardb_publish_commit demo_env (memory_object_store memory_capabilities) (demo_after 1) demo_request =
     (JOURNAL_OK, Some r, demo_memory)" using demo_publish_ok by blast
  have k: "segment_suffix sample_hash \<noteq> ''HEAD.json''" by (simp add: segment_suffix_def)
  have v: "head_versioned demo_content ''db'' (memory_objs demo_memory)"
    by (simp add: head_versioned_def memory_objs_def find_entry_def demo_memory_def head_key_def join_root_def k)
  show ?thesis
    by (rule writers_run.run_commit [OF writers_run.run_start, where rc = JOURNAL_OK])
      (use demo_start(2) demo_writer_request pub v in simp_all)
qed

section \<open>Properties\<close>



end
