(* ===== verification/Recovery_Safety.thy ===== *)
theory Recovery_Safety
  imports Writers
begin

text \<open>
  What a caller of recovery can rely on: what a restored image is, when a restore succeeds, that the walk of
  the chain ends by itself, and that a delta never leaves an unverified database behind.
\<close>

section \<open>The walk ends\<close>

text \<open>Each manifest that passes the checks has a smaller generation below it.\<close>

lemma parent_smaller:
  assumes "chain_manifest_ok meta p m" "pos_generation p > 0" "chain_step root stop m = CHAIN_PARENT q"
  shows "unat (pos_generation p) = Suc (unat (pos_generation q))"
proof -
  have q: "pos_generation q = cm_parent_generation m"
    using parent_pos_generation [OF chain_step_parent [OF assms(3)]] .
  have p: "cm_parent_generation m + 1 = pos_generation p" using assms(1) by (auto simp: chain_manifest_ok_def)
  then have "1 + cm_parent_generation m \<noteq> 0" using assms(2) by (auto simp: add.commute)
  from unatSuc [OF this] p q show ?thesis by (simp add: add.commute)
qed

lemma collect_room:
  "unat (pos_generation p) \<le> room \<Longrightarrow>
   collect_chain_loop sha store root meta stop room w p =
   collect_chain_loop sha store root meta stop (unat (pos_generation p)) w p"
proof (induction room arbitrary: w p)
  case (Suc room)
  show ?case
  proof (cases "unat (pos_generation p)")
    case 0
    then have "\<not> pos_generation p > 0" by (simp add: word_less_nat_alt)
    then show ?thesis by (simp add: 0)
  next
    case g: (Suc n)
    have eq: "collect_chain_loop sha store root meta stop room w' q = collect_chain_loop sha store root meta stop n w' q"
      if "chain_manifest_ok meta p m" "chain_step root stop m = CHAIN_PARENT q" for w' q m
    proof -
      have "pos_generation p > 0" using g by (simp add: word_less_nat_alt)
      from parent_smaller [OF that(1) this that(2)] have q: "unat (pos_generation q) = n" using g by simp
      have "n \<le> room" using Suc.prems g by simp
      then show ?thesis using Suc.IH [of q w'] q by simp
    qed
    show ?thesis unfolding g collect_chain_loop.simps
      using eq by (auto split: prod.splits option.splits chain_next.splits)
  qed
qed simp

lemma collect_length:
  "length (case fst (collect_chain_loop sha store root meta stop room w p) of None \<Rightarrow> [] | Some keys \<Rightarrow> keys) \<le> room"
proof (induction room arbitrary: w p)
  case (Suc room)
  show ?case
    using Suc.IH by (auto split: prod.splits option.splits chain_next.splits) (metis fst_conv option.case(2))
qed simp

section \<open>Deltas\<close>

context object_store_laws
begin

lemma delta_base_law:
  assumes "delta_base_ok sha store w key g digest f = (ok, w')" "valid w"
  shows "valid w' \<and> objs w' = objs w \<and>
    (ok \<longrightarrow> (\<exists>m enc. manifest_object sha (objs w) key (Some digest) = Some (m, enc) \<and> cm_generation m = g \<and> base_image_ok f m))"
proof -
  obtain res w1 where rd: "read_manifest_object sha store w key (Some digest) = (res, w1)"
    by (cases "read_manifest_object sha store w key (Some digest)")
  from read_object_law [OF rd assms(2)] rd assms(1) show ?thesis
    by (cases res) (auto simp: delta_base_ok_def)
qed

lemma materialize_delta_law:
  assumes "otsardb_recovery_materialize_delta_ex env store w root base_path g digest db_path cipher files = (res, files', w')" "valid w"
  shows "objs w' = objs w \<and>
    (\<forall>path. path \<noteq> base_path @ ''.deltatmp'' \<and> (path \<noteq> db_path \<or> res = None) \<longrightarrow> files' path = files path) \<and>
    (\<forall>h. res = Some h \<longrightarrow> stored_head (objs w) root = Some h \<and>
       (\<exists>meta es m enc. stored_metadata (objs w) root = Some meta \<and> recovery_head_ok meta h \<and>
          chain_list (re_sha env) (objs w) root meta g (head_pos h) es \<and>
          manifest_object (re_sha env) (objs w) (fst (last es)) (Some digest) = Some (m, enc) \<and>
          cm_generation m = g \<and> base_image_ok (files base_path) m \<and>
          chain_image env (objs w) root cipher (butlast es) (files base_path) = Some (files' db_path)) \<and>
       head_checksum_ok (re_sha env) (objs w) h (files' db_path))"
proof -
  let ?guard = "root = [] \<or> base_path = [] \<or> db_path = [] \<or> g = 0 \<or> length digest \<noteq> MANIFEST_SHA256_HEX_SIZE \<or> base_path = db_path"
  obtain rm md w1 where md: "otsardb_db_metadata_read store w root = (rm, md, w1)" by (cases "otsardb_db_metadata_read store w root")
  note law1 = metadata_read_law [OF md assms(2)]
  obtain rh he w2 where hd: "otsardb_journal_read_head store w1 root = (rh, he, w2)" by (cases "otsardb_journal_read_head store w1 root")
  note law2 = read_head_law [OF hd conjunct1 [OF law1]]
  show ?thesis
  proof (cases "\<not> ?guard \<and> (\<exists>meta h e. md = Some meta \<and> he = Some (h, e) \<and> recovery_head_ok meta h \<and> \<not> hd_generation h \<le> g)")
    case False
    then have "res = None \<and> files' = files \<and> (w' = w \<or> w' = w1 \<or> w' = w2)"
      using assms(1) md hd
      by (cases md; cases he) (auto simp: otsardb_recovery_materialize_delta_ex_def split: if_splits)
    then show ?thesis using law1 law2 by auto
  next
    case True
    then obtain meta h e where m: "md = Some meta" and he: "he = Some (h, e)" and hok: "recovery_head_ok meta h"
      and pre: "\<not> ?guard" "\<not> hd_generation h \<le> g" by blast
    have gen: "hd_generation h > 0" using hok by (simp add: recovery_head_ok_def word_neq_0_conv)
    have "rm = METADATA_OK" using metadata_read_ok [OF md] m by simp
    then have base: "stored_metadata (objs w) root = Some meta" "stored_head (objs w) root = Some h" "objs w2 = objs w" "valid w2"
      using law1 law2 m he by (auto simp: stored_metadata_def)
    obtain ks w3 where col: "collect_chain_keys (re_sha env) store w2 root meta h g = (ks, w3)"
      by (cases "collect_chain_keys (re_sha env) store w2 root meta h g")
    note law3 = collect_law [OF col base(4) gen]
    obtain okb w4 where db: "delta_base_ok (re_sha env) store w3 (last (the ks)) g digest (files base_path) = (okb, w4)"
      by (cases "delta_base_ok (re_sha env) store w3 (last (the ks)) g digest (files base_path)")
    note law4 = delta_base_law [OF db conjunct1 [OF law3]]
    obtain okr img w5 where rp: "replay_above env store w4 root h (the ks) (length (the ks) - 1) cipher (files base_path) = (okr, img, w5)"
      by (cases "replay_above env store w4 root h (the ks) (length (the ks) - 1) cipher (files base_path)")
    note law5 = replay_above_law [OF rp conjunct1 [OF law4], where meta = meta]
    have run: "(res, files', w') =
        (if ks = None \<or> ks = Some [] then (None, files, w3) else if \<not> okb then (None, files, w4)
         else if \<not> okr \<or> base_path @ ''.deltatmp'' = db_path then (None, files(base_path @ ''.deltatmp'' := None), w5)
         else (Some h, files(db_path := img, base_path @ ''.deltatmp'' := None), w5))"
      using assms(1) md hd m he hok pre col db rp
      by (cases ks) (auto simp: otsardb_recovery_materialize_delta_ex_def Let_def split: if_splits)
    have same: "objs w' = objs w" using run law3 law4 law5 base by (auto split: if_splits)
    have files: "files' path = files path" if "path \<noteq> base_path @ ''.deltatmp''" "path \<noteq> db_path \<or> res = None" for path
      using run that by (auto split: if_splits)
    show ?thesis
    proof (cases res)
      case None
      then show ?thesis using same files by simp
    next
      case (Some h')
      then have ok: "ks \<noteq> None" "okb" "okr" "h' = h" "files' db_path = img" using run by (auto split: if_splits)
      then obtain es where es: "chain_list (re_sha env) (objs w) root meta g (head_pos h) es" "the ks = map fst es"
        using law3 base by auto
      have ne: "es \<noteq> []" by (rule chain_list_not_Nil [OF es(1)])
      obtain m' enc where b: "manifest_object (re_sha env) (objs w) (fst (last es)) (Some digest) = Some (m', enc)"
        "cm_generation m' = g" "base_image_ok (files base_path) m'"
        using law4 ok law3 base es ne by (auto simp: last_map)
      have "chain_image env (objs w) root cipher (take (length es - 1) es) (files base_path) = Some img"
        "head_checksum_ok (re_sha env) (objs w) h img"
        using law5 ok es law3 law4 base by auto
      then show ?thesis using same files b es(1) base hok ok Some by (auto simp: butlast_conv_take)
    qed
  qed
qed

end

section \<open>The sample database\<close>

lemma demo_intact: "\<exists>h. intact demo_recovery (memory_objs demo_memory) ''db'' None demo_metadata h (Some (replicate 512 7))"
proof -
  have inv: "line_ok demo_recovery (memory_objs demo_memory) ''db'' None demo_metadata [[demo_payload]]"
    using mem_live.run_invariant [OF demo_run demo_start(1,3)] by simp
  have "memory_objs demo_memory (head_key ''db'') \<noteq> None"
    using inv by (auto simp: line_ok_def split: if_splits)
  then show ?thesis using inv demo_applied by (auto simp: line_ok_def)
qed

lemma demo_memory_valid: "memory_valid demo_memory"
  using mem_live.run_invariant [OF demo_run demo_start(1,3)] by simp

lemma demo_restored:
  "\<exists>w'. otsardb_recovery_restore_store_ex demo_recovery (memory_object_store memory_capabilities) demo_memory ''db'' None f =
     (True, Some (replicate 512 7), w')"
proof -
  obtain h where h: "intact demo_recovery (memory_objs demo_memory) ''db'' None demo_metadata h (Some (replicate 512 7))"
    using demo_intact by blast
  show ?thesis using mem_live.restore_live [OF h demo_memory_valid, of memory_capabilities f] demo_no_checkpoint by auto
qed

section \<open>Properties\<close>

text \<open>
  (C6) Whatever the store holds and whichever of its calls fail: a restore that succeeds has read authentic
  metadata and HEAD of one database, and its image is what the chain of manifests below HEAD gives, each of them with the
  digest that its successor or HEAD records, either from the first commit or from a checkpoint that agrees
  with the manifest of the generation it covers.  The checksum of the newest manifest is that of the image, and
  nothing in the store has changed.
\<close>

theorem restore_sound:
  assumes "object_store_laws store objs valid" "valid w"
    and "otsardb_recovery_restore_store_ex env store w root cipher f = (ok, f', w')"
  shows "objs w' = objs w \<and>
    (ok \<longrightarrow> (\<exists>meta h. stored_metadata (objs w) root = Some meta \<and> stored_head (objs w) root = Some h \<and>
       recovery_head_ok meta h \<and> restored env (objs w) root meta h cipher f' \<and>
       head_checksum_ok (re_sha env) (objs w) h f'))"
  using object_store_laws.restore_store_law [OF assms(1,3,2)] by blast

theorem restore_sound_witness:
  "\<exists>meta h. stored_head (memory_objs demo_memory) ''db'' = Some h \<and> recovery_head_ok meta h \<and>
     restored demo_recovery (memory_objs demo_memory) ''db'' meta h None (Some (replicate 512 7))"
proof -
  obtain w' where "otsardb_recovery_restore_store_ex demo_recovery (memory_object_store memory_capabilities) demo_memory ''db'' None None =
     (True, Some (replicate 512 7), w')" using demo_restored by blast
  from restore_sound [OF mem.object_store_laws_axioms demo_memory_valid this] show ?thesis by blast
qed

text \<open>
  (C7) A restore of an intact database succeeds.  Where the metadata, HEAD, every manifest of the chain and
  every segment of it are in the store and agree with each other, and the store answers reads, the call returns an image;
  damaged or stale checkpoints cannot prevent that.  Without checkpoints the image is that of the full chain.
\<close>

theorem restore_completes:
  assumes "answering_store store objs valid" "valid w" "intact env (objs w) root cipher meta h img"
  shows "\<exists>f' w'. otsardb_recovery_restore_store_ex env store w root cipher f = (True, f', w') \<and>
    (objs w (checkpoint_key root) = None \<and> (\<forall>name. objs w (join_root root (''checkpoints/'' @ name)) = None) \<longrightarrow> f' = img)"
  by (rule answering_store.restore_live [OF assms(1,3,2)])

theorem restore_completes_witness:
  "\<exists>w'. otsardb_recovery_restore_store_ex demo_recovery (memory_object_store memory_capabilities) demo_memory ''db'' None (Some [1]) =
     (True, Some (replicate 512 7), w')"
proof -
  obtain h where h: "intact demo_recovery (memory_objs demo_memory) ''db'' None demo_metadata h (Some (replicate 512 7))"
    using demo_intact by blast
  show ?thesis
    using restore_completes [OF mem_live.answering_store_axioms demo_memory_valid h, of memory_capabilities "Some [1]"] demo_no_checkpoint
    by auto
qed

text \<open>
  (C20) Applying a batch to a database file: the file gets the size that the batch declares, every page inside
  it that the batch has becomes the last image the batch has of it, and every other page keeps its bytes,
  zeros where the file was shorter.
\<close>

theorem apply_batch_pages:
  assumes "otsardb_wal_batch_decode b = Some batch" "otsardb_recovery_apply_wal_batch_file b f = (True, f')"
  shows "\<exists>img. f' = Some img \<and> length img = unat (wb_database_size_pages batch * ucast (wb_page_size batch)) \<and>
    (\<forall>n\<ge>1. n * unat (wb_page_size batch) \<le> length img \<longrightarrow>
       image_page img (unat (wb_page_size batch)) n =
         (case map_of (rev (batch_frames batch)) n of
            Some d \<Rightarrow> d | None \<Rightarrow> image_page (file_bytes f) (unat (wb_page_size batch)) n))"
  by (rule apply_batch_pages_law [OF assms])

theorem apply_batch_pages_witness:
  "\<exists>f'. otsardb_recovery_apply_wal_batch_file demo_payload None = (True, Some f') \<and> length f' = 512 \<and>
     image_page f' 512 1 = replicate 512 7"
proof -
  let ?v = "encoded_view 512 1 1 demo_payload"
  have l: "length (replicate 512 (7 :: byte)) = unat (1 :: u32) * unat (512 :: u32)" by simp
  have "otsardb_recovery_apply_wal_batch_file demo_payload None = (True, Some (replicate 512 7))"
    using demo_applied by (auto split: prod.splits if_splits)
  then show ?thesis
    using apply_batch_pages [OF wal_batch_encode_view [OF demo_batch l], of None] demo_frames by auto
qed

text \<open>
  (C21) The walk of the chain ends by itself: with at least as much room as the head has generations it
  gives the same result as with exactly that much, since every manifest it accepts has its parent one
  generation below, and it collects at most that many keys.
\<close>

theorem chain_walk_terminates:
  assumes "unat (pos_generation p) \<le> room"
  shows "collect_chain_loop sha store root meta stop room w p =
      collect_chain_loop sha store root meta stop (unat (pos_generation p)) w p \<and>
    length (case fst (collect_chain_loop sha store root meta stop room w p) of None \<Rightarrow> [] | Some keys \<Rightarrow> keys) \<le> unat (pos_generation p)"
  unfolding collect_room [OF assms] by (rule conjI [OF refl collect_length])

theorem chain_walk_terminates_witness:
  "collect_chain_loop (re_sha demo_recovery) (memory_object_store memory_capabilities) ''db'' demo_metadata 0 RECOVERY_MAX_COMMITS
     demo_memory (head_pos demo_head) =
   collect_chain_loop (re_sha demo_recovery) (memory_object_store memory_capabilities) ''db'' demo_metadata 0 1
     demo_memory (head_pos demo_head)"
proof -
  have g: "unat (pos_generation (head_pos demo_head)) = 1"
    by (simp add: head_pos_def demo_head_def request_head_def demo_request_def sample_request_def)
  show ?thesis by (rule conjunct1 [OF chain_walk_terminates [where p = "head_pos demo_head", unfolded g]]) (simp add: RECOVERY_MAX_COMMITS_def)
qed



end
