(* ===== verification/Checkpoint_Build.thy ===== *)
theory Checkpoint_Build
  imports Recovery_Image
begin

text \<open>
  Building a checkpoint, \<open>src/storage/checkpoint_build.c\<close>: the database is restored into a temporary file, its
  pages are uploaded in groups, and a manifest and the pointer to it are published.  The pages of a
  checkpoint that was built are exactly those of the restored file.
\<close>

section \<open>Operations\<close>

definition CHECKPOINT_MAX_PAGES_PER_GROUP :: nat where
  "CHECKPOINT_MAX_PAGES_PER_GROUP = 4096"

text \<open>
  One page of the file; a read that comes up short gives a page of zeros, and so do all reads after it.
\<close>

definition db_page :: "bytes \<Rightarrow> nat \<Rightarrow> nat \<Rightarrow> bytes" where
  "db_page f page_size i =
     (if (i + 1) * page_size \<le> length f then mem_slice f (i * page_size) page_size else replicate page_size 0)"

definition read_db_pages :: "bytes \<Rightarrow> u32 \<Rightarrow> nat \<Rightarrow> nat \<Rightarrow> u32 list \<times> bytes" where
  "read_db_pages f page_size start_page n =
     (map (\<lambda>i. of_nat (start_page + i + 1)) [0..<n],
      concat (map (\<lambda>i. db_page f (unat page_size) (start_page + i)) [0..<n]))"

text \<open>The call succeeds, fails, or writes behind the array of page groups.\<close>

datatype build_result = BUILD_OK | BUILD_FAILED | BUILD_OUT_OF_BOUNDS

definition group_suffix :: "string \<Rightarrow> nat \<Rightarrow> string" where
  "group_suffix group_sha256 group_idx = ''checkpoints/'' @ group_sha256 @ ''/page-'' @ dec group_idx @ ''.otscp''"

text \<open>
  The loop over the groups: how many pages remain, the first of them, the index of the group and the
  groups so far.
\<close>

function build_groups ::
  "(bytes \<Rightarrow> bytes) \<Rightarrow> 'w object_store \<Rightarrow> string \<Rightarrow> u32 \<Rightarrow> u64 \<Rightarrow> bytes \<Rightarrow> nat \<Rightarrow> nat \<Rightarrow> nat \<Rightarrow> page_group_ref list \<Rightarrow> 'w \<Rightarrow>
   build_result \<times> page_group_ref list \<times> 'w" where
  "build_groups sha store root page_size database_size_pages f remaining cursor group_idx groups w =
     (if remaining = 0 then (BUILD_OK, groups, w)
      else let chunk = (if remaining > CHECKPOINT_MAX_PAGES_PER_GROUP then CHECKPOINT_MAX_PAGES_PER_GROUP else remaining) in
        case read_db_pages f page_size cursor chunk of (page_nos, pages) \<Rightarrow>
          (case otsardb_checkpoint_page_encode page_size database_size_pages page_nos pages (of_nat chunk) of
             None \<Rightarrow> (BUILD_FAILED, groups, w)
           | Some group_data \<Rightarrow>
               let group_sha256 = otsardb_sha256_hex_data sha group_data in
               (case snprintf_fits (group_suffix group_sha256 group_idx) (CHECKPOINT_PAGE_GROUP_KEY_MAX + 1) of
                  None \<Rightarrow> (BUILD_FAILED, groups, w)
                | Some name \<Rightarrow>
                    (case root_join root name (KEY_MAX + 1) of
                       None \<Rightarrow> (BUILD_FAILED, groups, w)
                     | Some key \<Rightarrow>
                         (case otsardb_store_put store w key group_data no_options of (rc, etag, w') \<Rightarrow>
                            if rc \<noteq> STORE_OK then (BUILD_FAILED, groups, w')
                            else if group_idx \<ge> CHECKPOINT_MAX_PAGE_GROUPS then (BUILD_OUT_OF_BOUNDS, groups, w')
                            else build_groups sha store root page_size database_size_pages f (remaining - chunk) (cursor + chunk)
                                   (group_idx + 1)
                                   (groups @ [\<lparr>gr_key = name, gr_sha256 = group_sha256, gr_size = of_nat (length group_data)\<rparr>])
                                   w')))))"
  by pat_completeness auto
termination
  by (relation "measure (\<lambda>(sha, store, root, page_size, database_size_pages, f, remaining, cursor, group_idx, groups, w). remaining)")
    (auto simp: CHECKPOINT_MAX_PAGES_PER_GROUP_def)

declare build_groups.simps [simp del]

definition checkpoint_of_head :: "head \<Rightarrow> u32 \<Rightarrow> u64 \<Rightarrow> page_group_ref list \<Rightarrow> checkpoint_manifest" where
  "checkpoint_of_head h page_size database_size_pages groups =
     \<lparr>ck_format_version = CHECKPOINT_MANIFEST_FORMAT_VERSION, ck_covered_generation = hd_generation h,
      ck_page_size = page_size, ck_database_size_pages = database_size_pages,
      ck_database_id = take CHECKPOINT_ID_MAX (hd_database_id h),
      ck_base_commit_id = take CHECKPOINT_ID_MAX (hd_commit_id h),
      ck_base_manifest_sha256 = take CHECKPOINT_SHA256_HEX_SIZE (hd_commit_sha256 h), ck_page_groups = groups\<rparr>"

definition manifest_suffix :: "string \<Rightarrow> string" where
  "manifest_suffix manifest_sha256 = ''checkpoints/'' @ manifest_sha256 @ ''.json''"

text \<open>The manifest and then the pointer to it.\<close>

definition publish_checkpoint ::
  "(bytes \<Rightarrow> bytes) \<Rightarrow> 'w object_store \<Rightarrow> 'w \<Rightarrow> string \<Rightarrow> checkpoint_manifest \<Rightarrow> build_result \<times> 'w" where
  "publish_checkpoint sha store w root cp =
     (case otsardb_checkpoint_manifest_encode sha cp of
        None \<Rightarrow> (BUILD_FAILED, w)
      | Some (manifest_json, manifest_sha256) \<Rightarrow>
          (case snprintf_fits (manifest_suffix manifest_sha256) (KEY_MAX + 1) of
             None \<Rightarrow> (BUILD_FAILED, w)
           | Some name \<Rightarrow>
               (case root_join root name (KEY_MAX + 1) of
                  None \<Rightarrow> (BUILD_FAILED, w)
                | Some manifest_key \<Rightarrow>
                    (case otsardb_store_put store w manifest_key (bytes_of_string manifest_json) no_options of (rc, etag, w1) \<Rightarrow>
                       if rc \<noteq> STORE_OK then (BUILD_FAILED, w1)
                       else
                         (case otsardb_checkpoint_ptr_encode
                             \<lparr>cp_covered_generation = ck_covered_generation cp,
                              cp_checkpoint_sha256 = take CHECKPOINT_SHA256_HEX_SIZE manifest_sha256,
                              cp_checkpoint_key = take 1023 manifest_key,
                              cp_database_id = take CHECKPOINT_ID_MAX (ck_database_id cp)\<rparr> of
                            None \<Rightarrow> (BUILD_FAILED, w1)
                          | Some ptr_json \<Rightarrow>
                              (case root_join root ''CHECKPOINT.json'' (KEY_MAX + 1) of
                                 None \<Rightarrow> (BUILD_FAILED, w1)
                               | Some ptr_key \<Rightarrow>
                                   (case otsardb_store_put store w1 ptr_key (bytes_of_string ptr_json) no_options of
                                      (rc, etag, w2) \<Rightarrow> (if rc = STORE_OK then BUILD_OK else BUILD_FAILED, w2))))))))"

definition otsardb_checkpoint_build ::
  "recovery_env \<Rightarrow> cipher option \<Rightarrow> 'w object_store \<Rightarrow> 'w \<Rightarrow> string \<Rightarrow> bytes option \<Rightarrow> build_result \<times> bytes option \<times> 'w" where
  "otsardb_checkpoint_build env thread_cipher store w root file =
     (case otsardb_recovery_restore_store env thread_cipher store w root file of (ok, file', w1) \<Rightarrow>
        if \<not> ok then (BUILD_FAILED, file', w1)
        else case otsardb_db_metadata_read store w1 root of
          (rc, None, w2) \<Rightarrow> (BUILD_FAILED, file', w2)
        | (rc, Some meta, w2) \<Rightarrow>
            (case otsardb_journal_read_head store w2 root of
               (rc, None, w3) \<Rightarrow> (BUILD_FAILED, file', w3)
             | (rc, Some (h, etag), w3) \<Rightarrow>
                 (case otsardb_store_get store w3 (hd_commit_key h) of (rc, ob, w4) \<Rightarrow>
                    if rc \<noteq> STORE_OK then (BUILD_FAILED, file', w4)
                    else case otsardb_commit_manifest_decode_json (so_data ob) of
                      None \<Rightarrow> (BUILD_FAILED, file', w4)
                    | Some head_manifest \<Rightarrow>
                        let database_size_pages = cm_database_size_pages head_manifest in
                        if database_size_pages = 0 then (BUILD_FAILED, file', w4)
                        else case file' of
                          None \<Rightarrow> (BUILD_FAILED, file', w4)
                        | Some f \<Rightarrow>
                            (case build_groups (re_sha env) store root (dm_page_size meta) database_size_pages f
                                    (unat database_size_pages) 0 0 [] w4 of
                               (r, groups, w5) \<Rightarrow>
                                 if r \<noteq> BUILD_OK then (r, file', w5)
                                 else (case publish_checkpoint (re_sha env) store w5 root
                                         (checkpoint_of_head h (dm_page_size meta) database_size_pages groups) of
                                         (r, w6) \<Rightarrow> (r, file', w6))))))"

section \<open>The groups in the store\<close>

definition db_pages :: "bytes \<Rightarrow> nat \<Rightarrow> nat \<Rightarrow> nat \<Rightarrow> bytes" where
  "db_pages f page_size a n = concat (map (db_page f page_size) [a..<n])"

lemma length_db_page [simp]: "length (db_page f page_size i) = page_size"
  by (simp add: db_page_def length_mem_slice)

lemma length_db_pages [simp]: "length (db_pages f page_size a n) = (n - a) * page_size"
  by (induction "n - a" arbitrary: a) (auto simp: db_pages_def sum_list_triv comp_def length_concat)

lemma db_pages_append: "a \<le> b \<Longrightarrow> b \<le> c \<Longrightarrow> db_pages f page_size a b @ db_pages f page_size b c = db_pages f page_size a c"
  by (metis concat_append db_pages_def le_add_diff_inverse map_append upt_add_eq_append)

lemma read_db_pages_eq:
  "read_db_pages f page_size a n = (map (\<lambda>i. of_nat (a + i + 1)) [0..<n], db_pages f (unat page_size) a (a + n))"
proof -
  have "map (\<lambda>i. db_page f (unat page_size) (a + i)) [0..<n] = map (db_page f (unat page_size)) [a..<a + n]"
    by (rule nth_equalityI) auto
  then show ?thesis by (simp add: read_db_pages_def db_pages_def)
qed

lemma db_pages_slice:
  assumes "i < n"
  shows "mem_slice (db_pages f page_size a (a + n)) (i * page_size) page_size = db_page f page_size (a + i)"
proof -
  have "db_pages f page_size a (a + n) =
      db_pages f page_size a (a + i) @ db_page f page_size (a + i) @ db_pages f page_size (a + i + 1) (a + n)"
    using db_pages_append [of a "a + i" "a + n" f page_size] db_pages_append [of "a + i" "a + i + 1" "a + n" f page_size] assms
    by (simp add: db_pages_def)
  then show ?thesis by (simp add: mem_slice_def)
qed

text \<open>The groups of a file from a page on, each in the store under its key with its digest and its size.\<close>

fun groups_hold ::
  "(bytes \<Rightarrow> bytes) \<Rightarrow> (string \<rightharpoonup> store_object) \<Rightarrow> string \<Rightarrow> u32 \<Rightarrow> u64 \<Rightarrow> bytes \<Rightarrow> nat \<Rightarrow> nat \<Rightarrow> nat \<Rightarrow> page_group_ref list \<Rightarrow> bool" where
  "groups_hold sha contents root page_size d f idx cursor n [] = (cursor = n)"
| "groups_hold sha contents root page_size d f idx cursor n (ref # refs) =
     (\<exists>chunk group_data. 0 < chunk \<and> chunk \<le> CHECKPOINT_MAX_PAGES_PER_GROUP \<and> cursor + chunk \<le> n \<and>
        otsardb_checkpoint_page_encode page_size d (map (\<lambda>i. of_nat (cursor + i + 1)) [0..<chunk])
          (db_pages f (unat page_size) cursor (cursor + chunk)) (of_nat chunk) = Some group_data \<and>
        (\<exists>ob. contents (join_root root (gr_key ref)) = Some ob \<and> so_data ob = group_data) \<and>
        length (join_root root (gr_key ref)) \<le> KEY_MAX \<and> length (gr_key ref) \<le> CHECKPOINT_PAGE_GROUP_KEY_MAX \<and>
        ref = \<lparr>gr_key = group_suffix (otsardb_sha256_hex_data sha group_data) idx,
               gr_sha256 = otsardb_sha256_hex_data sha group_data, gr_size = of_nat (length group_data)\<rparr> \<and>
        groups_hold sha contents root page_size d f (idx + 1) (cursor + chunk) n refs)"

definition group_key :: "string \<Rightarrow> nat \<Rightarrow> string \<Rightarrow> bool" where
  "group_key root idx key \<longleftrightarrow> (\<exists>s i. length s = 64 \<and> idx \<le> i \<and> key = join_root root (group_suffix s i))"

lemma dec_inj: "dec m = dec n \<Longrightarrow> m = n"
  by (metis digits_value_dec)

lemma group_suffix_inj:
  assumes "length s = length t" "group_suffix s i = group_suffix t j"
  shows "s = t \<and> i = j"
  using assms dec_inj by (auto simp: group_suffix_def)

lemma groups_hold_cong:
  assumes "groups_hold sha a root page_size d f idx cursor n refs" "\<And>key. group_key root idx key \<Longrightarrow> b key = a key"
    "\<forall>x. length (sha x) = 32"
  shows "groups_hold sha b root page_size d f idx cursor n refs"
  using assms(1,2)
proof (induction refs arbitrary: idx cursor)
  case (Cons ref refs)
  then obtain chunk data ob where c: "0 < chunk" "chunk \<le> CHECKPOINT_MAX_PAGES_PER_GROUP" "cursor + chunk \<le> n"
    "otsardb_checkpoint_page_encode page_size d (map (\<lambda>i. of_nat (cursor + i + 1)) [0..<chunk])
       (db_pages f (unat page_size) cursor (cursor + chunk)) (of_nat chunk) = Some data"
    "a (join_root root (gr_key ref)) = Some ob" "so_data ob = data"
    "length (join_root root (gr_key ref)) \<le> KEY_MAX" "length (gr_key ref) \<le> CHECKPOINT_PAGE_GROUP_KEY_MAX"
    "ref = \<lparr>gr_key = group_suffix (otsardb_sha256_hex_data sha data) idx, gr_sha256 = otsardb_sha256_hex_data sha data,
       gr_size = of_nat (length data)\<rparr>"
    "groups_hold sha a root page_size d f (idx + 1) (cursor + chunk) n refs"
    by auto
  have len: "length (otsardb_sha256_hex_data sha data) = 64"
    using sha256_provider.hex_length [of sha] assms(3) by (simp add: sha256_provider_def)
  then have "group_key root idx (join_root root (gr_key ref))" using c(9) by (auto simp: group_key_def)
  then have at: "b (join_root root (gr_key ref)) = Some ob" using Cons.prems(2) c(5) by simp
  have "group_key root idx key" if "group_key root (idx + 1) key" for key
    using that unfolding group_key_def by (metis Suc_eq_plus1 Suc_leD)
  then have "groups_hold sha b root page_size d f (idx + 1) (cursor + chunk) n refs"
    using Cons.IH [OF c(10)] Cons.prems(2) by blast
  then show ?case using c at by auto
qed simp

context object_store_laws
begin

lemma build_groups_law:
  assumes "build_groups sha store root page_size d f remaining cursor idx groups w = (r, groups', w')" "valid w"
    "\<forall>x. length (sha x) = 32"
  shows "valid w' \<and> (\<forall>key. \<not> group_key root idx key \<longrightarrow> objs w' key = objs w key) \<and>
    (r = BUILD_OK \<longrightarrow> (\<exists>new. groups' = groups @ new \<and> (new = [] \<or> idx + length new \<le> CHECKPOINT_MAX_PAGE_GROUPS) \<and>
       groups_hold sha (objs w') root page_size d f idx cursor (cursor + remaining) new))"
  using assms(1,2)
proof (induction remaining arbitrary: cursor idx groups w rule: less_induct)
  case (less remaining)
  show ?case
  proof (cases "remaining = 0")
    case True
    then show ?thesis using less.prems by (auto simp: build_groups.simps)
  next
    case False
    define chunk where "chunk = (if remaining > CHECKPOINT_MAX_PAGES_PER_GROUP then CHECKPOINT_MAX_PAGES_PER_GROUP else remaining)"
    have chunk: "0 < chunk" "chunk \<le> remaining" "chunk \<le> CHECKPOINT_MAX_PAGES_PER_GROUP"
      using False by (auto simp: chunk_def CHECKPOINT_MAX_PAGES_PER_GROUP_def)
    let ?nos = "map (\<lambda>i. of_nat (cursor + i + 1)) [0..<chunk] :: u32 list"
    let ?pages = "db_pages f (unat page_size) cursor (cursor + chunk)"
    show ?thesis
    proof (cases "otsardb_checkpoint_page_encode page_size d ?nos ?pages (of_nat chunk)")
      case None
      then show ?thesis
        using less.prems False by (subst (asm) build_groups.simps) (auto simp: read_db_pages_eq chunk_def [symmetric] Let_def)
    next
      case (Some data)
      define s where "s = otsardb_sha256_hex_data sha data"
      have len: "length s = 64" using sha256_provider.hex_length [of sha] assms(3) by (simp add: sha256_provider_def s_def)
      let ?key = "join_root root (group_suffix s idx)"
      obtain rc e w1 where put: "otsardb_store_put store w ?key data no_options = (rc, e, w1)"
        by (cases "otsardb_store_put store w ?key data no_options")
      note law = put_law [OF put less.prems(2)]
      have gk: "group_key root idx ?key" using len by (auto simp: group_key_def)
      have frame1: "\<forall>key. \<not> group_key root idx key \<longrightarrow> objs w1 key = objs w key"
        using put_other [OF put less.prems(2)] gk by metis
      let ?ref = "\<lparr>gr_key = group_suffix s idx, gr_sha256 = s, gr_size = of_nat (length data)\<rparr>"
      let ?too_long = "length (group_suffix s idx) > CHECKPOINT_PAGE_GROUP_KEY_MAX \<or> length ?key > KEY_MAX"
      have ne: "group_suffix s idx \<noteq> []" "?key \<noteq> []" by (simp_all add: group_suffix_def join_root_def)
      have step: "build_groups sha store root page_size d f remaining cursor idx groups w =
          (if ?too_long then (BUILD_FAILED, groups, w) else if rc \<noteq> STORE_OK then (BUILD_FAILED, groups, w1)
           else if idx \<ge> CHECKPOINT_MAX_PAGE_GROUPS then (BUILD_OUT_OF_BOUNDS, groups, w1)
           else build_groups sha store root page_size d f (remaining - chunk) (cursor + chunk) (idx + 1) (groups @ [?ref]) w1)"
        using False Some put ne
        by (subst build_groups.simps)
          (simp add: read_db_pages_eq chunk_def [symmetric] Let_def s_def [symmetric] root_join_def snprintf_fits_def not_less)
      consider "?too_long \<or> rc \<noteq> STORE_OK \<or> idx \<ge> CHECKPOINT_MAX_PAGE_GROUPS" | "\<not> ?too_long" "rc = STORE_OK" "idx < CHECKPOINT_MAX_PAGE_GROUPS"
        by linarith
      then show ?thesis
      proof cases
        case 1
        then have "r \<noteq> BUILD_OK \<and> (w' = w \<or> w' = w1)" using less.prems(1) step by (auto split: if_splits)
        then show ?thesis using less.prems(2) law frame1 by auto
      next
        case 2
        have rec: "build_groups sha store root page_size d f (remaining - chunk) (cursor + chunk) (idx + 1) (groups @ [?ref]) w1 = (r, groups', w')"
          using less.prems(1) step 2 by simp
        note ih = less.IH [OF _ rec conjunct1 [OF law]]
        have frame2: "objs w' key = objs w1 key" if "\<not> group_key root (idx + 1) key" for key using ih chunk that by simp
        have sub: "group_key root idx key" if "group_key root (idx + 1) key" for key
          using that unfolding group_key_def by (metis Suc_eq_plus1 Suc_leD)
        have own: "\<not> group_key root (idx + 1) ?key"
        proof
          assume "group_key root (idx + 1) ?key"
          then obtain t i where t: "length t = 64" "idx + 1 \<le> i" "group_suffix s idx = group_suffix t i"
            by (auto simp: group_key_def)
          then show False using group_suffix_inj [of s t idx i] len by simp
        qed
        have "put_stored (objs w) ?key data (objs w1)" using law 2 by blast
        then obtain ob where ob: "objs w1 ?key = Some ob" "so_data ob = data" by (auto simp: put_stored_def)
        have at: "objs w' ?key = Some ob" using frame2 [OF own] ob by simp
        have frame: "\<forall>key. \<not> group_key root idx key \<longrightarrow> objs w' key = objs w key" using frame1 frame2 sub by metis
        have "\<exists>new. groups' = groups @ new \<and> (new = [] \<or> idx + length new \<le> CHECKPOINT_MAX_PAGE_GROUPS) \<and>
            groups_hold sha (objs w') root page_size d f idx cursor (cursor + remaining) new" if ok: "r = BUILD_OK"
        proof -
          obtain new where new: "groups' = (groups @ [?ref]) @ new" "new = [] \<or> idx + 1 + length new \<le> CHECKPOINT_MAX_PAGE_GROUPS"
            "groups_hold sha (objs w') root page_size d f (idx + 1) (cursor + chunk) (cursor + chunk + (remaining - chunk)) new"
            using ih chunk ok by auto
          have n: "cursor + chunk + (remaining - chunk) = cursor + remaining" using chunk by simp
          have "groups_hold sha (objs w') root page_size d f idx cursor (cursor + remaining) (?ref # new)"
            unfolding groups_hold.simps
            by (rule exI [of _ chunk], rule exI [of _ data]) (use new(3) n chunk Some at ob 2 in \<open>simp add: s_def\<close>)
          then show ?thesis using new 2 by (intro exI [of _ "?ref # new"]) auto
        qed
        then show ?thesis using ih chunk frame by simp
      qed
    qed
  qed
qed

end

section \<open>Applying the groups\<close>

lemma write_at_end: "length img = off \<Longrightarrow> write_at img off data = img @ data"
  by (simp add: write_at_def)

lemma ucast_of_nat_u32: "n < 2 ^ 32 \<Longrightarrow> (ucast (of_nat n :: u32) :: u64) = of_nat n"
  by (rule word_unat_eq_iff [THEN iffD2]) (simp add: unsigned_ucast_eq unsigned_of_nat take_bit_nat_eq_self)

lemma page_number_offset:
  assumes "k < 2 ^ 32 - 1" "k * unat page_size \<le> int64_max"
  shows "unat ((ucast (of_nat (k + 1) :: u32) - 1) * ucast (page_size :: u32) :: u64) = k * unat page_size"
proof -
  have "(ucast (of_nat (k + 1) :: u32) :: u64) = of_nat (k + 1)"
    by (rule ucast_of_nat_u32) (use assms(1) in simp)
  then have "(ucast (of_nat (k + 1) :: u32) - 1) * ucast page_size = (of_nat (k * unat page_size) :: u64)" by simp
  moreover have "unat (of_nat (k * unat page_size) :: u64) = k * unat page_size"
    using assms(2) unfolding unsigned_of_nat by (subst take_bit_nat_eq_self) (simp_all add: int64_max_def)
  ultimately show ?thesis by simp
qed

lemma apply_group_records_pages:
  assumes view: "cv_page_size v = page_size"
    "\<forall>i<chunk. otsardb_checkpoint_page_frame v (of_nat i) =
       Some (of_nat (cursor + i + 1), False, db_page f (unat page_size) (cursor + i))"
    and small: "cursor + chunk < 2 ^ 32" "(cursor + chunk) * unat page_size \<le> int64_max"
    and j: "j \<le> chunk" "length img = (cursor + j) * unat page_size"
  shows "apply_group_records v [j..<chunk] img = (True, img @ db_pages f (unat page_size) (cursor + j) (cursor + chunk))"
  using j
proof (induction "chunk - j" arbitrary: j img)
  case 0
  then show ?case by (simp add: db_pages_def)
next
  case (Suc k)
  then have jl: "j < chunk" by simp
  have "(cursor + j) * unat page_size \<le> (cursor + chunk) * unat page_size" using jl by (intro mult_le_mono1) simp
  then have bound: "(cursor + j) * unat page_size \<le> int64_max" using small(2) by linarith
  have off: "unat ((ucast (of_nat (cursor + j + 1) :: u32) - 1) * ucast page_size :: u64) = (cursor + j) * unat page_size"
    by (rule page_number_offset [OF _ bound]) (use small(1) jl in simp)
  have split: "[j..<chunk] = j # [Suc j..<chunk]" using jl by (rule upt_conv_Cons)
  have "apply_group_records v [Suc j..<chunk] (img @ db_page f (unat page_size) (cursor + j)) =
      (True, (img @ db_page f (unat page_size) (cursor + j)) @ db_pages f (unat page_size) (cursor + Suc j) (cursor + chunk))"
    by (rule Suc.hyps(1)) (use Suc.hyps(2) Suc.prems jl in \<open>simp_all add: algebra_simps\<close>)
  moreover have "db_pages f (unat page_size) (cursor + j) (cursor + chunk) =
      db_page f (unat page_size) (cursor + j) @ db_pages f (unat page_size) (cursor + Suc j) (cursor + chunk)"
    using db_pages_append [of "cursor + j" "cursor + j + 1" "cursor + chunk" f "unat page_size"] jl by (simp add: db_pages_def)
  ultimately show ?case
    using view jl off bound Suc.prems(2) by (simp add: split Let_def write_at_end)
qed

lemma group_length:
  assumes enc: "otsardb_checkpoint_page_encode p d nos pages n = Some out" and len: "length pages = unat n * unat p"
  shows "length out = 32 + unat n * (12 + unat p)" "32 + unat n * (12 + unat p) \<le> size_max" "n \<noteq> 0" "p \<noteq> 0"
proof -
  have out: "out = cp_header p d n @ concat (map (cp_record p nos pages) [0..<unat n])"
    and guards: "12 + unat p \<le> size_max div unat n" "CP_HEADER_SIZE \<le> size_max - (12 + unat p) * unat n"
    and nz: "n \<noteq> 0" "p \<noteq> 0"
    using enc by (auto simp: otsardb_checkpoint_page_encode_def Let_def not_less split: if_splits)
  show "n \<noteq> 0" "p \<noteq> 0" by (rule nz)+
  show "length out = 32 + unat n * (12 + unat p)"
    using length_concat_records [of "map (cp_record p nos pages) [0..<unat n]" "12 + unat p"]
      cp_record_fields(1) [OF page_in_pages [OF _ len]] by (auto simp: out)
  have "(12 + unat p) * unat n \<le> size_max"
    using mult_le_mono1 [OF guards(1), of "unat n"] div_times_less_eq_dividend [of size_max "unat n"] by linarith
  then show "32 + unat n * (12 + unat p) \<le> size_max"
    using guards(2) by (simp add: CP_HEADER_SIZE_def mult.commute)
qed

lemma group_decodes:
  assumes "otsardb_checkpoint_page_encode page_size d (map (\<lambda>i. of_nat (cursor + i + 1)) [0..<chunk])
      (db_pages f (unat page_size) cursor (cursor + chunk)) (of_nat chunk) = Some data"
    and "chunk < 2 ^ 32"
  shows "length data \<le> size_max \<and>
    (\<exists>v. otsardb_checkpoint_page_decode data = Some v \<and> cv_page_size v = page_size \<and> unat (cv_page_count v) = chunk \<and>
    (\<forall>i<chunk. otsardb_checkpoint_page_frame v (of_nat i) =
       Some (of_nat (cursor + i + 1), False, db_page f (unat page_size) (cursor + i))))"
proof -
  have n: "unat (of_nat chunk :: u32) = chunk" using assms(2) by (simp add: unsigned_of_nat take_bit_nat_eq_self)
  have len: "length (db_pages f (unat page_size) cursor (cursor + chunk)) = unat (of_nat chunk :: u32) * unat page_size"
    by (simp add: n)
  obtain v where v: "otsardb_checkpoint_page_decode data = Some v" "cv_page_size v = page_size" "cv_page_count v = of_nat chunk"
    "\<forall>i < of_nat chunk. otsardb_checkpoint_page_frame v i =
       Some (map (\<lambda>i. of_nat (cursor + i + 1)) [0..<chunk] ! unat i, False,
         mem_slice (db_pages f (unat page_size) cursor (cursor + chunk)) (unat i * unat page_size) (unat page_size))"
    using checkpoint_page_encode_decode [OF assms(1) len] by blast
  have "otsardb_checkpoint_page_frame v (of_nat i) = Some (of_nat (cursor + i + 1), False, db_page f (unat page_size) (cursor + i))"
    if i: "i < chunk" for i
  proof -
    have u: "unat (of_nat i :: u32) = i" using i assms(2) by (simp add: unsigned_of_nat take_bit_nat_eq_self)
    have "(of_nat i :: u32) < of_nat chunk" using i u n by (simp add: word_less_nat_alt)
    then show ?thesis using v(4) i u by (simp add: db_pages_slice)
  qed
  then show ?thesis using v n group_length(1,2) [OF assms(1) len] by auto
qed

context answering_store
begin

lemma apply_groups_live:
  assumes "groups_hold sha (objs w) root page_size d f idx cursor n refs" "valid w"
    "n < 2 ^ 32" "n * unat page_size \<le> int64_max" "length (file_bytes x) = cursor * unat page_size" "cursor < n"
  shows "\<exists>w'. apply_checkpoint_groups sha store root refs w x =
     (True, Some (file_bytes x @ db_pages f (unat page_size) cursor n), w') \<and> valid w' \<and> objs w' = objs w"
  using assms
proof (induction refs arbitrary: idx cursor w x)
  case (Cons ref refs)
  obtain chunk data ob where c: "0 < chunk" "chunk \<le> CHECKPOINT_MAX_PAGES_PER_GROUP" "cursor + chunk \<le> n"
    "otsardb_checkpoint_page_encode page_size d (map (\<lambda>i. of_nat (cursor + i + 1)) [0..<chunk])
       (db_pages f (unat page_size) cursor (cursor + chunk)) (of_nat chunk) = Some data"
    "objs w (join_root root (gr_key ref)) = Some ob" "so_data ob = data"
    "length (join_root root (gr_key ref)) \<le> KEY_MAX"
    "ref = \<lparr>gr_key = group_suffix (otsardb_sha256_hex_data sha data) idx, gr_sha256 = otsardb_sha256_hex_data sha data,
       gr_size = of_nat (length data)\<rparr>"
    "groups_hold sha (objs w) root page_size d f (idx + 1) (cursor + chunk) n refs"
    using Cons.prems(1) by auto
  obtain v where v: "otsardb_checkpoint_page_decode data = Some v" "cv_page_size v = page_size" "unat (cv_page_count v) = chunk"
    "\<forall>i<chunk. otsardb_checkpoint_page_frame v (of_nat i) =
       Some (of_nat (cursor + i + 1), False, db_page f (unat page_size) (cursor + i))"
    using group_decodes [OF c(4)] c(3) Cons.prems(3) by auto
  have b: "(cursor + chunk) * unat page_size \<le> int64_max"
    using mult_le_mono1 [OF c(3), of "unat page_size"] Cons.prems(4) by linarith
  have rec: "apply_group_records v [0..<chunk] (file_bytes x) =
      (True, file_bytes x @ db_pages f (unat page_size) cursor (cursor + chunk))"
    using apply_group_records_pages [OF v(2,4) _ b, of 0 "file_bytes x"] c(3) Cons.prems(3,5) by simp
  have key: "root_join root (gr_key ref) (KEY_MAX + 1) = Some (join_root root (gr_key ref))"
    using c(7,8) by (simp add: group_suffix_def join_root_def)
  obtain w1 where get: "otsardb_store_get store w (join_root root (gr_key ref)) = (STORE_OK, ob, w1)"
    using get_live [OF Cons.prems(2) c(5)] by blast
  note same = get_same [OF get Cons.prems(2)]
  have size: "length data = unat (of_nat (length data) :: u64)"
    using group_decodes [OF c(4)] c(3) Cons.prems(3) by (simp add: unsigned_of_nat take_bit_nat_eq_self size_max_def)
  have step: "apply_checkpoint_groups sha store root (ref # refs) w x =
      apply_checkpoint_groups sha store root refs w1 (Some (file_bytes x @ db_pages f (unat page_size) cursor (cursor + chunk)))"
    using key get c(6,8) v(1,3) rec size by (simp del: root_join_Some)
  show ?case
  proof (cases "cursor + chunk = n")
    case True
    then have "refs = []" using c(9) by (cases refs) auto
    then show ?thesis using step True same by simp
  next
    case False
    let ?img = "file_bytes x @ db_pages f (unat page_size) cursor (cursor + chunk)"
    obtain w2 where "apply_checkpoint_groups sha store root refs w1 (Some ?img) =
       (True, Some (file_bytes (Some ?img) @ db_pages f (unat page_size) (cursor + chunk) n), w2)" "valid w2" "objs w2 = objs w1"
      using Cons.IH [of w1 "idx + 1" "cursor + chunk" "Some ?img"] c(3,9) same Cons.prems(3-5) False
      by (auto simp: file_bytes_def algebra_simps)
    then show ?thesis
      using step same db_pages_append [of cursor "cursor + chunk" n f "unat page_size"] c(3) by (simp add: file_bytes_def)
  qed
qed simp

end

section \<open>A published checkpoint\<close>

definition checkpoint_pointer_of :: "checkpoint_manifest \<Rightarrow> string \<Rightarrow> string \<Rightarrow> checkpoint_pointer" where
  "checkpoint_pointer_of cp manifest_key manifest_sha256 =
     \<lparr>cp_covered_generation = ck_covered_generation cp, cp_checkpoint_sha256 = manifest_sha256,
      cp_checkpoint_key = manifest_key, cp_database_id = ck_database_id cp\<rparr>"

text \<open>The manifest is in the store under the key and with the digest that the pointer names.\<close>

definition checkpoint_stored ::
  "(bytes \<Rightarrow> bytes) \<Rightarrow> (string \<rightharpoonup> store_object) \<Rightarrow> string \<Rightarrow> checkpoint_manifest \<Rightarrow> bool" where
  "checkpoint_stored sha contents root cp \<longleftrightarrow>
     (\<exists>name ob ptr. contents (join_root root (''checkpoints/'' @ name)) = Some ob \<and>
        otsardb_checkpoint_manifest_decode (so_data ob) = Some cp \<and>
        stored_checkpoint contents root = Some ptr \<and> length (checkpoint_key root) \<le> KEY_MAX \<and>
        ptr = checkpoint_pointer_of cp (join_root root (''checkpoints/'' @ name)) (otsardb_sha256_hex_data sha (so_data ob)))"

lemma checkpoint_names:
  "join_root root (manifest_suffix s) \<noteq> checkpoint_key root" "\<not> group_key root idx (checkpoint_key root)"
  "length s = 64 \<Longrightarrow> \<not> group_key root idx (join_root root (manifest_suffix s))"
proof -
  show "join_root root (manifest_suffix s) \<noteq> checkpoint_key root" "\<not> group_key root idx (checkpoint_key root)"
    by (auto simp: manifest_suffix_def checkpoint_key_def group_key_def group_suffix_def)
  show "\<not> group_key root idx (join_root root (manifest_suffix s))" if "length s = 64"
  proof
    assume "group_key root idx (join_root root (manifest_suffix s))"
    then obtain t i where "length t = 64" "manifest_suffix s = group_suffix t i" by (auto simp: group_key_def)
    then show False using that by (auto simp: manifest_suffix_def group_suffix_def)
  qed
qed

context object_store_laws
begin

lemma publish_checkpoint_law:
  assumes "publish_checkpoint sha store w root cp = (r, w')" "valid w" "\<forall>x. length (sha x) = 32"
  shows "valid w' \<and>
    (\<forall>key. key \<noteq> checkpoint_key root \<and> (\<forall>s. length s = 64 \<longrightarrow> key \<noteq> join_root root (manifest_suffix s)) \<longrightarrow> objs w' key = objs w key) \<and>
    (r = BUILD_OK \<and> checkpoint_manifest_wf cp \<and> ck_database_id cp \<noteq> [] \<and> plain_string root \<longrightarrow>
       checkpoint_stored sha (objs w') root cp)"
proof (cases "otsardb_checkpoint_manifest_encode sha cp")
  case None
  then show ?thesis using assms by (auto simp: publish_checkpoint_def)
next
  case (Some x)
  obtain json s where x: "x = (json, s)" by (cases x)
  have doc: "json = checkpoint_document cp" "s = otsardb_sha256_hex_data sha (bytes_of_string json)" "checkpoint_manifest_valid cp"
    using Some x by (auto simp: checkpoint_encode_exact split: if_splits)
  have len: "length s = 64"
    using sha256_provider.hex_length [of sha] assms(3) by (simp add: sha256_provider_def doc(2))
  let ?key = "join_root root (manifest_suffix s)"
  let ?ptr = "checkpoint_pointer_of cp ?key s"
  have ne: "manifest_suffix s \<noteq> []" "?key \<noteq> []" "checkpoint_key root \<noteq> []"
    by (simp_all add: manifest_suffix_def join_root_def checkpoint_key_def)
  show ?thesis
  proof (cases "length ?key > KEY_MAX")
    case True
    then have "w' = w \<and> r = BUILD_FAILED"
      using assms(1) Some x by (auto simp: publish_checkpoint_def root_join_def snprintf_fits_def split: if_splits)
    then show ?thesis using assms(2) by simp
  next
    case False
    have "length (manifest_suffix s) \<le> length ?key" by (simp add: join_root_def)
    then have fits: "snprintf_fits (manifest_suffix s) (KEY_MAX + 1) = Some (manifest_suffix s)"
      "root_join root (manifest_suffix s) (KEY_MAX + 1) = Some ?key"
      using False ne by (simp_all add: snprintf_fits_def)
    obtain rc e w1 where put: "otsardb_store_put store w ?key (bytes_of_string json) no_options = (rc, e, w1)"
      by (cases "otsardb_store_put store w ?key (bytes_of_string json) no_options")
    note law1 = put_law [OF put assms(2)]
    define ptr where "ptr = \<lparr>cp_covered_generation = ck_covered_generation cp,
       cp_checkpoint_sha256 = take CHECKPOINT_SHA256_HEX_SIZE s, cp_checkpoint_key = take 1023 ?key,
       cp_database_id = take CHECKPOINT_ID_MAX (ck_database_id cp)\<rparr>"
    have frame1: "objs w1 key = objs w key" if "key \<noteq> ?key" for key by (rule put_other [OF put assms(2) that])
    show ?thesis
    proof (cases "rc \<noteq> STORE_OK \<or> otsardb_checkpoint_ptr_encode ptr = None \<or> length (checkpoint_key root) > KEY_MAX")
      case True
      then have "w' = w1 \<and> r = BUILD_FAILED"
        using assms(1) Some x put fits
        by (auto simp: publish_checkpoint_def ptr_def checkpoint_key_def root_join_def snprintf_fits_def split: if_splits option.splits)
      then show ?thesis using law1 frame1 len by auto
    next
      case ok: False
      then have enc: "otsardb_checkpoint_ptr_encode ptr = Some (checkpoint_ptr_text ptr)"
        by (auto simp: otsardb_checkpoint_ptr_encode_def split: if_splits)
      obtain rc2 e2 w2 where put2: "otsardb_store_put store w1 (checkpoint_key root) (bytes_of_string (checkpoint_ptr_text ptr)) no_options = (rc2, e2, w2)"
        by (cases "otsardb_store_put store w1 (checkpoint_key root) (bytes_of_string (checkpoint_ptr_text ptr)) no_options")
      note law2 = put_law [OF put2 conjunct1 [OF law1]]
      have kr: "root_join root ''CHECKPOINT.json'' (KEY_MAX + 1) = Some (checkpoint_key root)"
        using ok ne(3) by (simp add: checkpoint_key_def)
      have res: "w' = w2" "r = (if rc2 = STORE_OK then BUILD_OK else BUILD_FAILED)"
        using assms(1) Some x put put2 fits ok enc kr
        by (auto simp: publish_checkpoint_def ptr_def [symmetric] simp del: root_join_Some snprintf_fits_Some)
      have frame2: "objs w' key = objs w1 key" if "key \<noteq> checkpoint_key root" for key
        using put_other [OF put2 conjunct1 [OF law1] that] res by simp
      have "checkpoint_stored sha (objs w') root cp"
        if st: "r = BUILD_OK" "checkpoint_manifest_wf cp" "ck_database_id cp \<noteq> []" "plain_string root"
      proof -
        have rc2: "rc2 = STORE_OK" using st(1) res(2) by (simp split: if_splits)
        have p: "ptr = ?ptr"
          using st(2) len False by (simp add: ptr_def checkpoint_pointer_of_def checkpoint_manifest_wf_def CHECKPOINT_SHA256_HEX_SIZE_def KEY_MAX_def)
        have plain: "plain_string s" using sha256_hex_plain doc(2) by (simp add: otsardb_sha256_hex_data_def)
        then have "plain_string ?key"
          using st(4) by (auto simp: plain_string_def join_root_def manifest_suffix_def)
        then have wf: "checkpoint_ptr_wf ptr"
          using st(2,3) len plain ne False
          by (auto simp: p checkpoint_ptr_wf_def checkpoint_pointer_of_def checkpoint_manifest_wf_def CHECKPOINT_SHA256_HEX_SIZE_def KEY_MAX_def)
        obtain ob where ob: "objs w1 ?key = Some ob" "so_data ob = bytes_of_string json"
          using law1 ok by (auto simp: put_stored_def)
        obtain ob2 where ob2: "objs w' (checkpoint_key root) = Some ob2" "so_data ob2 = bytes_of_string (checkpoint_ptr_text ptr)"
          using law2 rc2 res(1) by (auto simp: put_stored_def)
        have "objs w' ?key = Some ob" using frame2 checkpoint_names(1) ob(1) by simp
        moreover have "otsardb_checkpoint_manifest_decode (so_data ob) = Some cp"
          using checkpoint_decode_document [OF st(2) doc(3)] by (simp add: ob(2) doc(1))
        moreover have "stored_checkpoint (objs w') root = Some ?ptr"
          using ob2 checkpoint_ptr_decode_text [OF wf] p by (simp add: stored_checkpoint_def)
        ultimately show ?thesis
          unfolding checkpoint_stored_def using ok doc(2) ob(2)
          by (intro exI [of _ "s @ ''.json''"] exI [of _ ob] exI [of _ ?ptr]) (simp add: manifest_suffix_def)
      qed
      then show ?thesis using law2 res frame1 frame2 len by auto
    qed
  qed
qed

end

lemma groups_hold_bound:
  "groups_hold sha contents root page_size d f idx cursor n refs \<Longrightarrow> n \<le> cursor + length refs * CHECKPOINT_MAX_PAGES_PER_GROUP"
  by (induction refs arbitrary: idx cursor) force+

lemma groups_hold_wf:
  "groups_hold sha contents root page_size d f idx cursor n refs \<Longrightarrow> list_all group_ref_wf refs"
proof (induction refs arbitrary: idx cursor)
  case (Cons ref refs)
  obtain chunk data where c: "length (gr_key ref) \<le> CHECKPOINT_PAGE_GROUP_KEY_MAX"
    "ref = \<lparr>gr_key = group_suffix (otsardb_sha256_hex_data sha data) idx, gr_sha256 = otsardb_sha256_hex_data sha data,
       gr_size = of_nat (length data)\<rparr>"
    "groups_hold sha contents root page_size d f (idx + 1) (cursor + chunk) n refs"
    using Cons.prems by auto
  have s: "plain_string (otsardb_sha256_hex_data sha data)" using sha256_hex_plain by (simp add: otsardb_sha256_hex_data_def)
  have "plain_string (group_suffix (otsardb_sha256_hex_data sha data) idx)"
    using s dec_no_quote [of idx] dec_no_nul [of idx] by (auto simp: plain_string_def group_suffix_def)
  then show ?case using c s Cons.IH [OF c(3)] by (simp add: group_ref_wf_def)
qed simp

lemma db_pages_whole:
  assumes "length f = n * page_size"
  shows "db_pages f page_size 0 n = f"
proof (rule nth_equalityI)
  show len: "length (db_pages f page_size 0 n) = length f" using assms by simp
  fix i assume i: "i < length (db_pages f page_size 0 n)"
  then have ps: "0 < page_size" and il: "i < n * page_size" using assms len by (auto intro: Nat.gr0I)
  let ?p = "i div page_size"
  have p: "?p < n" using il ps by (simp add: div_less_iff_less_mult)
  have "(?p + 1) * page_size \<le> length f" using p assms by (metis Suc_eq_plus1 Suc_leI mult_le_mono1)
  then have pg: "db_page f page_size ?p = mem_slice f (?p * page_size) page_size" by (simp add: db_page_def)
  have slice: "mem_slice xs (?p * page_size) page_size ! (i mod page_size) = xs ! i" if "length xs = n * page_size" for xs :: bytes
  proof -
    have "i mod page_size < page_size" using ps by simp
    moreover have "drop (?p * page_size) xs ! (i mod page_size) = xs ! (?p * page_size + i mod page_size)"
      using that p by (intro nth_drop) simp
    ultimately show ?thesis using that il by (simp add: mem_slice_def)
  qed
  have "mem_slice (db_pages f page_size 0 n) (?p * page_size) page_size = mem_slice f (?p * page_size) page_size"
    using db_pages_slice [OF p, of f page_size 0] pg by simp
  then show "db_pages f page_size 0 n ! i = f ! i"
    using slice [of f] slice [of "db_pages f page_size 0 n"] assms by simp
qed

context object_store_laws
begin

lemma checkpoint_build_law:
  assumes build: "otsardb_checkpoint_build env cipher store w root file = (BUILD_OK, file', w')" and w: "valid w"
    and sha: "\<forall>x. length (re_sha env x) = 32"
  shows "\<exists>meta h ob m f groups. stored_metadata (objs w) root = Some meta \<and> stored_head (objs w) root = Some h \<and>
    recovery_head_ok meta h \<and> restored env (objs w) root meta h cipher (Some f) \<and> head_checksum_ok (re_sha env) (objs w) h (Some f) \<and>
    objs w (hd_commit_key h) = Some ob \<and> otsardb_commit_manifest_decode_json (so_data ob) = Some m \<and> file' = Some f \<and>
    cm_database_size_pages m \<noteq> 0 \<and> length groups \<le> CHECKPOINT_MAX_PAGE_GROUPS \<and>
    groups_hold (re_sha env) (objs w') root (dm_page_size meta) (cm_database_size_pages m) f 0 0 (unat (cm_database_size_pages m)) groups \<and>
    (head_wf h \<and> hd_database_id h \<noteq> [] \<and> plain_string root \<longrightarrow>
       checkpoint_stored (re_sha env) (objs w') root (checkpoint_of_head h (dm_page_size meta) (cm_database_size_pages m) groups)) \<and>
    valid w' \<and>
    (\<forall>key. key \<noteq> checkpoint_key root \<and> (\<forall>name. key \<noteq> join_root root (''checkpoints/'' @ name)) \<longrightarrow> objs w' key = objs w key)"
proof -
  obtain ok f1 w1 where rs: "otsardb_recovery_restore_store_ex env store w root cipher file = (ok, f1, w1)"
    by (cases "otsardb_recovery_restore_store_ex env store w root cipher file")
  note law1 = restore_store_law [OF rs w]
  obtain rm md w2 where md: "otsardb_db_metadata_read store w1 root = (rm, md, w2)" by (cases "otsardb_db_metadata_read store w1 root")
  note law2 = metadata_read_law [OF md conjunct1 [OF law1]]
  obtain rh he w3 where hd: "otsardb_journal_read_head store w2 root = (rh, he, w3)" by (cases "otsardb_journal_read_head store w2 root")
  note law3 = read_head_law [OF hd conjunct1 [OF law2]]
  obtain meta h e where sel: "ok" "md = Some meta" "he = Some (h, e)"
    using build rs md hd
    by (cases md; cases he) (auto simp: otsardb_checkpoint_build_def otsardb_recovery_restore_store_def split: if_splits)
  obtain rc ob w4 where get: "otsardb_store_get store w3 (hd_commit_key h) = (rc, ob, w4)"
    by (cases "otsardb_store_get store w3 (hd_commit_key h)")
  note law4 = get_law [OF get conjunct1 [OF law3]]
  obtain m f where mf: "rc = STORE_OK" "otsardb_commit_manifest_decode_json (so_data ob) = Some m"
      "cm_database_size_pages m \<noteq> 0" "f1 = Some f"
    and rest: "(case build_groups (re_sha env) store root (dm_page_size meta) (cm_database_size_pages m) f
         (unat (cm_database_size_pages m)) 0 0 [] w4 of
       (r, groups, w5) \<Rightarrow>
         if r \<noteq> BUILD_OK then (r, f1, w5)
         else (case publish_checkpoint (re_sha env) store w5 root
                 (checkpoint_of_head h (dm_page_size meta) (cm_database_size_pages m) groups) of
                 (r, w6) \<Rightarrow> (r, f1, w6))) = (BUILD_OK, file', w')"
    using build rs md hd sel get
    by (auto simp: otsardb_checkpoint_build_def otsardb_recovery_restore_store_def Let_def split: if_splits option.splits)
  obtain r5 groups w5 where bg: "build_groups (re_sha env) store root (dm_page_size meta) (cm_database_size_pages m) f
         (unat (cm_database_size_pages m)) 0 0 [] w4 = (r5, groups, w5)"
    by (cases "build_groups (re_sha env) store root (dm_page_size meta) (cm_database_size_pages m) f
         (unat (cm_database_size_pages m)) 0 0 [] w4")
  note law5 = build_groups_law [OF bg conjunct1 [OF law4] sha]
  let ?cp = "checkpoint_of_head h (dm_page_size meta) (cm_database_size_pages m) groups"
  obtain r6 w6 where pc: "publish_checkpoint (re_sha env) store w5 root ?cp = (r6, w6)"
    by (cases "publish_checkpoint (re_sha env) store w5 root ?cp")
  note law6 = publish_checkpoint_law [OF pc conjunct1 [OF law5] sha]
  have res: "r5 = BUILD_OK" "r6 = BUILD_OK" "file' = f1" "w' = w6"
    using rest bg pc by (auto split: if_splits)
  have groups0: "groups_hold (re_sha env) (objs w5) root (dm_page_size meta) (cm_database_size_pages m) f 0 0
      (unat (cm_database_size_pages m)) groups" and len: "length groups \<le> CHECKPOINT_MAX_PAGE_GROUPS"
    using law5 res(1) by auto
  have base: "objs w4 = objs w" "stored_metadata (objs w) root = Some meta" "stored_head (objs w) root = Some h"
      "objs w (hd_commit_key h) = Some ob"
    using law1 law2 law3 law4 sel mf metadata_read_ok [OF md] by (auto simp: stored_metadata_def)
  have restored: "recovery_head_ok meta h" "restored env (objs w) root meta h cipher (Some f)"
      "head_checksum_ok (re_sha env) (objs w) h (Some f)"
    using law1 sel(1) base mf(4) by auto
  have keys: "key \<noteq> checkpoint_key root \<and> (\<forall>s. length s = 64 \<longrightarrow> key \<noteq> join_root root (manifest_suffix s))"
    if "group_key root 0 key" for key
    using that checkpoint_names by metis
  have groups: "groups_hold (re_sha env) (objs w') root (dm_page_size meta) (cm_database_size_pages m) f 0 0
      (unat (cm_database_size_pages m)) groups"
    by (rule groups_hold_cong [OF groups0 _ sha]) (use law6 keys res(4) in blast)
  have stored: "checkpoint_stored (re_sha env) (objs w') root ?cp"
    if h: "head_wf h" "hd_database_id h \<noteq> []" "plain_string root"
  proof -
    have "checkpoint_manifest_wf ?cp"
      using h restored(1) groups_hold_wf [OF groups]
      by (simp add: checkpoint_manifest_wf_def checkpoint_of_head_def head_wf_def recovery_head_ok_def plain_string_take)
    moreover have "ck_database_id ?cp \<noteq> []" using h by (simp add: checkpoint_of_head_def CHECKPOINT_ID_MAX_def)
    ultimately show ?thesis using law6 res h by blast
  qed
  have frame: "objs w' key = objs w key"
    if k: "key \<noteq> checkpoint_key root" "\<forall>name. key \<noteq> join_root root (''checkpoints/'' @ name)" for key
  proof -
    have "\<not> group_key root 0 key" using k by (auto simp: group_key_def group_suffix_def)
    moreover have "\<forall>s. key \<noteq> join_root root (manifest_suffix s)" using k by (simp add: manifest_suffix_def)
    ultimately show ?thesis using law5 law6 k(1) res(4) base(1) by metis
  qed
  show ?thesis
    using base restored mf groups len stored frame law6 res by blast
qed

end

end
