(* ===== verification/Checkpoint_Live.thy ===== *)
theory Checkpoint_Live
  imports Checkpoint_Build
begin

text \<open>
  When a checkpoint build succeeds: in a store that accepts writes, every database that can be restored, is
  not larger than the groups can hold and has a root that leaves room for the keys gets its checkpoint.
\<close>

section \<open>Lengths\<close>

lemma hex_data_length: "\<forall>x. length (sha x) = 32 \<Longrightarrow> length (otsardb_sha256_hex_data sha d) = 64"
  using sha256_provider.hex_length [of sha] by (simp add: sha256_provider_def)

lemma group_suffix_length:
  assumes "length s = 64" "idx < 1000"
  shows "length (group_suffix s idx) \<le> 92" "group_suffix s idx \<noteq> []"
  using assms length_dec_le [of idx 2] by (simp_all add: group_suffix_def)

lemma page_encode_Some:
  assumes "page_size \<noteq> 0" "0 < chunk" "chunk \<le> 4096" "cursor + chunk \<le> unat d" "unat d \<le> 2 ^ 19"
  shows "\<exists>out. otsardb_checkpoint_page_encode page_size d (map (\<lambda>i. of_nat (cursor + i + 1)) [0..<chunk]) pages (of_nat chunk) = Some out"
proof -
  have c: "unat (of_nat chunk :: u32) = chunk" "(of_nat chunk :: u32) \<noteq> 0"
  proof -
    show "unat (of_nat chunk :: u32) = chunk" using assms(3) by (simp add: unsigned_of_nat take_bit_nat_eq_self)
    then show "(of_nat chunk :: u32) \<noteq> 0" using assms(2) by auto
  qed
  have no: "unat (of_nat (cursor + i + 1) :: u32) = cursor + i + 1" if "i < chunk" for i
    unfolding unsigned_of_nat by (subst take_bit_nat_eq_self) (use assms that in simp_all)
  have "\<not> list_ex (\<lambda>i. map (\<lambda>i. of_nat (cursor + i + 1)) [0..<chunk] ! i = (0 :: u32) \<or>
      (ucast (map (\<lambda>i. of_nat (cursor + i + 1)) [0..<chunk] ! i :: u32) :: u64) > d) [0..<chunk]"
  proof -
    have "of_nat (cursor + i + 1) \<noteq> (0 :: u32) \<and> \<not> (ucast (of_nat (cursor + i + 1) :: u32) :: u64) > d" if i: "i < chunk" for i
    proof -
      have "unat (ucast (of_nat (cursor + i + 1) :: u32) :: u64) = cursor + i + 1"
        using no [OF i] unsigned_less [where ?'a = nat, of "of_nat (cursor + i + 1) :: u32"]
        by (simp add: unsigned_ucast_eq take_bit_nat_eq_self del: of_nat_Suc of_nat_add)
      then show ?thesis using no [OF i] i assms(4) by (auto simp: word_less_nat_alt simp del: of_nat_Suc of_nat_add)
    qed
    then show ?thesis by (auto simp: list_ex_iff simp del: of_nat_Suc of_nat_add)
  qed
  moreover have "(12 + unat page_size) * chunk \<le> (12 + 2 ^ 32) * 4096"
    using assms(3) unsigned_less [where ?'a = nat, of page_size] by (intro mult_le_mono) simp_all
  then have "12 + unat page_size \<le> size_max div chunk" "CP_HEADER_SIZE \<le> size_max - (12 + unat page_size) * chunk"
    using assms(2) by (simp_all add: less_eq_div_iff_mult_less_eq size_max_def CP_HEADER_SIZE_def)
  ultimately show ?thesis
    using assms(1) c by (simp add: otsardb_checkpoint_page_encode_def Let_def not_less)
qed

text \<open>Every group of a built checkpoint has the shape that the encoder of the manifest asks for.\<close>

lemma groups_hold_valid:
  assumes "groups_hold sha contents root page_size d f idx cursor n refs" "\<forall>x. length (sha x) = 32" "n \<le> 2 ^ 19"
  shows "list_all (\<lambda>r. \<not> (gr_key r = [] \<or> length (gr_sha256 r) \<noteq> CHECKPOINT_SHA256_HEX_SIZE \<or>
    \<not> page_group_size_valid (gr_size r) page_size)) refs"
  using assms(1)
proof (induction refs arbitrary: idx cursor)
  case (Cons ref refs)
  obtain chunk data where c: "0 < chunk" "chunk \<le> CHECKPOINT_MAX_PAGES_PER_GROUP"
    "otsardb_checkpoint_page_encode page_size d (map (\<lambda>i. of_nat (cursor + i + 1)) [0..<chunk])
       (db_pages f (unat page_size) cursor (cursor + chunk)) (of_nat chunk) = Some data"
    "ref = \<lparr>gr_key = group_suffix (otsardb_sha256_hex_data sha data) idx, gr_sha256 = otsardb_sha256_hex_data sha data,
       gr_size = of_nat (length data)\<rparr>"
    "groups_hold sha contents root page_size d f (idx + 1) (cursor + chunk) n refs"
    using Cons.prems by auto
  have u: "unat (of_nat chunk :: u32) = chunk"
    using c(2) by (simp add: unsigned_of_nat take_bit_nat_eq_self CHECKPOINT_MAX_PAGES_PER_GROUP_def)
  have data: "length data = 32 + chunk * (12 + unat page_size)" "page_size \<noteq> 0"
    using group_length [OF c(3)] by (simp_all add: u)
  let ?r = "12 + ucast page_size :: u64" and ?s = "of_nat (length data) :: u64"
  have b: "chunk * (12 + unat page_size) \<le> 4096 * (12 + 2 ^ 32)"
    using c(2) unsigned_less [where ?'a = nat, of page_size]
    by (intro mult_le_mono) (simp_all add: CHECKPOINT_MAX_PAGES_PER_GROUP_def)
  have r: "unat ?r = 12 + unat page_size"
    using unsigned_less [where ?'a = nat, of page_size] by (simp add: unat_word_ariths unsigned_ucast_eq take_bit_nat_eq_self)
  have s: "unat ?s = 32 + chunk * (12 + unat page_size)"
    unfolding unsigned_of_nat data(1) by (subst take_bit_nat_eq_self) (use b in simp_all)
  have s32: "unat (?s - 32) = chunk * (12 + unat page_size)"
    by (subst unat_sub) (simp_all add: s word_le_nat_alt)
  have r32: "unat (32 + ?r) = 44 + unat page_size"
    using unsigned_less [where ?'a = nat, of page_size] r by (simp add: unat_word_ariths)
  have "(?s - 32) mod ?r = 0" by (simp add: word_arith_nat_mod [of "?s - 32"] s32 r)
  moreover have "44 + unat page_size \<le> 32 + chunk * (12 + unat page_size)"
    using mult_le_mono1 [of 1 chunk "12 + unat page_size"] c(1) by simp
  then have "\<not> ?s < 32 + ?r" unfolding word_less_nat_alt s r32 by simp
  ultimately have "page_group_size_valid ?s page_size"
    by (simp add: page_group_size_valid_def CHECKPOINT_PAGE_HEADER_SIZE_def CHECKPOINT_PAGE_RECORD_HEADER_SIZE_def Let_def)
  then show ?case
    using Cons.IH [OF c(5)] c(4) hex_data_length [OF assms(2)] by (simp add: CHECKPOINT_SHA256_HEX_SIZE_def group_suffix_def)
qed simp

lemma groups_text_length:
  assumes "list_all group_ref_wf refs" "list_all (\<lambda>r. length (gr_sha256 r) = 64) refs"
  shows "length (groups_text first refs) \<le> 300 * length refs"
  using assms
proof (induction refs arbitrary: first)
  case (Cons r refs)
  have "length (group_literal first r) \<le> 300"
    using Cons.prems length_dec_word(2) [of "gr_size r"]
    by (simp add: group_literal_def json_str_def json_u64_def group_ref_wf_def CHECKPOINT_PAGE_GROUP_KEY_MAX_def)
  then show ?case using Cons.IH [of False] Cons.prems by simp
qed simp

section \<open>Builds in a store that accepts writes\<close>

locale accepting_store = answering_store +
  assumes put_live: "valid w \<Longrightarrow> \<exists>etag w'. otsardb_store_put store w key data no_options = (STORE_OK, etag, w')"
begin

lemma put_accepted:
  assumes "valid w"
  shows "\<exists>etag w'. otsardb_store_put store w key data no_options = (STORE_OK, etag, w') \<and> valid w'"
  using put_live [OF assms, of key data] put_law assms by blast

lemma build_groups_live:
  assumes "page_size \<noteq> 0" "unat d \<le> 2 ^ 19" "length root \<le> 900" "\<forall>x. length (sha x) = 32"
  shows "valid w \<Longrightarrow> cursor + remaining = unat d \<Longrightarrow> cursor = 4096 * idx \<or> remaining = 0 \<Longrightarrow>
    \<exists>groups' w'. build_groups sha store root page_size d f remaining cursor idx groups w = (BUILD_OK, groups', w')"
proof (induction remaining arbitrary: cursor idx groups w rule: less_induct)
  case (less remaining)
  show ?case
  proof (cases "remaining = 0")
    case True
    then show ?thesis by (simp add: build_groups.simps)
  next
    case False
    define chunk where "chunk = (if remaining > CHECKPOINT_MAX_PAGES_PER_GROUP then CHECKPOINT_MAX_PAGES_PER_GROUP else remaining)"
    have chunk: "0 < chunk" "chunk \<le> 4096" "chunk \<le> remaining" "remaining - chunk = 0 \<or> chunk = 4096"
      using False by (auto simp: chunk_def CHECKPOINT_MAX_PAGES_PER_GROUP_def)
    have cur: "cursor = 4096 * idx" using less.prems(3) False by simp
    then have idx: "idx < 128" using less.prems(2) False assms(2) by simp
    obtain nos pages where rd: "read_db_pages f page_size cursor chunk = (nos, pages)" by (cases "read_db_pages f page_size cursor chunk")
    then have nos: "nos = map (\<lambda>i. of_nat (cursor + i + 1)) [0..<chunk]" by (simp add: read_db_pages_def)
    have fit: "cursor + chunk \<le> unat d" using less.prems(2) chunk(3) by simp
    obtain data where data: "otsardb_checkpoint_page_encode page_size d nos pages (of_nat chunk) = Some data"
      using page_encode_Some [OF assms(1) chunk(1,2) fit assms(2)] unfolding nos by blast
    let ?s = "otsardb_sha256_hex_data sha data"
    let ?name = "group_suffix ?s idx"
    have l: "length ?name \<le> 92" "?name \<noteq> []" using group_suffix_length [OF hex_data_length [OF assms(4)]] idx by auto
    have name: "snprintf_fits ?name (CHECKPOINT_PAGE_GROUP_KEY_MAX + 1) = Some ?name"
      using l by (simp add: snprintf_fits_def CHECKPOINT_PAGE_GROUP_KEY_MAX_def)
    have key: "root_join root ?name (KEY_MAX + 1) = Some (join_root root ?name)"
      using l assms(3) by (simp add: join_root_def KEY_MAX_def)
    obtain e w1 where put: "otsardb_store_put store w (join_root root ?name) data no_options = (STORE_OK, e, w1)" "valid w1"
      using put_accepted [OF less.prems(1)] by blast
    define groups1 where "groups1 = groups @ [\<lparr>gr_key = ?name, gr_sha256 = ?s, gr_size = of_nat (length data)\<rparr>]"
    have "\<exists>groups' w'. build_groups sha store root page_size d f (remaining - chunk) (cursor + chunk) (idx + 1) groups1 w1 = (BUILD_OK, groups', w')"
      by (rule less.IH [OF _ put(2)]) (use chunk cur less.prems(2) in auto)
    then show ?thesis
      using False rd data name key put idx
      by (subst build_groups.simps)
        (simp add: chunk_def [symmetric] groups1_def [symmetric] Let_def CHECKPOINT_MAX_PAGE_GROUPS_def del: root_join_Some snprintf_fits_Some)
  qed
qed

lemma publish_checkpoint_live:
  assumes valid: "checkpoint_manifest_valid cp" "checkpoint_manifest_wf cp" and root: "length root \<le> 900" "plain_string root"
    and sha: "\<forall>x. length (sha x) = 32" and w: "valid w"
  shows "\<exists>w'. publish_checkpoint sha store w root cp = (BUILD_OK, w')"
proof -
  have len: "list_all (\<lambda>r. length (gr_sha256 r) = 64) (ck_page_groups cp)" "length (ck_page_groups cp) \<le> 128"
    using valid(1) by (auto simp: checkpoint_manifest_valid_def list_all_iff CHECKPOINT_SHA256_HEX_SIZE_def CHECKPOINT_MAX_PAGE_GROUPS_def)
  have "length (groups_text True (ck_page_groups cp)) \<le> 300 * 128"
    using groups_text_length [of "ck_page_groups cp" True] valid(2) len by (simp add: checkpoint_manifest_wf_def)
  then have "length (checkpoint_document cp) \<le> int_max"
    using valid(2) length_dec_word(1) [of "ck_format_version cp"] length_dec_word(1) [of "ck_page_size cp"]
      length_dec_word(2) [of "ck_covered_generation cp"] length_dec_word(2) [of "ck_database_size_pages cp"]
    by (simp add: checkpoint_document_def checkpoint_header_def checkpoint_manifest_wf_def page_groups_marker_def pattern_u64_def
        json_u64_def json_str_def int_max_def CHECKPOINT_ID_MAX_def CHECKPOINT_SHA256_HEX_SIZE_def)
  then obtain json s where enc: "otsardb_checkpoint_manifest_encode sha cp = Some (json, s)"
    and s: "s = otsardb_sha256_hex_data sha (bytes_of_string json)" using valid(1) by (auto simp: checkpoint_encode_exact)
  have ls: "length s = 64" "plain_string s"
    using hex_data_length [OF sha] sha256_hex_plain by (simp_all add: s otsardb_sha256_hex_data_def)
  let ?key = "join_root root (manifest_suffix s)"
  have name: "snprintf_fits (manifest_suffix s) (KEY_MAX + 1) = Some (manifest_suffix s)"
    using ls by (simp add: snprintf_fits_def manifest_suffix_def KEY_MAX_def)
  have key: "root_join root (manifest_suffix s) (KEY_MAX + 1) = Some ?key"
    "root_join root ''CHECKPOINT.json'' (KEY_MAX + 1) = Some (join_root root ''CHECKPOINT.json'')" "length ?key \<le> 1023"
    using ls root(1) by (simp_all add: join_root_def manifest_suffix_def KEY_MAX_def)
  let ?ptr = "\<lparr>cp_covered_generation = ck_covered_generation cp, cp_checkpoint_sha256 = take CHECKPOINT_SHA256_HEX_SIZE s,
    cp_checkpoint_key = take 1023 ?key, cp_database_id = take CHECKPOINT_ID_MAX (ck_database_id cp)\<rparr>"
  have "length (checkpoint_ptr_text ?ptr) \<le> int_max"
    using length_dec_word(2) [of "ck_covered_generation cp"]
    by (simp add: checkpoint_ptr_text_def CHECKPOINT_ID_MAX_def CHECKPOINT_SHA256_HEX_SIZE_def json_u64_def json_str_def
        dec.simps [of "Suc 0"] int_max_def)
  then have ptr: "otsardb_checkpoint_ptr_encode ?ptr = Some (checkpoint_ptr_text ?ptr)" by (simp add: otsardb_checkpoint_ptr_encode_def)
  obtain e1 w1 where p1: "otsardb_store_put store w ?key (bytes_of_string json) no_options = (STORE_OK, e1, w1)" "valid w1"
    using put_accepted [OF w] by blast
  obtain e2 w2 where p2: "otsardb_store_put store w1 (join_root root ''CHECKPOINT.json'') (bytes_of_string (checkpoint_ptr_text ?ptr)) no_options = (STORE_OK, e2, w2)"
    using put_accepted [OF p1(2)] by blast
  show ?thesis using enc name key ptr p1 p2 by (simp add: publish_checkpoint_def del: root_join_Some snprintf_fits_Some)
qed

lemma checkpoint_build_live:
  assumes restore: "otsardb_recovery_restore_store_ex env store w root cipher old = (True, Some f, w1)" and w: "valid w"
    and sha: "\<forall>x. length (re_sha env x) = 32"
    and root: "length root \<le> 900" "plain_string root"
    and readable: "readable_metadata (objs w) root meta" "readable_head (objs w) root h" "recovery_head_ok meta h"
    and hd: "head_wf h" "hd_database_id h \<noteq> []" "hd_commit_id h \<noteq> []"
    and m: "objs w (hd_commit_key h) = Some ob" "otsardb_commit_manifest_decode_json (so_data ob) = Some m"
    and d: "cm_database_size_pages m \<noteq> 0" "unat (cm_database_size_pages m) \<le> 2 ^ 19" "dm_page_size meta \<noteq> 0"
  shows "\<exists>w'. otsardb_checkpoint_build env cipher store w root old = (BUILD_OK, Some f, w')"
proof -
  note law1 = restore_store_law [OF restore w]
  obtain w2 where md: "otsardb_db_metadata_read store w1 root = (METADATA_OK, Some meta, w2)" "valid w2" "objs w2 = objs w1"
    using metadata_read_live [of w1 root meta] readable(1) law1 by auto
  obtain e w3 where hr: "otsardb_journal_read_head store w2 root = (JOURNAL_OK, Some (h, e), w3)" "valid w3" "objs w3 = objs w2"
    using head_read_live [of w2 root h] readable(2) md law1 by auto
  obtain w4 where get: "otsardb_store_get store w3 (hd_commit_key h) = (STORE_OK, ob, w4)"
    using get_live [of w3 "hd_commit_key h" ob] m(1) hr md law1 by auto
  note same4 = get_same [OF get hr(2)]
  let ?n = "cm_database_size_pages m" and ?ps = "dm_page_size meta"
  obtain groups w5 where gr: "build_groups (re_sha env) store root ?ps ?n f (unat ?n) 0 0 [] w4 = (BUILD_OK, groups, w5)"
    using build_groups_live [OF d(3,2) root(1) sha, of w4 0 "unat ?n" 0 f "[]"] same4 by auto
  from build_groups_law [OF gr conjunct1 [OF same4] sha] have law5: "valid w5" "length groups \<le> 128"
    and gh: "groups_hold (re_sha env) (objs w5) root ?ps ?n f 0 0 (unat ?n) groups"
    by (auto simp: CHECKPOINT_MAX_PAGE_GROUPS_def)
  have "groups \<noteq> []" using gh d(1) by (auto simp: unat_eq_0)
  let ?cp = "checkpoint_of_head h ?ps ?n groups"
  have "checkpoint_manifest_valid ?cp" "checkpoint_manifest_wf ?cp"
    using groups_hold_valid [OF gh sha d(2)] groups_hold_wf [OF gh] law5(2) \<open>groups \<noteq> []\<close> d(3) hd readable(3)
    by (simp_all add: checkpoint_manifest_valid_def checkpoint_of_head_def CHECKPOINT_ID_MAX_def CHECKPOINT_MAX_PAGE_GROUPS_def
        checkpoint_manifest_wf_def head_wf_def recovery_head_ok_def plain_string_take)
  then obtain w6 where "publish_checkpoint (re_sha env) store w5 root ?cp = (BUILD_OK, w6)"
    using publish_checkpoint_live [OF _ _ root sha law5(1)] by blast
  then show ?thesis
    using restore md hr get m(2) d(1) gr by (simp add: otsardb_checkpoint_build_def otsardb_recovery_restore_store_def Let_def)
qed

end

interpretation mem_accepting: accepting_store "memory_object_store caps" memory_objs memory_valid
proof
  fix w :: memory_store and key data
  show "\<exists>etag w'. otsardb_store_put (memory_object_store caps) w key data no_options = (STORE_OK, etag, w')"
    by (simp add: otsardb_store_put_def memory_object_store_def memory_put_def no_options_def memory_store_bytes_def Let_def)
qed

end
