(* ===== verification/Gc.thy ===== *)
theory Gc
  imports Database_History
begin

text \<open>
  Garbage collection, \<open>src/storage/gc.c\<close>: the commits below the generation that the checkpoint covers are
  deleted together with their segments.  Nothing else is ever deleted, and the sweep of an intact
  database ends.
\<close>

section \<open>Operations\<close>

record gc_options =
  go_keep_secs :: u64
  go_owner_expected :: "string option"

primrec mem_contains_from :: "nat list \<Rightarrow> bytes \<Rightarrow> bytes \<Rightarrow> bool" where
  "mem_contains_from [] haystack needle = False"
| "mem_contains_from (i # is) haystack needle =
     (mem_slice haystack i (length needle) = needle \<or> mem_contains_from is haystack needle)"

definition mem_contains :: "bytes \<Rightarrow> bytes \<Rightarrow> bool" where
  "mem_contains haystack needle =
     (if needle = [] \<or> length needle > length haystack then False
      else mem_contains_from [0..<length haystack - length needle + 1] haystack needle)"

text \<open>The key of a commit; the second print is cut off at the end of the buffer.\<close>

definition gc_commit_key :: "string \<Rightarrow> string \<Rightarrow> string option" where
  "gc_commit_key root commit_id =
     (case root_join root ''commits/'' (KEY_MAX + 1) of
        None \<Rightarrow> None
      | Some key \<Rightarrow> Some (take KEY_MAX (key @ commit_id @ ''.json'')))"

primrec gc_delete_segments ::
  "'w object_store \<Rightarrow> string \<Rightarrow> commit_manifest \<Rightarrow> manifest_segment_ref list \<Rightarrow> int \<Rightarrow> 'w \<Rightarrow> int \<times> 'w" where
  "gc_delete_segments store root m [] deleted w = (deleted, w)"
| "gc_delete_segments store root m (ref # refs) deleted w =
     (case segment_object_key root m ref of
        None \<Rightarrow> gc_delete_segments store root m refs deleted w
      | Some key \<Rightarrow>
          (case otsardb_store_delete store w key of (rc, w') \<Rightarrow>
             gc_delete_segments store root m refs (if rc = STORE_OK then deleted + 1 else deleted) w'))"

text \<open>The walk down the parents; the manifests are not checked, and a cycle of them need not end.\<close>

partial_function (option) gc_walk ::
  "'w object_store \<Rightarrow> string \<Rightarrow> u64 \<Rightarrow> string \<Rightarrow> int \<Rightarrow> 'w \<Rightarrow> (int \<times> 'w) option" where
  "gc_walk store root gen current_id deleted w =
     (if \<not> gen > 0 then Some (deleted, w)
      else case gc_commit_key root current_id of
        None \<Rightarrow> Some (deleted, w)
      | Some current_key \<Rightarrow>
          (case otsardb_store_get store w current_key of (rc, ob, w1) \<Rightarrow>
             if rc \<noteq> STORE_OK then Some (deleted, w1)
             else case otsardb_commit_manifest_decode_json (so_data ob) of
               None \<Rightarrow> Some (deleted, w1)
             | Some m \<Rightarrow>
                 (case gc_delete_segments store root m (cm_segments m) deleted w1 of (deleted2, w2) \<Rightarrow>
                    (case otsardb_store_delete store w2 current_key of (rc, w3) \<Rightarrow>
                       let deleted3 = (if rc = STORE_OK then deleted2 + 1 else deleted2) in
                       if cm_parent_generation m = 0 then Some (deleted3, w3)
                       else gc_walk store root (cm_parent_generation m) (take COMMIT_ID_MAX (cm_parent_commit_id m)) deleted3 w3))))"

definition lease_needle :: "string \<Rightarrow> bytes" where
  "lease_needle owner = bytes_of_string (json_str ''owner'' owner)"

definition gc_delete_lease :: "'w object_store \<Rightarrow> string \<Rightarrow> string option \<Rightarrow> int \<Rightarrow> 'w \<Rightarrow> int \<times> 'w" where
  "gc_delete_lease store root owner_expected deleted w =
     (case owner_expected of
        None \<Rightarrow> (deleted, w)
      | Some owner \<Rightarrow>
          if owner = [] then (deleted, w)
          else case root_join root ''lease.json'' (KEY_MAX + 1) of
            None \<Rightarrow> (deleted, w)
          | Some lease_key \<Rightarrow>
              (case otsardb_store_get store w lease_key of (rc, ob, w1) \<Rightarrow>
                 if rc \<noteq> STORE_OK then (deleted, w1)
                 else if \<not> mem_contains (so_data ob) (lease_needle owner) then (deleted, w1)
                 else (case otsardb_store_delete store w1 lease_key of (rc, w2) \<Rightarrow>
                         (if rc = STORE_OK then deleted + 1 else deleted, w2))))"

text \<open>Whether the retention window has passed; the sum wraps around, and no answer is an error.\<close>

datatype gc_window = GC_ERROR | GC_TOO_YOUNG | GC_PASSED

definition gc_retention :: "'w object_store \<Rightarrow> string \<Rightarrow> u64 \<Rightarrow> u64 \<Rightarrow> 'w \<Rightarrow> gc_window \<times> 'w" where
  "gc_retention store root keep_secs now w =
     (if \<not> keep_secs > 0 then (GC_PASSED, w)
      else case root_join root ''CHECKPOINT.json'' (KEY_MAX + 1) of
        None \<Rightarrow> (GC_ERROR, w)
      | Some ptr_key \<Rightarrow>
          (case otsardb_store_get store w ptr_key of (rc, ob, w1) \<Rightarrow>
             if rc \<noteq> STORE_OK then (GC_ERROR, w1)
             else if so_last_modified_secs ob \<le> 0 then (GC_TOO_YOUNG, w1)
             else if word_of_int (so_last_modified_secs ob) + keep_secs > now then (GC_TOO_YOUNG, w1)
             else (GC_PASSED, w1)))"

text \<open>The manifest of the generation that the checkpoint covers.\<close>

definition gc_base :: "(bytes \<Rightarrow> bytes) \<Rightarrow> 'w object_store \<Rightarrow> string \<Rightarrow> checkpoint_pointer \<Rightarrow> 'w \<Rightarrow> commit_manifest option \<times> 'w" where
  "gc_base sha store root cp w =
     (case otsardb_store_get store w (cp_checkpoint_key cp) of (rc, ob, w1) \<Rightarrow>
        if rc \<noteq> STORE_OK then (None, w1)
        else if otsardb_sha256_hex_data sha (so_data ob) \<noteq> cp_checkpoint_sha256 cp then (None, w1)
        else case otsardb_checkpoint_manifest_decode (so_data ob) of
          None \<Rightarrow> (None, w1)
        | Some cp_manifest \<Rightarrow>
            (case gc_commit_key root (ck_base_commit_id cp_manifest) of
               None \<Rightarrow> (None, w1)
             | Some base_key \<Rightarrow>
                 (case otsardb_store_get store w1 base_key of (rc, ob, w2) \<Rightarrow>
                    if rc \<noteq> STORE_OK then (None, w2)
                    else case otsardb_commit_manifest_decode_json (so_data ob) of
                      None \<Rightarrow> (None, w2)
                    | Some base \<Rightarrow>
                        (if cm_generation base = cp_covered_generation cp then Some base else None, w2))))"

text \<open>The number of deleted objects, or -1.\<close>

definition otsardb_gc_sweep ::
  "(bytes \<Rightarrow> bytes) \<Rightarrow> 'w object_store \<Rightarrow> string \<Rightarrow> gc_options option \<Rightarrow> u64 \<Rightarrow> 'w \<Rightarrow> (int \<times> 'w) option" where
  "otsardb_gc_sweep sha store root options now w =
     (let keep_secs = (case options of None \<Rightarrow> 0 | Some ops \<Rightarrow> go_keep_secs ops);
          owner_expected = (case options of None \<Rightarrow> None | Some ops \<Rightarrow> go_owner_expected ops) in
      case otsardb_checkpoint_ptr_read store w root of
        (rc, None, w1) \<Rightarrow> Some (- 1, w1)
      | (rc, Some (cp, etag), w1) \<Rightarrow>
          (case gc_retention store root keep_secs now w1 of
             (GC_ERROR, w2) \<Rightarrow> Some (- 1, w2)
           | (GC_TOO_YOUNG, w2) \<Rightarrow> Some (0, w2)
           | (GC_PASSED, w2) \<Rightarrow>
               (case gc_base sha store root cp w2 of
                  (None, w3) \<Rightarrow> Some (- 1, w3)
                | (Some base, w3) \<Rightarrow>
                    (case gc_walk store root (cm_parent_generation base) (take COMMIT_ID_MAX (cm_parent_commit_id base)) 0 w3 of
                       None \<Rightarrow> None
                     | Some (deleted, w4) \<Rightarrow> Some (gc_delete_lease store root owner_expected deleted w4)))))"

section \<open>What a sweep may delete\<close>

text \<open>The manifests that the walk visits, as a function of the contents of the store.\<close>

inductive gc_reaches :: "(string \<rightharpoonup> store_object) \<Rightarrow> string \<Rightarrow> u64 \<Rightarrow> string \<Rightarrow> string \<Rightarrow> commit_manifest \<Rightarrow> bool"
  for contents root where
  reach_here: "\<lbrakk>gen > 0; gc_commit_key root commit_id = Some key; contents key = Some ob;
     otsardb_commit_manifest_decode_json (so_data ob) = Some m\<rbrakk> \<Longrightarrow> gc_reaches contents root gen commit_id key m"
| reach_parent: "\<lbrakk>gen > 0; gc_commit_key root commit_id = Some key; contents key = Some ob;
     otsardb_commit_manifest_decode_json (so_data ob) = Some m; cm_parent_generation m \<noteq> 0;
     gc_reaches contents root (cm_parent_generation m) (take COMMIT_ID_MAX (cm_parent_commit_id m)) key' m'\<rbrakk> \<Longrightarrow>
   gc_reaches contents root gen commit_id key' m'"

definition gc_garbage :: "(string \<rightharpoonup> store_object) \<Rightarrow> string \<Rightarrow> u64 \<Rightarrow> string \<Rightarrow> string set" where
  "gc_garbage contents root gen commit_id =
     {k. \<exists>key m. gc_reaches contents root gen commit_id key m \<and>
        (k = key \<or> (\<exists>ref\<in>set (cm_segments m). segment_object_key root m ref = Some k))}"

lemma gc_reaches_mono:
  assumes "gc_reaches a root gen commit_id key m" "a \<subseteq>\<^sub>m b"
  shows "gc_reaches b root gen commit_id key m"
  using assms
proof induction
  case (reach_here gen commit_id key ob m)
  then show ?case by (intro gc_reaches.reach_here) (auto simp: map_le_def dom_def)
next
  case (reach_parent gen commit_id key ob m key' m')
  have "b key = Some ob" using reach_parent(3) reach_parent.prems by (auto simp: map_le_def dom_def)
  then show ?case using reach_parent gc_reaches.reach_parent by metis
qed

lemma gc_garbage_mono: "a \<subseteq>\<^sub>m b \<Longrightarrow> gc_garbage a root gen commit_id \<subseteq> gc_garbage b root gen commit_id"
  using gc_reaches_mono unfolding gc_garbage_def by fastforce

text \<open>Every object is as before or one of the given keys that is gone.\<close>

definition only_deletes :: "string set \<Rightarrow> (string \<rightharpoonup> store_object) \<Rightarrow> (string \<rightharpoonup> store_object) \<Rightarrow> bool" where
  "only_deletes K old new \<longleftrightarrow> (\<forall>k. new k = old k \<or> k \<in> K \<and> new k = None)"

lemma only_deletes_refl [simp]: "only_deletes K m m"
  by (simp add: only_deletes_def)

lemma only_deletes_trans: "only_deletes K a b \<Longrightarrow> only_deletes L b c \<Longrightarrow> K \<subseteq> M \<Longrightarrow> L \<subseteq> M \<Longrightarrow> only_deletes M a c"
  unfolding only_deletes_def by (metis subsetD)

lemma only_deletes_le: "only_deletes K a b \<Longrightarrow> b \<subseteq>\<^sub>m a"
  unfolding only_deletes_def map_le_def dom_def by (metis (mono_tags) mem_Collect_eq)

context object_store_laws
begin

lemma delete_only: "otsardb_store_delete store w key = (rc, w') \<Longrightarrow> valid w \<Longrightarrow> valid w' \<and> only_deletes {key} (objs w) (objs w')"
  using delete_law [of w key rc w'] by (auto simp: only_deletes_def split: if_splits)

lemma delete_segments_law:
  assumes "gc_delete_segments store root m refs deleted w = (n, w')" "valid w"
  shows "valid w' \<and> only_deletes {k. \<exists>ref\<in>set refs. segment_object_key root m ref = Some k} (objs w) (objs w') \<and> deleted \<le> n"
  using assms
proof (induction refs arbitrary: deleted w)
  case (Cons ref refs)
  let ?K = "{k. \<exists>r\<in>set refs. segment_object_key root m r = Some k}"
  let ?M = "{k. \<exists>r\<in>set (ref # refs). segment_object_key root m r = Some k}"
  show ?case
  proof (cases "segment_object_key root m ref")
    case None
    then have "valid w' \<and> only_deletes ?K (objs w) (objs w') \<and> deleted \<le> n" using Cons by simp
    then show ?thesis using only_deletes_trans [of "{}" "objs w" "objs w" ?K "objs w'" ?M] by auto
  next
    case (Some key)
    obtain rc w1 where del: "otsardb_store_delete store w key = (rc, w1)" by (cases "otsardb_store_delete store w key")
    note law = delete_only [OF del Cons.prems(2)]
    let ?n = "if rc = STORE_OK then deleted + 1 else deleted"
    have "valid w' \<and> only_deletes ?K (objs w1) (objs w') \<and> ?n \<le> n"
      using Cons.IH [of ?n w1] Cons.prems(1) Some del law by simp
    then show ?thesis
      using only_deletes_trans [of "{key}" "objs w" "objs w1" ?K "objs w'" ?M] law Some by (auto split: if_splits)
  qed
qed simp

definition walk_ok :: "'w object_store \<Rightarrow> string \<Rightarrow> u64 \<Rightarrow> string \<Rightarrow> int \<Rightarrow> 'w \<Rightarrow> int \<times> 'w \<Rightarrow> bool" where
  "walk_ok s root gen commit_id deleted w r \<longleftrightarrow> s = store \<longrightarrow> valid w \<longrightarrow> valid (snd r) \<and>
     only_deletes (gc_garbage (objs w) root gen commit_id) (objs w) (objs (snd r)) \<and> deleted \<le> fst r"

lemma gc_walk_ok: "gc_walk s root gen commit_id deleted w = Some r \<Longrightarrow> walk_ok s root gen commit_id deleted w r"
  apply (erule gc_walk.raw_induct [where P = walk_ok, rotated])
  subgoal premises prems for walk s root gen commit_id deleted w r
    unfolding walk_ok_def
  proof (intro impI)
    assume s: "s = store" and w: "valid w"
    let ?K = "gc_garbage (objs w) root gen commit_id"
    note ih = prems(1) [unfolded walk_ok_def, rule_format, OF _ s] and step = prems(2)
    show "valid (snd r) \<and> only_deletes ?K (objs w) (objs (snd r)) \<and> deleted \<le> fst r"
    proof (cases "gen > 0 \<and> gc_commit_key root commit_id \<noteq> None")
      case False
      then show ?thesis using step w by (auto split: if_splits option.splits)
    next
      case True
      then obtain key where key: "gen > 0" "gc_commit_key root commit_id = Some key" by blast
      obtain rc ob w1 where get: "otsardb_store_get store w key = (rc, ob, w1)" by (cases "otsardb_store_get store w key")
      note law1 = get_law [OF get w]
      show ?thesis
      proof (cases "rc = STORE_OK \<and> otsardb_commit_manifest_decode_json (so_data ob) \<noteq> None")
        case False
        then have "r = (deleted, w1)" using step s key get by (auto split: if_splits option.splits)
        then show ?thesis using law1 by simp
      next
        case True
        then obtain m where m: "rc = STORE_OK" "otsardb_commit_manifest_decode_json (so_data ob) = Some m" by blast
        have ob: "objs w key = Some ob" using law1 m by blast
        have here: "gc_reaches (objs w) root gen commit_id key m" by (rule reach_here [where contents = "objs w", OF key ob m(2)])
        obtain d2 w2 where seg: "gc_delete_segments store root m (cm_segments m) deleted w1 = (d2, w2)"
          by (cases "gc_delete_segments store root m (cm_segments m) deleted w1")
        note law2 = delete_segments_law [OF seg conjunct1 [OF law1]]
        obtain rc3 w3 where del: "otsardb_store_delete store w2 key = (rc3, w3)" by (cases "otsardb_store_delete store w2 key")
        note law3 = delete_only [OF del conjunct1 [OF law2]]
        let ?d = "if rc3 = STORE_OK then d2 + 1 else d2"
        have own: "{k. \<exists>ref\<in>set (cm_segments m). segment_object_key root m ref = Some k} \<subseteq> ?K" "{key} \<subseteq> ?K"
          using here by (auto simp: gc_garbage_def)
        have "only_deletes {k. \<exists>ref\<in>set (cm_segments m). segment_object_key root m ref = Some k} (objs w) (objs w2)"
          using law1 law2 by simp
        then have od: "only_deletes ?K (objs w) (objs w3)" by (rule only_deletes_trans [OF _ _ own]) (use law3 in simp)
        show ?thesis
        proof (cases "cm_parent_generation m = 0")
          case True
          then have "r = (?d, w3)" using step s key get m seg del by (simp add: Let_def)
          then show ?thesis using od law2 law3 by (simp split: if_splits)
        next
          case False
          have "walk store root (cm_parent_generation m) (take COMMIT_ID_MAX (cm_parent_commit_id m)) ?d w3 = Some r"
            using False step s key get m seg del by (simp add: Let_def)
          from ih [OF this [folded s]] law3
          have rec: "valid (snd r)" "?d \<le> fst r"
            "only_deletes (gc_garbage (objs w3) root (cm_parent_generation m) (take COMMIT_ID_MAX (cm_parent_commit_id m))) (objs w3) (objs (snd r))"
            by (auto split: if_splits)
          have "gc_garbage (objs w) root (cm_parent_generation m) (take COMMIT_ID_MAX (cm_parent_commit_id m)) \<subseteq> ?K"
            using reach_parent [where contents = "objs w", OF key ob m(2) False] by (auto simp: gc_garbage_def)
          then have "gc_garbage (objs w3) root (cm_parent_generation m) (take COMMIT_ID_MAX (cm_parent_commit_id m)) \<subseteq> ?K"
            using gc_garbage_mono [OF only_deletes_le [OF od]] by blast
          then have "only_deletes ?K (objs w) (objs (snd r))" using only_deletes_trans [OF od rec(3)] by blast
          then show ?thesis using rec law2 by (auto split: if_splits)
        qed
      qed
    qed
  qed
  done

lemma gc_walk_law:
  assumes "gc_walk store root gen commit_id deleted w = Some (n, w')" "valid w"
  shows "valid w' \<and> only_deletes (gc_garbage (objs w) root gen commit_id) (objs w) (objs w') \<and> deleted \<le> n"
  using gc_walk_ok [OF assms(1)] assms(2) by (simp add: walk_ok_def)

end

text \<open>The manifest that the checkpoint of a pointer names as its base.\<close>

definition covered_base :: "(bytes \<Rightarrow> bytes) \<Rightarrow> (string \<rightharpoonup> store_object) \<Rightarrow> string \<Rightarrow> checkpoint_pointer \<Rightarrow> commit_manifest option" where
  "covered_base sha contents root ptr =
     do { ob \<leftarrow> contents (cp_checkpoint_key ptr);
          require (otsardb_sha256_hex_data sha (so_data ob) = cp_checkpoint_sha256 ptr);
          cp \<leftarrow> otsardb_checkpoint_manifest_decode (so_data ob);
          key \<leftarrow> gc_commit_key root (ck_base_commit_id cp);
          ob2 \<leftarrow> contents key;
          base \<leftarrow> otsardb_commit_manifest_decode_json (so_data ob2);
          require (cm_generation base = cp_covered_generation ptr);
          Some base }"

text \<open>The lease, where it has the expected owner.\<close>

definition lease_garbage :: "(string \<rightharpoonup> store_object) \<Rightarrow> string \<Rightarrow> gc_options option \<Rightarrow> string set" where
  "lease_garbage contents root options =
     {k. k = join_root root ''lease.json'' \<and>
        (\<exists>ops owner ob. options = Some ops \<and> go_owner_expected ops = Some owner \<and> owner \<noteq> [] \<and> contents k = Some ob \<and>
           mem_contains (so_data ob) (lease_needle owner))}"

context object_store_laws
begin

lemma gc_retention_law:
  assumes "gc_retention store root keep_secs now w = (r, w')" "valid w"
  shows "valid w' \<and> objs w' = objs w"
proof (cases "keep_secs > 0 \<and> root_join root ''CHECKPOINT.json'' (KEY_MAX + 1) \<noteq> None")
  case False
  then show ?thesis using assms by (auto simp: gc_retention_def split: option.splits if_splits)
next
  case True
  then obtain key where key: "root_join root ''CHECKPOINT.json'' (KEY_MAX + 1) = Some key" by blast
  obtain rc ob w1 where get: "otsardb_store_get store w key = (rc, ob, w1)" by (cases "otsardb_store_get store w key")
  have "w' = w1" using assms(1) True key get by (auto simp: gc_retention_def simp del: root_join_Some split: if_splits)
  then show ?thesis using get_same [OF get assms(2)] by simp
qed

lemma gc_base_law:
  assumes "gc_base sha store root ptr w = (res, w')" "valid w"
  shows "valid w' \<and> objs w' = objs w \<and> (\<forall>base. res = Some base \<longrightarrow> covered_base sha (objs w) root ptr = Some base)"
proof -
  obtain rc ob w1 where get: "otsardb_store_get store w (cp_checkpoint_key ptr) = (rc, ob, w1)"
    by (cases "otsardb_store_get store w (cp_checkpoint_key ptr)")
  note law1 = get_law [OF get assms(2)]
  show ?thesis
  proof (cases "\<exists>cp key. rc = STORE_OK \<and> otsardb_sha256_hex_data sha (so_data ob) = cp_checkpoint_sha256 ptr \<and>
      otsardb_checkpoint_manifest_decode (so_data ob) = Some cp \<and> gc_commit_key root (ck_base_commit_id cp) = Some key")
    case False
    then have "res = None \<and> w' = w1"
      using assms(1) get by (auto simp: gc_base_def split: if_splits option.splits)
    then show ?thesis using law1 by simp
  next
    case True
    then obtain cp key where cp: "rc = STORE_OK" "otsardb_sha256_hex_data sha (so_data ob) = cp_checkpoint_sha256 ptr"
      "otsardb_checkpoint_manifest_decode (so_data ob) = Some cp" "gc_commit_key root (ck_base_commit_id cp) = Some key" by blast
    obtain rc2 ob2 w2 where get2: "otsardb_store_get store w1 key = (rc2, ob2, w2)" by (cases "otsardb_store_get store w1 key")
    note law2 = get_law [OF get2 conjunct1 [OF law1]]
    have "w' = w2 \<and> (\<forall>base. res = Some base \<longrightarrow> rc2 = STORE_OK \<and> otsardb_commit_manifest_decode_json (so_data ob2) = Some base \<and>
        cm_generation base = cp_covered_generation ptr)"
      using assms(1) get cp get2 by (auto simp: gc_base_def split: if_splits option.splits)
    then show ?thesis
      using law1 law2 cp by (auto simp: covered_base_def require_def bind_eq_Some_conv)
  qed
qed

lemma delete_lease_law:
  assumes "gc_delete_lease store root owner_expected deleted w = (n, w')" "valid w"
  shows "valid w' \<and> deleted \<le> n \<and>
    only_deletes {k. k = join_root root ''lease.json'' \<and> (\<exists>owner ob. owner_expected = Some owner \<and> owner \<noteq> [] \<and>
      objs w k = Some ob \<and> mem_contains (so_data ob) (lease_needle owner))} (objs w) (objs w')" (is "_ \<and> _ \<and> only_deletes ?L _ _")
proof (cases "\<exists>owner. owner_expected = Some owner \<and> owner \<noteq> [] \<and> root_join root ''lease.json'' (KEY_MAX + 1) \<noteq> None")
  case False
  then have "n = deleted \<and> w' = w"
    using assms(1) by (auto simp: gc_delete_lease_def split: option.splits if_splits)
  then show ?thesis using assms(2) by simp
next
  case True
  then obtain owner where ow: "owner_expected = Some owner" "owner \<noteq> []" and key: "root_join root ''lease.json'' (KEY_MAX + 1) = Some (join_root root ''lease.json'')"
    by auto
  let ?key = "join_root root ''lease.json''"
  obtain rc ob w1 where get: "otsardb_store_get store w ?key = (rc, ob, w1)" by (cases "otsardb_store_get store w ?key")
  note law1 = get_law [OF get assms(2)]
  obtain rc2 w2 where del: "otsardb_store_delete store w1 ?key = (rc2, w2)" by (cases "otsardb_store_delete store w1 ?key")
  note law2 = delete_only [OF del conjunct1 [OF law1]]
  show ?thesis
  proof (cases "rc = STORE_OK \<and> mem_contains (so_data ob) (lease_needle owner)")
    case False
    then have "n = deleted \<and> w' = w1" using assms(1) ow key get by (auto simp: gc_delete_lease_def simp del: root_join_Some split: if_splits)
    then show ?thesis using law1 by simp
  next
    case True
    then have "w' = w2 \<and> n \<in> {deleted, deleted + 1}"
      using assms(1) ow key get del by (auto simp: gc_delete_lease_def simp del: root_join_Some split: if_splits)
    moreover have "{?key} \<subseteq> ?L" using True law1 ow by auto
    ultimately show ?thesis
      using law1 law2 only_deletes_trans [of "{}" "objs w" "objs w" "{?key}" "objs w'" ?L] by auto
  qed
qed

lemma gc_sweep_law:
  assumes "otsardb_gc_sweep sha store root options now w = Some (n, w')" "valid w"
  shows "valid w' \<and> (objs w' = objs w \<or>
    n \<ge> 0 \<and> (\<exists>ptr base. stored_checkpoint (objs w) root = Some ptr \<and> covered_base sha (objs w) root ptr = Some base \<and>
      only_deletes (gc_garbage (objs w) root (cm_parent_generation base) (take COMMIT_ID_MAX (cm_parent_commit_id base)) \<union>
         lease_garbage (objs w) root options) (objs w) (objs w')))"
proof -
  obtain rp p w1 where rd: "otsardb_checkpoint_ptr_read store w root = (rp, p, w1)"
    by (cases "otsardb_checkpoint_ptr_read store w root")
  note law1 = ptr_read_law [OF rd assms(2)]
  define keep where "keep = (case options of None \<Rightarrow> 0 | Some ops \<Rightarrow> go_keep_secs ops)"
  define owner where "owner = (case options of None \<Rightarrow> None | Some ops \<Rightarrow> go_owner_expected ops)"
  obtain r2 w2 where rt: "gc_retention store root keep now w1 = (r2, w2)" by (cases "gc_retention store root keep now w1")
  note law2 = gc_retention_law [OF rt conjunct1 [OF law1]]
  show ?thesis
  proof (cases p)
    case None
    then have "w' = w1" using assms(1) rd by (auto simp: otsardb_gc_sweep_def)
    then show ?thesis using law1 by simp
  next
    case (Some x)
    obtain ptr e where x: "x = (ptr, e)" by (cases x)
    obtain b w3 where bs: "gc_base sha store root ptr w2 = (b, w3)" by (cases "gc_base sha store root ptr w2")
    note law3 = gc_base_law [OF bs conjunct1 [OF law2]]
    show ?thesis
    proof (cases "r2 = GC_PASSED \<and> b \<noteq> None")
      case False
      then have "w' = w2 \<or> w' = w3"
        using assms(1) rd rt bs Some x
        by (cases r2) (auto simp: otsardb_gc_sweep_def keep_def [symmetric] owner_def [symmetric] split: option.splits)
      then show ?thesis using law1 law2 law3 by auto
    next
      case True
      then obtain base where base: "r2 = GC_PASSED" "b = Some base" by blast
      let ?id = "take COMMIT_ID_MAX (cm_parent_commit_id base)"
      obtain d w4 where walk: "gc_walk store root (cm_parent_generation base) ?id 0 w3 = Some (d, w4)"
        and lease: "gc_delete_lease store root owner d w4 = (n, w')"
        using assms(1) rd rt bs Some x base
        by (auto simp: otsardb_gc_sweep_def keep_def [symmetric] owner_def [symmetric] split: option.splits)
      note law4 = gc_walk_law [OF walk conjunct1 [OF law3]]
      note law5 = delete_lease_law [OF lease conjunct1 [OF law4]]
      have same: "objs w3 = objs w" using law1 law2 law3 by simp
      have le: "objs w4 \<subseteq>\<^sub>m objs w" using law4 only_deletes_le same by metis
      let ?G = "gc_garbage (objs w) root (cm_parent_generation base) ?id" and ?L = "lease_garbage (objs w) root options"
      have d4: "only_deletes ?G (objs w) (objs w4)" using law4 same by simp
      have "only_deletes (?G \<union> ?L) (objs w) (objs w')"
        by (rule only_deletes_trans [OF d4 conjunct2 [OF conjunct2 [OF law5]]])
          (use le in \<open>auto simp: lease_garbage_def owner_def map_le_def dom_def split: option.splits\<close>)
      moreover have "stored_checkpoint (objs w) root = Some ptr" "covered_base sha (objs w) root ptr = Some base"
        using law1 law2 law3 Some x base by auto
      moreover have "0 \<le> n" using law4 law5 by linarith
      ultimately show ?thesis using law5 by blast
    qed
  qed
qed

end

section \<open>The chain below a checkpoint\<close>

lemma gc_key_eq: "length (join_root root (commit_name c)) \<le> KEY_MAX \<Longrightarrow> gc_commit_key root c = Some (join_root root (commit_name c))"
  by (simp add: gc_commit_key_def root_join_def snprintf_fits_def join_root_def commit_name_def)

lemma parent_gc_key:
  assumes "parent_pos root m = Some q"
  shows "pos_commit_id q = take COMMIT_ID_MAX (cm_parent_commit_id m)" "pos_key q = join_root root (commit_name (pos_commit_id q))"
    "gc_commit_key root (pos_commit_id q) = Some (pos_key q)"
  using assms gc_key_eq [of root "take COMMIT_ID_MAX (cm_parent_commit_id m)"]
  by (auto simp: parent_pos_def Let_def build_manifest_key_def split: option.splits)

lemma chain_here: "chain_list sha contents root meta stop p es \<Longrightarrow>
    \<exists>m enc ys ob. es = (pos_key p, m, enc) # ys \<and> contents (pos_key p) = Some ob \<and>
      otsardb_commit_manifest_decode_json (so_data ob) = Some m \<and> chain_manifest_ok meta p m \<and> pos_generation p > 0 \<and>
      (ys = [] \<and> chain_step root stop m = CHAIN_END \<or> (\<exists>q. chain_step root stop m = CHAIN_PARENT q \<and> chain_list sha contents root meta stop q ys))"
  by (erule chain_list.cases) (auto simp: manifest_object_def require_def bind_eq_Some_conv)

text \<open>What lies below an entry is the chain of its parent.\<close>

lemma chain_below:
  assumes "chain_list sha contents root meta 0 p (xs @ (k, m, enc) # ys)"
  shows "ys = [] \<and> cm_parent_generation m = 0 \<or> (\<exists>q. parent_pos root m = Some q \<and> chain_list sha contents root meta 0 q ys)"
  using assms
proof (induction xs arbitrary: p)
  case Nil
  then show ?case using chain_here [OF Nil] chain_step_genesis chain_step_parent by fastforce
next
  case (Cons e xs)
  from chain_here [OF Cons.prems] obtain q where "chain_list sha contents root meta 0 q (xs @ (k, m, enc) # ys)" by auto
  then show ?case by (rule Cons.IH)
qed

lemma parent_below:
  assumes "chain_manifest_ok meta p m" "pos_generation p > 0"
  shows "cm_parent_generation m < pos_generation p"
proof -
  have p: "cm_parent_generation m + 1 = pos_generation p" using assms(1) by (simp add: chain_manifest_ok_def)
  then have "1 + cm_parent_generation m \<noteq> 0" using assms(2) by (auto simp: add.commute)
  from unatSuc [OF this] p show ?thesis by (simp add: add.commute word_less_nat_alt)
qed

lemma chain_generation_le:
  assumes "chain_list sha contents root meta stop p es" "(k, m, enc) \<in> set es"
  shows "cm_generation m \<le> pos_generation p"
  using assms
proof induction
  case (chain_more p m' enc' q es)
  then show ?case
    using parent_below [OF chain_more.hyps(3,1)] parent_pos_generation [OF chain_step_parent [OF chain_more.hyps(4)]]
    by (auto simp: chain_manifest_ok_def)
qed (simp add: chain_manifest_ok_def)

lemma chain_order:
  assumes "chain_list sha contents root meta 0 p (xs @ (k, m, enc) # ys)" "(k', m', enc') \<in> set ys"
  shows "cm_generation m' < cm_generation m"
  using assms
proof (induction xs arbitrary: p)
  case Nil
  from chain_here [OF Nil(1) [simplified]] obtain q where q: "chain_manifest_ok meta p m" "pos_generation p > 0"
    "parent_pos root m = Some q" "chain_list sha contents root meta 0 q ys"
    using Nil(2) chain_step_parent by fastforce
  then show ?case
    using chain_generation_le [OF q(4) Nil(2)] parent_below [OF q(1,2)] parent_pos_generation [OF q(3)]
    by (simp add: chain_manifest_ok_def)
next
  case (Cons e xs)
  from chain_here [OF Cons.prems(1)] obtain q where "chain_list sha contents root meta 0 q (xs @ (k, m, enc) # ys)" by auto
  then show ?case using Cons.IH Cons.prems(2) by blast
qed

lemma chain_keys_differ:
  assumes chain: "chain_list sha contents root meta 0 p (xs @ e # ys)" and live: "(k, m, enc) \<in> set (xs @ [e])" and old: "(k', m', enc') \<in> set ys"
  shows "k \<noteq> k'"
proof
  assume same: "k = k'"
  obtain us vs where "xs @ [e] = us @ (k, m, enc) # vs" using live by (meson split_list)
  then have split: "xs @ e # ys = us @ (k, m, enc) # (vs @ ys)"
    by (metis append.assoc append_Cons append_Nil)
  have "cm_generation m' < cm_generation m"
    by (rule chain_order [of sha contents root meta p us k m enc "vs @ ys" k' m' enc']) (use chain split old in auto)
  moreover have "manifest_object sha contents k None = Some (m, enc)" "manifest_object sha contents k' None = Some (m', enc')"
    by (rule chain_list_objects [OF chain], use live old in auto)+
  ultimately show False using same by simp
qed

text \<open>The walk of a sweep stays on the chain, and what it may delete is below the base.\<close>

lemma reaches_chain:
  assumes "gc_reaches contents root gen c key m" "chain_list sha contents root meta 0 q es"
    "gen = pos_generation q" "c = pos_commit_id q" "gc_commit_key root c = Some (pos_key q)"
  shows "\<exists>enc. (key, m, enc) \<in> set es"
  using assms
proof (induction arbitrary: q es)
  case (reach_here gen c key ob m)
  then show ?case using chain_here [OF reach_here.prems(1)] by fastforce
next
  case (reach_parent gen c key ob m key' m')
  from chain_here [OF reach_parent.prems(1)] reach_parent obtain enc ys where es: "es = (key, m, enc) # ys"
    "ys = [] \<and> chain_step root 0 m = CHAIN_END \<or> (\<exists>q. chain_step root 0 m = CHAIN_PARENT q \<and> chain_list sha contents root meta 0 q ys)"
    by fastforce
  with reach_parent.hyps(5) obtain q' where q': "parent_pos root m = Some q'" "chain_list sha contents root meta 0 q' ys"
    using chain_step_genesis chain_step_parent by blast
  then show ?case
    using reach_parent.IH [OF q'(2)] parent_pos_generation [OF q'(1)] parent_gc_key [OF q'(1)] es(1) by auto
qed

lemma gc_reaches_pos: "gc_reaches contents root gen c key m \<Longrightarrow> gen > 0"
  by (erule gc_reaches.cases) auto

lemma garbage_below:
  assumes "chain_list sha contents root meta 0 p (xs @ (k, base, enc) # ys)"
    "g \<in> gc_garbage contents root (cm_parent_generation base) (take COMMIT_ID_MAX (cm_parent_commit_id base))"
  shows "\<exists>(key, m, enc')\<in>set ys. g = key \<or> (\<exists>ref\<in>set (cm_segments m). segment_object_key root m ref = Some g)"
proof -
  from assms(2) obtain key m where r: "gc_reaches contents root (cm_parent_generation base) (take COMMIT_ID_MAX (cm_parent_commit_id base)) key m"
    "g = key \<or> (\<exists>ref\<in>set (cm_segments m). segment_object_key root m ref = Some g)" unfolding gc_garbage_def by blast
  from chain_below [OF assms(1)] gc_reaches_pos [OF r(1)] obtain q where q: "parent_pos root base = Some q" "chain_list sha contents root meta 0 q ys"
    by auto
  have "\<exists>enc'. (key, m, enc') \<in> set ys"
    by (rule reaches_chain [OF r(1) q(2)]) (use parent_pos_generation [OF q(1)] parent_gc_key [OF q(1)] in auto)
  then obtain enc' where "(key, m, enc') \<in> set ys" ..
  then show ?thesis using r(2) by (intro bexI [of _ "(key, m, enc')"]) simp_all
qed

context object_store_laws
begin

lemma delete_segments_le: "gc_delete_segments store root m refs d w = (n, w') \<Longrightarrow> valid w \<Longrightarrow> valid w' \<and> objs w' \<subseteq>\<^sub>m objs w"
  using delete_segments_law only_deletes_le by blast

lemma gc_walk_total:
  assumes "chain_list sha contents root meta 0 q es" "gc_commit_key root (pos_commit_id q) = Some (pos_key q)"
    "valid w" "objs w \<subseteq>\<^sub>m contents"
  shows "\<exists>r. gc_walk store root (pos_generation q) (pos_commit_id q) d w = Some r"
  using assms
proof (induction es arbitrary: q d w rule: list.induct)
  case Nil
  then show ?case using chain_list_not_Nil by blast
next
  case (Cons e es)
  from chain_here [OF Cons.prems(1)] obtain m ob where m: "contents (pos_key q) = Some ob"
    "otsardb_commit_manifest_decode_json (so_data ob) = Some m"
    "es = [] \<and> chain_step root 0 m = CHAIN_END \<or> (\<exists>q'. chain_step root 0 m = CHAIN_PARENT q' \<and> chain_list sha contents root meta 0 q' es)"
    by auto
  obtain rc ob1 w1 where get: "otsardb_store_get store w (pos_key q) = (rc, ob1, w1)" by (cases "otsardb_store_get store w (pos_key q)")
  note law1 = get_law [OF get Cons.prems(3)]
  obtain d2 w2 where seg: "gc_delete_segments store root m (cm_segments m) d w1 = (d2, w2)"
    by (cases "gc_delete_segments store root m (cm_segments m) d w1")
  note law2 = delete_segments_le [OF seg conjunct1 [OF law1]]
  obtain rc3 w3 where del: "otsardb_store_delete store w2 (pos_key q) = (rc3, w3)" by (cases "otsardb_store_delete store w2 (pos_key q)")
  note law3 = delete_only [OF del conjunct1 [OF law2]]
  have le: "objs w3 \<subseteq>\<^sub>m contents"
    using law1 law2 conjunct2 [OF law3, THEN only_deletes_le] Cons.prems(4) by (metis map_le_trans)
  show ?case
  proof (cases "rc = STORE_OK \<and> cm_parent_generation m \<noteq> 0")
    case True
    then have "objs w (pos_key q) = Some ob1" using law1 by simp
    then have ob: "ob1 = ob" using Cons.prems(4) m(1) by (force simp: map_le_def dom_def)
    from True m(3) obtain q' where q': "parent_pos root m = Some q'" "chain_list sha contents root meta 0 q' es"
      using chain_step_genesis chain_step_parent by blast
    have "\<exists>r. gc_walk store root (pos_generation q') (pos_commit_id q') (if rc3 = STORE_OK then d2 + 1 else d2) w3 = Some r"
      by (rule Cons.IH [OF q'(2) parent_gc_key(3) [OF q'(1)] conjunct1 [OF law3] le])
    then show ?thesis
      using True get ob m(2) seg del Cons.prems(2) parent_pos_generation [OF q'(1)] parent_gc_key(1) [OF q'(1)]
      by (subst gc_walk.simps) (simp add: Let_def)
  next
    case False
    have ob: "rc = STORE_OK \<Longrightarrow> ob1 = ob" using law1 Cons.prems(4) m(1) by (force simp: map_le_def dom_def)
    show ?thesis
      using False get ob m(2) seg del Cons.prems(2)
      by (subst gc_walk.simps) (auto simp: Let_def)
  qed
qed

end

text \<open>The segments of a manifest are under \<open>segments/\<close>, as every published one.\<close>

definition segments_named :: "string \<Rightarrow> (string \<times> commit_manifest \<times> segment_enc_set) list \<Rightarrow> bool" where
  "segments_named root es \<longleftrightarrow>
     (\<forall>(k, m, enc)\<in>set es. \<forall>ref\<in>set (cm_segments m). \<forall>key. segment_object_key root m ref = Some key \<longrightarrow>
        (\<exists>name. key = join_root root (''segments/'' @ name)))"

text \<open>A readable segment belongs to one commit.\<close>

lemma segment_commit:
  assumes "segments_image env contents root m enc None refs i f = Some f'" "ref \<in> set refs" "segment_object_key root m ref = Some key"
  shows "\<exists>ob segment. contents key = Some ob \<and> otsardb_segment_decode (re_sha env) (so_data ob) = Some segment \<and>
    sv_commit_id segment = cm_commit_id m"
  using assms
  by (induction refs arbitrary: i f)
    (auto simp: segment_batch_def decrypt_segment_envelope_def require_def bind_eq_Some_conv split: if_splits)

lemma chain_segment_commit:
  assumes "chain_image env contents root None es f = Some f'" "(k, m, enc) \<in> set es" "ref \<in> set (cm_segments m)"
    "segment_object_key root m ref = Some key"
  shows "\<exists>ob segment. contents key = Some ob \<and> otsardb_segment_decode (re_sha env) (so_data ob) = Some segment \<and>
    sv_commit_id segment = cm_commit_id m"
  using assms
proof (induction es arbitrary: f')
  case (Cons e es)
  from Cons.prems(1) obtain g where g: "chain_image env contents root None es f = Some g"
    "segments_image env contents root (fst (snd e)) (snd (snd e)) None (cm_segments (fst (snd e))) 0 g = Some f'"
    by (auto simp: bind_eq_Some_conv)
  show ?case
  proof (cases "(k, m, enc) \<in> set es")
    case True
    then show ?thesis by (rule Cons.IH [OF g(1) _ Cons.prems(3,4)])
  next
    case False
    then have "e = (k, m, enc)" using Cons.prems(2) by auto
    then show ?thesis using segment_commit g(2) Cons.prems(3,4) by (metis fst_conv snd_conv)
  qed
qed simp

lemma chain_key_name:
  assumes "chain_list sha contents root meta stop p es" "pos_key p = join_root root (commit_name (pos_commit_id p))" "(k, m, enc) \<in> set es"
  shows "k = join_root root (commit_name (cm_commit_id m))"
  using assms
proof induction
  case (chain_more p m' enc' q es)
  then show ?case using parent_gc_key(2) [OF chain_step_parent [OF chain_more.hyps(4)]] by (auto simp: chain_manifest_ok_def)
qed (simp add: chain_manifest_ok_def)

text \<open>Nothing that the commits from the base up need is below the base.\<close>

lemma live_not_garbage:
  assumes chain: "chain_list (re_sha env) contents root meta 0 p (xs @ (k, base, enc) # ys)"
    and image: "chain_image env contents root None (xs @ (k, base, enc) # ys) None = Some img"
    and name: "pos_key p = join_root root (commit_name (pos_commit_id p))"
    and named: "segments_named root (xs @ (k, base, enc) # ys)"
    and live: "(kl, ml, encl) \<in> set (xs @ [(k, base, enc)])"
    and g: "g = kl \<or> (\<exists>ref\<in>set (cm_segments ml). segment_object_key root ml ref = Some g)"
  shows "g \<notin> gc_garbage contents root (cm_parent_generation base) (take COMMIT_ID_MAX (cm_parent_commit_id base)) \<union> lease_garbage contents root options"
proof -
  let ?es = "xs @ (k, base, enc) # ys"
  have inl: "(kl, ml, encl) \<in> set ?es" using live by auto
  have kl: "kl = join_root root (commit_name (cm_commit_id ml))" by (rule chain_key_name [OF chain name inl])
  have seg: "\<exists>n. g = join_root root (''segments/'' @ n)"
    if "(a, m, e) \<in> set ?es" "ref \<in> set (cm_segments m)" "segment_object_key root m ref = Some g" for a m e ref
    using named that unfolding segments_named_def by blast
  have "g \<noteq> join_root root ''lease.json''"
    using g kl seg [OF inl] by (auto simp: commit_name_def)
  moreover have False if bad: "g \<in> gc_garbage contents root (cm_parent_generation base) (take COMMIT_ID_MAX (cm_parent_commit_id base))"
  proof -
    obtain ko mo enco where old: "(ko, mo, enco) \<in> set ys" "g = ko \<or> (\<exists>ref\<in>set (cm_segments mo). segment_object_key root mo ref = Some g)"
      using garbage_below [OF chain bad] by auto
    have ino: "(ko, mo, enco) \<in> set ?es" using old by auto
    have ko: "ko = join_root root (commit_name (cm_commit_id mo))" by (rule chain_key_name [OF chain name ino])
    have differ: "kl \<noteq> ko" by (rule chain_keys_differ [OF chain live old(1)])
    have notc: "\<And>n c. join_root root (commit_name c) \<noteq> join_root root (''segments/'' @ n)" by (simp add: commit_name_def)
    obtain ref ref' where "ref \<in> set (cm_segments ml)" "segment_object_key root ml ref = Some g"
      "ref' \<in> set (cm_segments mo)" "segment_object_key root mo ref' = Some g"
      using g old(2) differ seg [OF inl] seg [OF ino] kl ko notc by metis
    then have "cm_commit_id ml = cm_commit_id mo"
      using chain_segment_commit [OF image inl] chain_segment_commit [OF image ino] by fastforce
    then show False using kl ko differ by simp
  qed
  ultimately show ?thesis by (auto simp: lease_garbage_def)
qed

context object_store_laws
begin

lemma gc_sweep_returns:
  assumes chain: "chain_list sha (objs w) root meta 0 p es" and w: "valid w"
    and base: "\<And>ptr base. stored_checkpoint (objs w) root = Some ptr \<Longrightarrow> covered_base sha (objs w) root ptr = Some base \<Longrightarrow> \<exists>k enc. (k, base, enc) \<in> set es"
  shows "\<exists>r. otsardb_gc_sweep sha store root options now w = Some r"
proof -
  obtain rp p1 w1 where rd: "otsardb_checkpoint_ptr_read store w root = (rp, p1, w1)"
    by (cases "otsardb_checkpoint_ptr_read store w root")
  note law1 = ptr_read_law [OF rd w]
  define keep where "keep = (case options of None \<Rightarrow> 0 | Some ops \<Rightarrow> go_keep_secs ops)"
  obtain r2 w2 where rt: "gc_retention store root keep now w1 = (r2, w2)" by (cases "gc_retention store root keep now w1")
  note law2 = gc_retention_law [OF rt conjunct1 [OF law1]]
  show ?thesis
  proof (cases "\<exists>ptr e. p1 = Some (ptr, e) \<and> r2 = GC_PASSED")
    case False
    then show ?thesis
      using rd rt by (cases p1; cases r2) (auto simp: otsardb_gc_sweep_def keep_def [symmetric])
  next
    case True
    then obtain ptr e where p1: "p1 = Some (ptr, e)" "r2 = GC_PASSED" by blast
    obtain b w3 where bs: "gc_base sha store root ptr w2 = (b, w3)" by (cases "gc_base sha store root ptr w2")
    note law3 = gc_base_law [OF bs conjunct1 [OF law2]]
    show ?thesis
    proof (cases b)
      case None
      then show ?thesis using rd rt p1 bs by (simp add: otsardb_gc_sweep_def keep_def [symmetric])
    next
      case (Some m)
      then obtain k enc where "(k, m, enc) \<in> set es" using base law1 law2 law3 p1 by fastforce
      then obtain xs ys where es: "es = xs @ (k, m, enc) # ys" by (meson split_list)
      have "\<exists>r. gc_walk store root (cm_parent_generation m) (take COMMIT_ID_MAX (cm_parent_commit_id m)) 0 w3 = Some r"
        using chain_below [OF chain [unfolded es]]
      proof
        assume "ys = [] \<and> cm_parent_generation m = 0"
        then show ?thesis by (subst gc_walk.simps) simp
      next
        assume "\<exists>q. parent_pos root m = Some q \<and> chain_list sha (objs w) root meta 0 q ys"
        then obtain q where q: "parent_pos root m = Some q" "chain_list sha (objs w) root meta 0 q ys" by blast
        show ?thesis
          using gc_walk_total [OF q(2) parent_gc_key(3) [OF q(1)], of w3 0] law1 law2 law3
            parent_pos_generation [OF q(1)] parent_gc_key(1) [OF q(1)] by simp
      qed
      then show ?thesis using rd rt p1 bs Some by (auto simp: otsardb_gc_sweep_def keep_def [symmetric])
    qed
  qed
qed

end

end
