(* ===== verification/Retention.thy ===== *)
theory Retention
  imports Recovery_Safety Checkpoint_Live Gc
begin

text \<open>
  The life of a database beyond its first commits: a checkpoint is built from HEAD, the garbage below it is
  collected, and the database is restored from what is left.
\<close>

section \<open>Restoring from a checkpoint of HEAD\<close>

text \<open>HEAD and the manifest that it names, which agree with each other and with the metadata.\<close>

definition head_manifest ::
  "(bytes \<Rightarrow> bytes) \<Rightarrow> (string \<rightharpoonup> store_object) \<Rightarrow> db_metadata \<Rightarrow> head \<Rightarrow> commit_manifest \<Rightarrow> segment_enc_set \<Rightarrow> bool" where
  "head_manifest sha contents meta h m enc \<longleftrightarrow>
     recovery_head_ok meta h \<and> head_wf h \<and> hd_database_id h \<noteq> [] \<and> hd_commit_id h \<noteq> [] \<and>
     manifest_object sha contents (hd_commit_key h) (Some (hd_commit_sha256 h)) = Some (m, enc) \<and>
     chain_manifest_ok meta (head_pos h) m"

lemma head_manifest_chain:
  assumes "head_manifest sha contents meta h m enc"
  shows "chain_list sha contents root meta (hd_generation h) (head_pos h) [(hd_commit_key h, m, enc)]"
proof -
  have p: "pos_key (head_pos h) = hd_commit_key h" "pos_sha256 (head_pos h) = hd_commit_sha256 h" "pos_generation (head_pos h) = hd_generation h"
    using assms by (simp_all add: head_manifest_def head_wf_def recovery_head_ok_def head_pos_def)
  have "chain_list sha contents root meta (hd_generation h) (head_pos h) [(pos_key (head_pos h), m, enc)]"
    by (rule chain_last)
      (use assms p in \<open>auto simp: head_manifest_def chain_step_def chain_manifest_ok_def recovery_head_ok_def word_neq_0_conv\<close>)
  then show ?thesis by (simp add: p)
qed

lemma head_manifest_digest:
  assumes "head_manifest sha contents meta h m enc"
  shows "\<exists>ob. contents (hd_commit_key h) = Some ob \<and> otsardb_sha256_hex_data sha (so_data ob) = hd_commit_sha256 h \<and>
    otsardb_commit_manifest_decode_json (so_data ob) = Some m"
  using assms by (auto simp: head_manifest_def manifest_object_def require_def bind_eq_Some_conv recovery_head_ok_def MANIFEST_SHA256_HEX_SIZE_def split: if_splits)

lemma whole_image_ok:
  assumes "length f = unat (cm_database_size_pages m) * unat (cm_page_size m)"
    "validate_file_against_manifest_checksum (Some f) (cm_page_size m) (cm_database_size_pages m) (cm_post_apply_checksum m)"
  shows "base_image_ok (Some f) m"
proof -
  have "of_nat (length f) = cm_database_size_pages m * ucast (cm_page_size m)"
    unfolding assms(1) by simp
  then show ?thesis using assms(2) by (simp add: base_image_ok_def file_size_u64_def)
qed

context answering_store
begin

lemma ptr_read_live:
  assumes "stored_checkpoint (objs w) root = Some ptr" "length (checkpoint_key root) \<le> KEY_MAX" "valid w"
  shows "\<exists>e w'. otsardb_checkpoint_ptr_read store w root = (CHECKPOINT_PTR_OK, Some (ptr, e), w') \<and> valid w' \<and> objs w' = objs w"
proof -
  obtain ob where ob: "objs w (checkpoint_key root) = Some ob" "otsardb_checkpoint_ptr_decode (so_data ob) = Some ptr"
    using assms(1) by (auto simp: stored_checkpoint_def split: option.splits)
  obtain e where e: "so_etag ob = Some e" "e \<noteq> []" using etag_live [OF assms(3) ob(1)] by blast
  have key: "build_checkpoint_key root (KEY_MAX + 1) = Some (checkpoint_key root)"
    using assms(2) by (simp add: build_checkpoint_key_def checkpoint_key_def join_root_def)
  obtain w' where get: "otsardb_store_get store w (checkpoint_key root) = (STORE_OK, ob, w')" using get_live [OF assms(3) ob(1)] by blast
  then show ?thesis using key ob e get_same [OF get assms(3)] by (simp add: otsardb_checkpoint_ptr_read_def)
qed

lemma bind_live:
  assumes hm: "head_manifest sha (objs w) meta h m enc" and w: "valid w"
    and cp: "ck_covered_generation cp = hd_generation h" "ck_base_commit_id cp = hd_commit_id h" "ck_base_manifest_sha256 cp = hd_commit_sha256 h"
  shows "\<exists>w'. bind_checkpoint sha store w root meta h cp = (Some ([hd_commit_key h], m), w') \<and> valid w' \<and> objs w' = objs w"
proof -
  have chain: "chain_list sha (objs w) root meta (hd_generation h) (head_pos h) [(hd_commit_key h, m, enc)]"
    by (rule head_manifest_chain [OF hm])
  have "1 \<le> RECOVERY_MAX_COMMITS" using hm chain_list_length [OF chain] by (auto simp: head_manifest_def recovery_head_ok_def head_pos_def)
  then obtain w1 where w1: "collect_chain_keys sha store w root meta h (hd_generation h) = (Some [hd_commit_key h], w1)" "valid w1" "objs w1 = objs w"
    using collect_loop_live [OF chain _ w, of RECOVERY_MAX_COMMITS] by (auto simp: collect_chain_keys_def)
  have "manifest_object sha (objs w1) (hd_commit_key h) None = Some (m, enc)"
    using hm manifest_object_any w1(3) by (simp add: head_manifest_def) blast
  then obtain w2 where w2: "read_manifest_object sha store w1 (hd_commit_key h) None = (Some (m, enc), w2)" "valid w2" "objs w2 = objs w1"
    using read_object_live [OF _ w1(2)] by blast
  obtain ob where ob: "objs w2 (hd_commit_key h) = Some ob" "otsardb_sha256_hex_data sha (so_data ob) = hd_commit_sha256 h"
    using head_manifest_digest [OF hm] w1 w2 by auto
  obtain w3 where get: "otsardb_store_get store w2 (hd_commit_key h) = (STORE_OK, ob, w3)" using get_live [OF w2(2) ob(1)] by blast
  have "cm_generation m = hd_generation h \<and> cm_commit_id m = hd_commit_id h"
    using hm by (simp add: head_manifest_def chain_manifest_ok_def head_pos_def head_wf_def)
  then show ?thesis
    using w1 w2 ob get get_same [OF get w2(2)] cp by (auto simp: bind_checkpoint_def)
qed

lemma base_live:
  assumes hm: "head_manifest (re_sha env) (objs w) meta h m enc" and w: "valid w"
    and gh: "groups_hold (re_sha env) (objs w) root (cm_page_size m) d f 0 0 (unat (cm_database_size_pages m)) (ck_page_groups cp)"
    and lg: "length (ck_page_groups cp) \<le> CHECKPOINT_MAX_PAGE_GROUPS"
    and f: "length f = unat (cm_database_size_pages m) * unat (cm_page_size m)" "cm_database_size_pages m \<noteq> 0"
    and sum: "cm_post_apply_checksum m \<noteq> []" "head_checksum_ok (re_sha env) (objs w) h (Some f)"
  shows "\<exists>w'. restore_from_base env store w root h cp [hd_commit_key h] m cipher = (True, Some f, w')"
proof -
  let ?n = "unat (cm_database_size_pages m)" and ?ps = "cm_page_size m"
  have n: "?n \<le> 128 * 4096"
    using groups_hold_bound [OF gh] lg by (simp add: CHECKPOINT_MAX_PAGE_GROUPS_def CHECKPOINT_MAX_PAGES_PER_GROUP_def)
  then have "?n * unat ?ps \<le> 128 * 4096 * 2 ^ 32"
    using unsigned_less [where ?'a = nat, of ?ps] by (intro mult_le_mono) simp_all
  then have b: "?n < 2 ^ 32" "?n * unat ?ps \<le> int64_max" using n by (simp_all add: int64_max_def)
  have pos: "0 < ?n" using f(2) by (simp add: unat_gt_0 word_neq_0_conv)
  obtain w1 where w1: "apply_checkpoint_groups (re_sha env) store root (ck_page_groups cp) w None = (True, Some f, w1)" "valid w1" "objs w1 = objs w"
    using apply_groups_live [OF gh w b, of None] pos db_pages_whole [OF f(1)] by (auto simp: file_bytes_def)
  obtain ob m' where ob: "objs w (hd_commit_key h) = Some ob" "otsardb_commit_manifest_decode_json (so_data ob) = Some m'"
    "validate_file_against_manifest_checksum (Some f) (cm_page_size m') (cm_database_size_pages m') (cm_post_apply_checksum m')"
    using sum(2) by (auto simp: head_checksum_ok_def)
  then have "base_image_ok (Some f) m" using head_manifest_digest [OF hm] whole_image_ok [OF f(1)] by auto
  moreover obtain w2 where "validate_head_checksum (re_sha env) store w1 h (Some f) = (True, w2)"
    using head_checksum_live [of "re_sha env" w1 h "Some f"] sum(2) w1 by auto
  ultimately show ?thesis
    using w1 sum(1)
    by (simp add: restore_from_base_def otsardb_recovery_apply_checkpoint_pages_def replay_above_def apply_manifest_keys_def)
qed

lemma restore_checkpoint_live:
  assumes hm: "head_manifest (re_sha env) (objs w) meta h m enc" and w: "valid w" and root: "root \<noteq> []"
    and readable: "readable_metadata (objs w) root meta" "readable_head (objs w) root h"
    and st: "checkpoint_stored (re_sha env) (objs w) root (checkpoint_of_head h (cm_page_size m) (cm_database_size_pages m) groups)"
    and gh: "groups_hold (re_sha env) (objs w) root (cm_page_size m) (cm_database_size_pages m) f 0 0 (unat (cm_database_size_pages m)) groups"
    and lg: "length groups \<le> CHECKPOINT_MAX_PAGE_GROUPS"
    and f: "length f = unat (cm_database_size_pages m) * unat (cm_page_size m)" "cm_database_size_pages m \<noteq> 0"
    and sum: "cm_post_apply_checksum m \<noteq> []" "head_checksum_ok (re_sha env) (objs w) h (Some f)"
  shows "\<exists>w'. otsardb_recovery_restore_store_ex env store w root cipher x = (True, Some f, w')"
proof -
  let ?cp = "checkpoint_of_head h (cm_page_size m) (cm_database_size_pages m) groups"
  obtain w1 where md: "otsardb_db_metadata_read store w root = (METADATA_OK, Some meta, w1)" "valid w1" "objs w1 = objs w"
    using metadata_read_live [OF readable(1) w] by blast
  obtain e w2 where hd: "otsardb_journal_read_head store w1 root = (JOURNAL_OK, Some (h, e), w2)" "valid w2" "objs w2 = objs w1"
    using head_read_live [of w1 root h] readable(2) md by auto
  obtain name ob ptr where p: "objs w (join_root root (''checkpoints/'' @ name)) = Some ob" "otsardb_checkpoint_manifest_decode (so_data ob) = Some ?cp"
    "stored_checkpoint (objs w) root = Some ptr" "length (checkpoint_key root) \<le> KEY_MAX"
    "ptr = checkpoint_pointer_of ?cp (join_root root (''checkpoints/'' @ name)) (otsardb_sha256_hex_data (re_sha env) (so_data ob))"
    using st unfolding checkpoint_stored_def by blast
  obtain e3 w3 where ptr: "otsardb_checkpoint_ptr_read store w2 root = (CHECKPOINT_PTR_OK, Some (ptr, e3), w3)" "valid w3" "objs w3 = objs w2"
    using ptr_read_live [of w2 root ptr] p(3,4) md hd by auto
  obtain w4 where get: "otsardb_store_get store w3 (cp_checkpoint_key ptr) = (STORE_OK, ob, w4)"
    using get_live [of w3 "cp_checkpoint_key ptr" ob] p md hd ptr by (auto simp: checkpoint_pointer_of_def)
  note same4 = get_same [OF get ptr(2)]
  have ids: "hd_database_id h = dm_database_id meta" "length (hd_database_id h) \<le> 63" "length (hd_commit_id h) \<le> 63" "hd_commit_id h \<noteq> []"
    "length (hd_commit_sha256 h) = 64" "hd_generation h > 0" "cm_page_size m = dm_page_size meta"
    using hm by (auto simp: head_manifest_def head_wf_def recovery_head_ok_def COMMIT_ID_MAX_def MANIFEST_SHA256_HEX_SIZE_def
        chain_manifest_ok_def word_neq_0_conv)
  then have cp: "ck_covered_generation ?cp = hd_generation h" "ck_base_commit_id ?cp = hd_commit_id h" "ck_base_manifest_sha256 ?cp = hd_commit_sha256 h"
    "ck_database_id ?cp = dm_database_id meta" "ck_page_groups ?cp = groups" "ck_page_size ?cp = dm_page_size meta" "ck_database_size_pages ?cp = cm_database_size_pages m"
    by (simp_all add: checkpoint_of_head_def CHECKPOINT_ID_MAX_def CHECKPOINT_SHA256_HEX_SIZE_def)
  have ident: "checkpoint_identity meta h ?cp"
    using cp ids f(2) by (auto simp: checkpoint_identity_def word_neq_0_conv)
  have hm4: "head_manifest (re_sha env) (objs w4) meta h m enc" using hm same4 ptr hd md by simp
  obtain w5 where bind: "bind_checkpoint (re_sha env) store w4 root meta h ?cp = (Some ([hd_commit_key h], m), w5)" "valid w5" "objs w5 = objs w4"
    using bind_live [OF hm4 conjunct1 [OF same4] cp(1-3)] by blast
  have all: "objs w5 = objs w" using bind same4 ptr hd md by simp
  obtain w6 where base: "restore_from_base env store w5 root h ?cp [hd_commit_key h] m cipher = (True, Some f, w6)"
    using base_live [of env w5 meta h m enc root "cm_database_size_pages m" f ?cp cipher] hm gh lg f sum bind(2) all cp(5) by auto
  have "restore_from_pointer env store w2 root meta h cipher x = (True, Some f, w6)"
    using ptr get p(2,5) cp ident bind(1) base ids
    by (simp add: restore_from_pointer_def) (simp add: checkpoint_pointer_of_def join_root_def)
  then show ?thesis
    using root md hd hm by (simp add: otsardb_recovery_restore_store_ex_def head_manifest_def)
qed

end
section \<open>What a checkpoint and a sweep leave alone\<close>

text \<open>The objects that a restore from a checkpoint of HEAD reads.\<close>

definition checkpoint_needs :: "string \<Rightarrow> head \<Rightarrow> string set" where
  "checkpoint_needs root h =
     {metadata_key root, head_key root, checkpoint_key root, hd_commit_key h} \<union> {join_root root (''checkpoints/'' @ name) |name. True}"

lemma chain_list_cong:
  assumes "chain_list sha a root meta stop p es" "\<forall>e\<in>set es. b (fst e) = a (fst e)"
  shows "chain_list sha b root meta stop p es"
  using assms
proof induction
  case (chain_last p m enc)
  then show ?case by (intro chain_list.chain_last) (simp_all add: manifest_object_def)
next
  case (chain_more p m enc q es)
  then show ?case by (intro chain_list.chain_more [of p sha b m enc meta root stop q es]) (simp_all add: manifest_object_def)
qed

lemma needs_cong:
  assumes "\<forall>k\<in>checkpoint_needs root h. b k = a k"
  shows "readable_metadata a root meta \<Longrightarrow> readable_metadata b root meta"
    "readable_head a root h' \<Longrightarrow> readable_head b root h'"
    "checkpoint_stored sha a root cp \<Longrightarrow> checkpoint_stored sha b root cp"
    "head_manifest sha a meta h m enc \<Longrightarrow> head_manifest sha b meta h m enc"
    "head_checksum_ok sha a h f \<Longrightarrow> head_checksum_ok sha b h f"
proof -
  have k: "b (metadata_key root) = a (metadata_key root)" "b (head_key root) = a (head_key root)"
    "b (checkpoint_key root) = a (checkpoint_key root)" "b (hd_commit_key h) = a (hd_commit_key h)"
    "\<And>name. b (join_root root (''checkpoints/'' @ name)) = a (join_root root (''checkpoints/'' @ name))"
    using assms unfolding checkpoint_needs_def by blast+
  show "readable_metadata a root meta \<Longrightarrow> readable_metadata b root meta"
    by (simp add: readable_metadata_def stored_metadata_def k)
  show "readable_head a root h' \<Longrightarrow> readable_head b root h'" by (simp add: readable_head_def k)
  show "checkpoint_stored sha a root cp \<Longrightarrow> checkpoint_stored sha b root cp"
    unfolding checkpoint_stored_def stored_checkpoint_def k .
  show "head_manifest sha a meta h m enc \<Longrightarrow> head_manifest sha b meta h m enc"
    by (simp add: head_manifest_def manifest_object_def k)
  show "head_checksum_ok sha a h f \<Longrightarrow> head_checksum_ok sha b h f" by (simp add: head_checksum_ok_def k)
qed

text \<open>What may be garbage is a commit or a segment.\<close>

lemma garbage_names:
  assumes chain: "chain_list sha contents root meta 0 p (xs @ (k, base, enc) # ys)"
    and name: "pos_key p = join_root root (commit_name (pos_commit_id p))"
    and named: "segments_named root (xs @ (k, base, enc) # ys)"
    and g: "g \<in> gc_garbage contents root (cm_parent_generation base) (take COMMIT_ID_MAX (cm_parent_commit_id base))"
  shows "\<exists>c. g = join_root root (''commits/'' @ c) \<or> g = join_root root (''segments/'' @ c)"
proof -
  obtain ko mo enco where old: "(ko, mo, enco) \<in> set ys" "g = ko \<or> (\<exists>ref\<in>set (cm_segments mo). segment_object_key root mo ref = Some g)"
    using garbage_below [OF chain g] by auto
  have ino: "(ko, mo, enco) \<in> set (xs @ (k, base, enc) # ys)" using old(1) by simp
  have "ko = join_root root (''commits/'' @ cm_commit_id mo @ ''.json'')"
    using chain_key_name [OF chain name ino] by (simp add: commit_name_def)
  moreover have "\<exists>c. g = join_root root (''segments/'' @ c)" if "\<exists>ref\<in>set (cm_segments mo). segment_object_key root mo ref = Some g"
    using named ino that unfolding segments_named_def by blast
  ultimately show ?thesis using old(2) by blast
qed

text \<open>A sweep whose base is the commit of HEAD spares all of them.\<close>

lemma sweep_spares:
  assumes chain: "chain_list sha contents root meta 0 (head_pos h) ((hd_commit_key h, m, enc) # ys)"
    and name: "pos_key (head_pos h) = join_root root (commit_name (pos_commit_id (head_pos h)))" "hd_commit_key h = pos_key (head_pos h)"
    and named: "segments_named root ((hd_commit_key h, m, enc) # ys)"
    and k: "k \<in> checkpoint_needs root h"
  shows "k \<notin> gc_garbage contents root (cm_parent_generation m) (take COMMIT_ID_MAX (cm_parent_commit_id m)) \<union> lease_garbage contents root options"
proof -
  have ks: "\<exists>c. ko = join_root root (''commits/'' @ c)" if "(ko, mo, enco) \<in> set ((hd_commit_key h, m, enc) # ys)" for ko mo enco
    using chain_key_name [OF chain name(1) that] by (simp add: commit_name_def)
  have "k \<noteq> join_root root ''lease.json''"
    using k ks [of "hd_commit_key h" m enc] by (auto simp: checkpoint_needs_def metadata_key_def head_key_def checkpoint_key_def)
  moreover have False if bad: "k \<in> gc_garbage contents root (cm_parent_generation m) (take COMMIT_ID_MAX (cm_parent_commit_id m))"
  proof -
    obtain ko mo enco where old: "(ko, mo, enco) \<in> set ys" "k = ko \<or> (\<exists>ref\<in>set (cm_segments mo). segment_object_key root mo ref = Some k)"
      using garbage_below [of sha contents root meta "head_pos h" "[]" "hd_commit_key h" m enc ys k] chain bad by auto
    have differ: "hd_commit_key h \<noteq> ko"
      by (rule chain_keys_differ [of sha contents root meta "head_pos h" "[]" "(hd_commit_key h, m, enc)" ys]) (use chain old(1) in auto)
    obtain c where c: "k = join_root root (''commits/'' @ c) \<and> k \<noteq> hd_commit_key h \<or> k = join_root root (''segments/'' @ c)"
      using old named differ ks [of ko mo enco] unfolding segments_named_def by fastforce
    obtain c' where "hd_commit_key h = join_root root (''commits/'' @ c')" using ks [of "hd_commit_key h" m enc] by auto
    then show False
      using k c by (auto simp: checkpoint_needs_def metadata_key_def head_key_def checkpoint_key_def)
  qed
  ultimately show ?thesis by (auto simp: lease_garbage_def)
qed

text \<open>The pointer to a checkpoint of HEAD has HEAD's commit as its base.\<close>

lemma covered_base_of_head:
  assumes st: "checkpoint_stored sha contents root (checkpoint_of_head h page_size d groups)" and hm: "head_manifest sha contents meta h m enc"
    and key: "hd_commit_key h = join_root root (commit_name (hd_commit_id h))"
  shows "\<exists>ptr. stored_checkpoint contents root = Some ptr \<and> covered_base sha contents root ptr = Some m"
proof -
  let ?cp = "checkpoint_of_head h page_size d groups"
  obtain name ob ptr where p: "contents (join_root root (''checkpoints/'' @ name)) = Some ob" "otsardb_checkpoint_manifest_decode (so_data ob) = Some ?cp"
    "stored_checkpoint contents root = Some ptr"
    "ptr = checkpoint_pointer_of ?cp (join_root root (''checkpoints/'' @ name)) (otsardb_sha256_hex_data sha (so_data ob))"
    using st unfolding checkpoint_stored_def by blast
  obtain ob2 where ob2: "contents (hd_commit_key h) = Some ob2" "otsardb_commit_manifest_decode_json (so_data ob2) = Some m"
    using head_manifest_digest [OF hm] by blast
  have ids: "length (hd_commit_id h) \<le> CHECKPOINT_ID_MAX" "length (hd_commit_key h) \<le> KEY_MAX" "cm_generation m = hd_generation h"
    using hm by (auto simp: head_manifest_def head_wf_def COMMIT_ID_MAX_def CHECKPOINT_ID_MAX_def chain_manifest_ok_def head_pos_def)
  then have "ck_base_commit_id ?cp = hd_commit_id h" "gc_commit_key root (hd_commit_id h) = Some (hd_commit_key h)"
    using gc_key_eq [of root "hd_commit_id h"] by (simp_all add: checkpoint_of_head_def key)
  then have "covered_base sha contents root ptr = Some m"
    using p ob2 ids by (simp add: covered_base_def require_def) (simp add: checkpoint_pointer_of_def checkpoint_of_head_def)
  with p(3) show ?thesis by blast
qed

text \<open>What a database with a published HEAD looks like: the whole chain is there.\<close>

definition published_chain ::
  "(bytes \<Rightarrow> bytes) \<Rightarrow> (string \<rightharpoonup> store_object) \<Rightarrow> string \<Rightarrow> db_metadata \<Rightarrow> head \<Rightarrow> commit_manifest \<Rightarrow>
   (string \<times> commit_manifest \<times> segment_enc_set) list \<Rightarrow> bool" where
  "published_chain sha contents root meta h m es \<longleftrightarrow>
     root \<noteq> [] \<and> plain_string root \<and> readable_metadata contents root meta \<and> readable_head contents root h \<and>
     chain_list sha contents root meta 0 (head_pos h) es \<and> segments_named root es \<and>
     hd_commit_key h = join_root root (commit_name (hd_commit_id h)) \<and>
     (\<exists>enc. head_manifest sha contents meta h m enc)"

lemma published_chain_first:
  assumes "published_chain sha contents root meta h m es"
  shows "\<exists>enc ys. head_manifest sha contents meta h m enc \<and> es = (hd_commit_key h, m, enc) # ys \<and>
    pos_key (head_pos h) = hd_commit_key h \<and> pos_commit_id (head_pos h) = hd_commit_id h"
proof -
  obtain enc where hm: "head_manifest sha contents meta h m enc" and chain: "chain_list sha contents root meta 0 (head_pos h) es"
    using assms by (auto simp: published_chain_def)
  have p: "pos_key (head_pos h) = hd_commit_key h" "pos_commit_id (head_pos h) = hd_commit_id h"
    using hm by (simp_all add: head_manifest_def head_wf_def head_pos_def)
  obtain m' enc' ys where es: "es = (hd_commit_key h, m', enc') # ys" using chain_here [OF chain] p by auto
  have "manifest_object sha contents (hd_commit_key h) None = Some (m', enc')" using chain_list_objects [OF chain] es by auto
  moreover have "manifest_object sha contents (hd_commit_key h) None = Some (m, enc)"
    using hm manifest_object_any by (simp add: head_manifest_def) blast
  ultimately show ?thesis using hm es p by auto
qed

context answering_store
begin

lemma checkpoint_sweep_restore:
  assumes pub: "published_chain (re_sha env) (objs w) root meta h m es" and w: "valid w" and sha: "\<forall>x. length (re_sha env x) = 32"
    and build: "otsardb_checkpoint_build env cipher store w root old = (BUILD_OK, Some f, w1)"
    and f: "length f = unat (cm_database_size_pages m) * unat (cm_page_size m)" and sum: "cm_post_apply_checksum m \<noteq> []"
  shows "\<exists>n w2. otsardb_gc_sweep (re_sha env) store root options now w1 = Some (n, w2) \<and> valid w2 \<and>
    (\<exists>w3. otsardb_recovery_restore_store_ex env store w2 root cipher x = (True, Some f, w3))"
proof -
  obtain enc ys where hm: "head_manifest (re_sha env) (objs w) meta h m enc" and es: "es = (hd_commit_key h, m, enc) # ys"
    and pos: "pos_key (head_pos h) = hd_commit_key h" "pos_commit_id (head_pos h) = hd_commit_id h"
    using published_chain_first [OF pub] by blast
  note pubs = pub [unfolded published_chain_def]
  have sth: "stored_head (objs w) root = Some h" "stored_metadata (objs w) root = Some meta"
    using pubs by (auto simp: readable_head_def readable_metadata_def stored_head_def)
  obtain ob where ob: "objs w (hd_commit_key h) = Some ob" "otsardb_commit_manifest_decode_json (so_data ob) = Some m"
    using head_manifest_digest [OF hm] by blast
  have ps: "dm_page_size meta = cm_page_size m" using hm by (simp add: head_manifest_def chain_manifest_ok_def)
  have hw: "head_wf h \<and> hd_database_id h \<noteq> [] \<and> plain_string root" using hm pubs by (simp add: head_manifest_def)
  obtain groups where b: "head_checksum_ok (re_sha env) (objs w) h (Some f)" "cm_database_size_pages m \<noteq> 0"
    "length groups \<le> CHECKPOINT_MAX_PAGE_GROUPS"
    "groups_hold (re_sha env) (objs w1) root (cm_page_size m) (cm_database_size_pages m) f 0 0 (unat (cm_database_size_pages m)) groups"
    "checkpoint_stored (re_sha env) (objs w1) root (checkpoint_of_head h (cm_page_size m) (cm_database_size_pages m) groups)"
    "valid w1" and frame: "\<forall>key. key \<noteq> checkpoint_key root \<and> (\<forall>name. key \<noteq> join_root root (''checkpoints/'' @ name)) \<longrightarrow> objs w1 key = objs w key"
    using checkpoint_build_law [OF build w sha] sth ob hw ps by auto
  have name: "hd_commit_key h = join_root root (commit_name (hd_commit_id h))" using pubs by simp
  have at: "\<forall>e\<in>set es. objs w1 (fst e) = objs w (fst e)"
  proof
    fix e assume e: "e \<in> set es"
    have "fst e = join_root root (commit_name (cm_commit_id (fst (snd e))))"
      using chain_key_name [of "re_sha env" "objs w" root meta 0 "head_pos h" es "fst e" "fst (snd e)" "snd (snd e)"] pubs pos name e by simp
    then show "objs w1 (fst e) = objs w (fst e)" using frame by (simp add: commit_name_def checkpoint_key_def)
  qed
  have chain1: "chain_list (re_sha env) (objs w1) root meta 0 (head_pos h) es" using chain_list_cong at pubs by blast
  have k1: "objs w1 (metadata_key root) = objs w (metadata_key root)" "objs w1 (head_key root) = objs w (head_key root)"
    "objs w1 (hd_commit_key h) = objs w (hd_commit_key h)"
    using frame at es by (auto simp: metadata_key_def head_key_def checkpoint_key_def)
  have hm1: "head_manifest (re_sha env) (objs w1) meta h m enc" and sum1: "head_checksum_ok (re_sha env) (objs w1) h (Some f)"
    and rd1: "readable_metadata (objs w1) root meta" "readable_head (objs w1) root h"
    using hm b(1) pubs k1
    by (auto simp: head_manifest_def manifest_object_def head_checksum_ok_def readable_metadata_def stored_metadata_def readable_head_def)
  obtain ptr where ptr: "stored_checkpoint (objs w1) root = Some ptr" "covered_base (re_sha env) (objs w1) root ptr = Some m"
    using covered_base_of_head [OF b(5) hm1 name] by blast
  have "\<exists>r. otsardb_gc_sweep (re_sha env) store root options now w1 = Some r"
    by (rule gc_sweep_returns [OF chain1 b(6)]) (use ptr es in auto)
  then obtain n w2 where sweep: "otsardb_gc_sweep (re_sha env) store root options now w1 = Some (n, w2)" by auto
  note law = gc_sweep_law [OF sweep b(6)]
  have spared: "objs w2 k = objs w1 k" if "k \<in> checkpoint_needs root h" for k
    using law sweep_spares [of "re_sha env" "objs w1" root meta h m enc ys k options] chain1 es pubs pos name that ptr
    unfolding only_deletes_def by auto
  then have spared': "\<forall>k\<in>checkpoint_needs root h. objs w2 k = objs w1 k" by blast
  have gh2: "groups_hold (re_sha env) (objs w2) root (cm_page_size m) (cm_database_size_pages m) f 0 0 (unat (cm_database_size_pages m)) groups"
    by (rule groups_hold_cong [OF b(4) _ sha]) (rule spared, auto simp: group_key_def group_suffix_def checkpoint_needs_def)
  have "\<exists>w3. otsardb_recovery_restore_store_ex env store w2 root cipher x = (True, Some f, w3)"
    by (rule restore_checkpoint_live [OF needs_cong(4) [OF spared' hm1] conjunct1 [OF law] _ needs_cong(1) [OF spared' rd1(1)]
        needs_cong(2) [OF spared' rd1(2)] needs_cong(3) [OF spared' b(5)] gh2 b(3) f b(2) sum needs_cong(5) [OF spared' sum1]])
      (use pubs in simp)
  then show ?thesis using sweep law by blast
qed

end

section \<open>The sample database\<close>

definition demo_manifest :: commit_manifest where
  "demo_manifest = request_manifest demo_request [demo_ref]"

lemma demo_manifest_fields:
  "cm_generation demo_manifest = 1" "cm_parent_generation demo_manifest = 0" "cm_page_size demo_manifest = 512"
  "cm_database_size_pages demo_manifest = 1" "cm_post_apply_checksum demo_manifest = demo_checksum" "cm_segments demo_manifest = [demo_ref]"
  "cm_commit_id demo_manifest = ''c1''" "cm_database_id demo_manifest = ''d1''" "cm_parent_commit_id demo_manifest = []"
  "cm_parent_manifest_sha256 demo_manifest = []"
  by (simp_all add: demo_manifest_def request_manifest_def demo_request_def sample_request_def string_or_empty_def demo_checksum_ok MANIFEST_ID_MAX_def)

lemma demo_head_fields:
  "hd_database_id demo_head = ''d1''" "hd_commit_id demo_head = ''c1''" "hd_commit_key demo_head = ''db/commits/c1.json''"
  "hd_commit_sha256 demo_head = sample_hash" "hd_generation demo_head = 1" "hd_format_version demo_head \<noteq> 0"
  by (simp_all add: demo_head_def request_head_def demo_request_def sample_request_def COMMIT_ID_MAX_def KEY_MAX_def SHA256_HEX_MAX_def sample_hash_def)

lemma demo_head_wf: "head_wf demo_head"
  by (simp add: head_wf_def demo_head_fields plain_string_def COMMIT_ID_MAX_def KEY_MAX_def SHA256_HEX_MAX_def sample_hash_def)

lemma demo_contents:
  "\<exists>ob. memory_objs demo_memory (head_key ''db'') = Some ob \<and> so_data ob = bytes_of_string (otsardb_head_encode_json demo_head)"
  "\<exists>ob. memory_objs demo_memory ''db/commits/c1.json'' = Some ob \<and> so_data ob = bytes_of_string demo_json"
proof -
  have k: "segment_suffix sample_hash \<noteq> ''HEAD.json''" "segment_suffix sample_hash \<noteq> ''commits/c1.json''" by (simp_all add: segment_suffix_def)
  show "\<exists>ob. memory_objs demo_memory (head_key ''db'') = Some ob \<and> so_data ob = bytes_of_string (otsardb_head_encode_json demo_head)"
    "\<exists>ob. memory_objs demo_memory ''db/commits/c1.json'' = Some ob \<and> so_data ob = bytes_of_string demo_json"
    using k by (simp_all add: memory_objs_def find_entry_def demo_memory_def head_key_def join_root_def)
qed

lemma demo_json_decodes:
  "otsardb_commit_manifest_decode_json (bytes_of_string demo_json) = Some demo_manifest"
  "otsardb_segment_enc_parse_json (bytes_of_string demo_json) = Some \<lparr>es_entries = [], es_present = False\<rparr>"
proof -
  have wf: "manifest_wf demo_manifest"
    unfolding demo_manifest_def
    by (simp add: manifest_wf_def request_manifest_def demo_request_def sample_request_def demo_ref_def sample_ref_def plain_string_def segment_ref_wf_def
        checksum_field_valid_def string_or_empty_def MANIFEST_ID_MAX_def MANIFEST_SEGMENT_KEY_MAX_def sample_hash_def segment_suffix_def demo_checksum_ok)
  have v: "cm_format_version demo_manifest = COMMIT_MANIFEST_VERSION" by (simp add: demo_manifest_def request_manifest_def)
  have "otsardb_commit_manifest_encode_json (pe_sha demo_env) demo_manifest = Some (demo_json, sample_hash)"
    using demo_manifest_ok by (simp add: manifest_bytes_def demo_manifest_def bind_eq_Some_conv)
  from plain_manifest_round_trip [OF wf v this] show "otsardb_commit_manifest_decode_json (bytes_of_string demo_json) = Some demo_manifest"
    "otsardb_segment_enc_parse_json (bytes_of_string demo_json) = Some \<lparr>es_entries = [], es_present = False\<rparr>" by simp_all
qed

lemma demo_published:
  "published_chain (re_sha demo_recovery) (memory_objs demo_memory) ''db'' demo_metadata demo_head demo_manifest
     [(''db/commits/c1.json'', demo_manifest, \<lparr>es_entries = [], es_present = False\<rparr>)]"
proof -
  let ?sha = "re_sha demo_recovery" and ?objs = "memory_objs demo_memory" and ?enc = "\<lparr>es_entries = [], es_present = False\<rparr>"
  obtain h where h: "intact demo_recovery ?objs ''db'' None demo_metadata h (Some (replicate 512 7))" using demo_intact by blast
  have "h = demo_head" using h demo_contents(1) head_decode_encode [OF demo_head_wf] by (auto simp: intact_def readable_head_def)
  then have i: "readable_metadata ?objs ''db'' demo_metadata" "readable_head ?objs ''db'' demo_head" "recovery_head_ok demo_metadata demo_head"
    using h by (simp_all add: intact_def)
  have sha: "otsardb_sha256_hex_data ?sha d = sample_hash" for d using demo_hash by (simp add: demo_recovery_def demo_env_def)
  have mo: "manifest_object ?sha ?objs ''db/commits/c1.json'' (Some sample_hash) = Some (demo_manifest, ?enc)"
    using demo_contents(2) demo_json_decodes by (auto simp: manifest_object_def sha require_def)
  have pos: "head_pos demo_head = \<lparr>pos_commit_id = ''c1'', pos_key = ''db/commits/c1.json'', pos_sha256 = sample_hash, pos_generation = 1\<rparr>"
    by (simp add: head_pos_def demo_head_fields COMMIT_ID_MAX_def KEY_MAX_def MANIFEST_SHA256_HEX_SIZE_def sample_hash_def)
  have ok: "chain_manifest_ok demo_metadata (head_pos demo_head) demo_manifest"
    by (simp add: chain_manifest_ok_def pos demo_manifest_fields demo_metadata_def)
  have hm: "head_manifest ?sha ?objs demo_metadata demo_head demo_manifest ?enc"
    using i(3) demo_head_wf mo ok by (simp add: head_manifest_def demo_head_fields)
  have "chain_list ?sha ?objs ''db'' demo_metadata 0 (head_pos demo_head) [(pos_key (head_pos demo_head), demo_manifest, ?enc)]"
    by (rule chain_last) (use mo ok in \<open>simp_all add: pos chain_step_def demo_manifest_fields\<close>)
  then have chain: "chain_list ?sha ?objs ''db'' demo_metadata 0 (head_pos demo_head) [(''db/commits/c1.json'', demo_manifest, ?enc)]"
    by (simp add: pos)
  have named: "segments_named ''db'' [(''db/commits/c1.json'', demo_manifest, ?enc)]"
    by (auto simp: segments_named_def demo_manifest_fields segment_object_key_def demo_ref_def sample_ref_def segment_suffix_def join_root_def
        demo_manifest_def request_manifest_def COMMIT_MANIFEST_VERSION_def)
  show ?thesis
    unfolding published_chain_def
    using i hm chain named by (auto simp: demo_head_fields join_root_def commit_name_def plain_string_def)
qed

lemma demo_checkpointed:
  "\<exists>w1 ptr. otsardb_checkpoint_build demo_recovery None (memory_object_store memory_capabilities) demo_memory ''db'' None =
       (BUILD_OK, Some (replicate 512 7), w1) \<and> memory_valid w1 \<and>
     chain_list (re_sha demo_recovery) (memory_objs w1) ''db'' demo_metadata 0 (head_pos demo_head)
       [(''db/commits/c1.json'', demo_manifest, \<lparr>es_entries = [], es_present = False\<rparr>)] \<and>
     chain_image demo_recovery (memory_objs w1) ''db'' None [(''db/commits/c1.json'', demo_manifest, \<lparr>es_entries = [], es_present = False\<rparr>)] None =
       Some (Some (replicate 512 7)) \<and>
     stored_checkpoint (memory_objs w1) ''db'' = Some ptr \<and> covered_base (re_sha demo_recovery) (memory_objs w1) ''db'' ptr = Some demo_manifest"
proof -
  let ?e = "\<lparr>es_entries = [], es_present = False\<rparr>" and ?sha = "re_sha demo_recovery"
  let ?es = "[(''db/commits/c1.json'', demo_manifest, ?e)]"
  note pub = demo_published [unfolded published_chain_def]
  have sha: "\<forall>x. length (?sha x) = 32" by (simp add: demo_recovery_def sample_env_def)
  obtain w0 where r: "otsardb_recovery_restore_store_ex demo_recovery (memory_object_store memory_capabilities) demo_memory ''db'' None None =
     (True, Some (replicate 512 7), w0)" using demo_restored by blast
  obtain ob where ob: "memory_objs demo_memory (hd_commit_key demo_head) = Some ob" "otsardb_commit_manifest_decode_json (so_data ob) = Some demo_manifest"
    using demo_contents(2) demo_json_decodes by (auto simp: demo_head_fields)
  obtain hh where hh: "intact demo_recovery (memory_objs demo_memory) ''db'' None demo_metadata hh (Some (replicate 512 7))" using demo_intact by blast
  have hh_eq: "hh = demo_head" using hh demo_contents(1) head_decode_encode [OF demo_head_wf] by (auto simp: intact_def readable_head_def)
  have hok: "recovery_head_ok demo_metadata demo_head" using hh hh_eq by (simp add: intact_def)
  obtain w1 where build: "otsardb_checkpoint_build demo_recovery None (memory_object_store memory_capabilities) demo_memory ''db'' None =
       (BUILD_OK, Some (replicate 512 7), w1)"
    using mem_accepting.checkpoint_build_live [OF r demo_memory_valid sha _ _ _ _ hok demo_head_wf _ _ ob] pub
    by (auto simp: demo_head_fields demo_manifest_fields demo_metadata_def)
  have st: "stored_head (memory_objs demo_memory) ''db'' = Some demo_head" "stored_metadata (memory_objs demo_memory) ''db'' = Some demo_metadata"
    using pub by (auto simp: readable_head_def readable_metadata_def stored_head_def)
  have hw: "head_wf demo_head \<and> hd_database_id demo_head \<noteq> [] \<and> plain_string ''db''"
    using demo_head_wf by (simp add: demo_head_fields plain_string_def)
  obtain groups where law: "checkpoint_stored ?sha (memory_objs w1) ''db'' (checkpoint_of_head demo_head 512 1 groups)" "memory_valid w1"
    and frame: "\<forall>key. key \<noteq> checkpoint_key ''db'' \<and> (\<forall>name. key \<noteq> join_root ''db'' (''checkpoints/'' @ name)) \<longrightarrow> memory_objs w1 key = memory_objs demo_memory key"
  proof -
    obtain meta h ob' m groups where l: "stored_metadata (memory_objs demo_memory) ''db'' = Some meta" "stored_head (memory_objs demo_memory) ''db'' = Some h"
      "memory_objs demo_memory (hd_commit_key h) = Some ob'" "otsardb_commit_manifest_decode_json (so_data ob') = Some m"
      "head_wf h \<and> hd_database_id h \<noteq> [] \<and> plain_string ''db'' \<longrightarrow>
         checkpoint_stored ?sha (memory_objs w1) ''db'' (checkpoint_of_head h (dm_page_size meta) (cm_database_size_pages m) groups)" "memory_valid w1"
      "\<forall>key. key \<noteq> checkpoint_key ''db'' \<and> (\<forall>name. key \<noteq> join_root ''db'' (''checkpoints/'' @ name)) \<longrightarrow> memory_objs w1 key = memory_objs demo_memory key"
      using mem.checkpoint_build_law [OF build demo_memory_valid sha] by blast
    have "meta = demo_metadata" "h = demo_head" using l(1,2) st by simp_all
    moreover have "m = demo_manifest" using l(3,4) ob \<open>h = demo_head\<close> by simp
    ultimately show thesis using that [of groups] l(5-7) hw by (simp add: demo_manifest_fields demo_metadata_def)
  qed
  have keeps: "keeps_objects ''db'' (memory_objs demo_memory) (memory_objs w1)"
    unfolding keeps_objects_def
  proof (intro allI impI)
    fix k ob assume k: "memory_objs demo_memory k = Some ob"
    then have "k \<noteq> checkpoint_key ''db'' \<and> (\<forall>name. k \<noteq> join_root ''db'' (''checkpoints/'' @ name))"
      using demo_no_checkpoint by (intro conjI allI notI) simp_all
    then show "memory_objs w1 k = Some ob" using frame k by simp
  qed
  have "''db/commits/c1.json'' \<noteq> checkpoint_key ''db'' \<and> (\<forall>name. ''db/commits/c1.json'' \<noteq> join_root ''db'' (''checkpoints/'' @ name))"
    by (simp add: checkpoint_key_def join_root_def)
  then have at: "memory_objs w1 ''db/commits/c1.json'' = memory_objs demo_memory ''db/commits/c1.json''" using frame by blast
  have chain: "chain_list ?sha (memory_objs w1) ''db'' demo_metadata 0 (head_pos demo_head) ?es"
    by (rule chain_list_cong [of _ "memory_objs demo_memory"]) (use pub at in simp_all)
  have "chain_image demo_recovery (memory_objs demo_memory) ''db'' None ?es None = Some (Some (replicate 512 7))"
  proof -
    obtain es where es: "chain_list ?sha (memory_objs demo_memory) ''db'' demo_metadata 0 (head_pos demo_head) es"
      "chain_image demo_recovery (memory_objs demo_memory) ''db'' None es None = Some (Some (replicate 512 7))"
      using hh hh_eq unfolding intact_def by blast
    have "es = ?es" by (rule chain_list_unique [OF es(1)]) (use pub in blast)
    then show ?thesis using es(2) by simp
  qed
  then have image: "chain_image demo_recovery (memory_objs w1) ''db'' None ?es None = Some (Some (replicate 512 7))"
    by (rule chain_image_keep [OF _ keeps]) (use pub in \<open>auto simp: segments_named_def head_key_def\<close>)
  have hm: "head_manifest ?sha (memory_objs w1) demo_metadata demo_head demo_manifest ?e"
    using published_chain_first [OF demo_published] at by (auto simp: head_manifest_def manifest_object_def demo_head_fields)
  obtain ptr where "stored_checkpoint (memory_objs w1) ''db'' = Some ptr" "covered_base ?sha (memory_objs w1) ''db'' ptr = Some demo_manifest"
    using covered_base_of_head [OF law(1) hm] by (auto simp: demo_head_fields join_root_def commit_name_def)
  then show ?thesis using build law(2) chain image by blast
qed

section \<open>Properties\<close>

text \<open>
  (C3) Garbage collection is safe, whatever calls of the store fail.  For an unencrypted database whose
  chain is complete and whose checkpoint covers one of its commits, a sweep ends; a negative result means
  that nothing has changed; no object is ever changed otherwise than by being deleted; every manifest from the
  covered generation up and every segment of those manifests is still there; and so is every object that is
  neither a commit nor a segment, except possibly the lease.
\<close>

theorem gc_sweep_safe:
  assumes laws: "object_store_laws store objs valid" and w: "valid w"
    and chain: "chain_list (re_sha env) (objs w) root meta 0 (head_pos h) es"
    and image: "chain_image env (objs w) root None es None = Some img"
    and name: "pos_key (head_pos h) = join_root root (commit_name (pos_commit_id (head_pos h)))"
    and named: "segments_named root es"
    and ptr: "stored_checkpoint (objs w) root = Some ptr" "covered_base (re_sha env) (objs w) root ptr = Some base" "(kb, base, encb) \<in> set es"
  shows "\<exists>n w'. otsardb_gc_sweep (re_sha env) store root options now w = Some (n, w') \<and>
    (n < 0 \<longrightarrow> objs w' = objs w) \<and> (\<forall>k. objs w' k = objs w k \<or> objs w' k = None) \<and>
    (\<forall>(k, m, enc)\<in>set es. cm_generation m \<ge> cp_covered_generation ptr \<longrightarrow> objs w' k = objs w k \<and>
       (\<forall>ref\<in>set (cm_segments m). \<forall>key. segment_object_key root m ref = Some key \<longrightarrow> objs w' key = objs w key)) \<and>
    (\<forall>k. (\<forall>name. k \<noteq> join_root root (''commits/'' @ name) \<and> k \<noteq> join_root root (''segments/'' @ name)) \<and>
       k \<noteq> join_root root ''lease.json'' \<longrightarrow> objs w' k = objs w k)"
proof -
  obtain xs ys where es: "es = xs @ (kb, base, encb) # ys" using ptr(3) by (meson split_list)
  let ?G = "gc_garbage (objs w) root (cm_parent_generation base) (take COMMIT_ID_MAX (cm_parent_commit_id base)) \<union> lease_garbage (objs w) root options"
  have "\<exists>r. otsardb_gc_sweep (re_sha env) store root options now w = Some r"
    by (rule object_store_laws.gc_sweep_returns [OF laws chain w]) (use ptr in auto)
  then obtain n w' where sweep: "otsardb_gc_sweep (re_sha env) store root options now w = Some (n, w')" by auto
  note law = object_store_laws.gc_sweep_law [OF laws sweep w]
  have only: "only_deletes ?G (objs w) (objs w')" and neg: "n < 0 \<Longrightarrow> objs w' = objs w" using law ptr by auto
  have cov: "cm_generation base = cp_covered_generation ptr" using ptr(2) by (auto simp: covered_base_def require_def bind_eq_Some_conv split: if_splits)
  have live: "objs w' g = objs w g" if e: "(k, m, enc) \<in> set es" "cm_generation m \<ge> cp_covered_generation ptr"
    and g: "g = k \<or> (\<exists>ref\<in>set (cm_segments m). segment_object_key root m ref = Some g)" for k m enc g
  proof -
    have "(k, m, enc) \<notin> set ys" using chain_order [OF chain [unfolded es]] e(2) cov by (metis linorder_not_le)
    then have "(k, m, enc) \<in> set (xs @ [(kb, base, encb)])" using e(1) es by auto
    then have "g \<notin> ?G" by (rule live_not_garbage [OF chain [unfolded es] image [unfolded es] name named [unfolded es] _ g])
    then show ?thesis using only unfolding only_deletes_def by blast
  qed
  have other: "objs w' k = objs w k" if "\<forall>name. k \<noteq> join_root root (''commits/'' @ name) \<and> k \<noteq> join_root root (''segments/'' @ name)"
    "k \<noteq> join_root root ''lease.json''" for k
  proof -
    have "k \<notin> ?G" using garbage_names [OF chain [unfolded es] name named [unfolded es]] that by (auto simp: lease_garbage_def)
    then show ?thesis using only unfolding only_deletes_def by blast
  qed
  show ?thesis
  proof (intro exI conjI)
    show "otsardb_gc_sweep (re_sha env) store root options now w = Some (n, w')" by (rule sweep)
    show "n < 0 \<longrightarrow> objs w' = objs w" using neg by blast
    show "\<forall>k. objs w' k = objs w k \<or> objs w' k = None" using only unfolding only_deletes_def by metis
    show "\<forall>(k, m, enc)\<in>set es. cm_generation m \<ge> cp_covered_generation ptr \<longrightarrow> objs w' k = objs w k \<and>
       (\<forall>ref\<in>set (cm_segments m). \<forall>key. segment_object_key root m ref = Some key \<longrightarrow> objs w' key = objs w key)"
      using live by blast
    show "\<forall>k. (\<forall>name. k \<noteq> join_root root (''commits/'' @ name) \<and> k \<noteq> join_root root (''segments/'' @ name)) \<and>
       k \<noteq> join_root root ''lease.json'' \<longrightarrow> objs w' k = objs w k" using other by blast
  qed
qed

theorem gc_sweep_safe_witness:
  "\<exists>w1 n w2. otsardb_checkpoint_build demo_recovery None (memory_object_store memory_capabilities) demo_memory ''db'' None =
       (BUILD_OK, Some (replicate 512 7), w1) \<and>
     otsardb_gc_sweep (re_sha demo_recovery) (memory_object_store memory_capabilities) ''db'' None 0 w1 = Some (n, w2) \<and>
     memory_objs w2 ''db/commits/c1.json'' = memory_objs w1 ''db/commits/c1.json'' \<and> memory_objs w2 ''db/HEAD.json'' = memory_objs w1 ''db/HEAD.json''"
proof -
  let ?e = "\<lparr>es_entries = [], es_present = False\<rparr>" and ?sha = "re_sha demo_recovery"
  let ?es = "[(''db/commits/c1.json'', demo_manifest, ?e)]"
  obtain w1 ptr where d: "otsardb_checkpoint_build demo_recovery None (memory_object_store memory_capabilities) demo_memory ''db'' None =
       (BUILD_OK, Some (replicate 512 7), w1)" "memory_valid w1"
    "chain_list ?sha (memory_objs w1) ''db'' demo_metadata 0 (head_pos demo_head) ?es"
    "chain_image demo_recovery (memory_objs w1) ''db'' None ?es None = Some (Some (replicate 512 7))"
    "stored_checkpoint (memory_objs w1) ''db'' = Some ptr" "covered_base ?sha (memory_objs w1) ''db'' ptr = Some demo_manifest"
    using demo_checkpointed by blast
  have n: "pos_key (head_pos demo_head) = join_root ''db'' (commit_name (pos_commit_id (head_pos demo_head)))"
    by (simp add: head_pos_def demo_head_fields COMMIT_ID_MAX_def KEY_MAX_def join_root_def commit_name_def)
  have named: "segments_named ''db'' ?es" using demo_published by (simp add: published_chain_def)
  have cov: "cp_covered_generation ptr = 1"
    using d(6) by (auto simp: covered_base_def require_def bind_eq_Some_conv demo_manifest_fields split: if_splits)
  obtain n w2 where s: "otsardb_gc_sweep ?sha (memory_object_store memory_capabilities) ''db'' None 0 w1 = Some (n, w2)"
    "\<forall>(k, m, enc)\<in>set ?es. cm_generation m \<ge> cp_covered_generation ptr \<longrightarrow> memory_objs w2 k = memory_objs w1 k \<and>
       (\<forall>ref\<in>set (cm_segments m). \<forall>key. segment_object_key ''db'' m ref = Some key \<longrightarrow> memory_objs w2 key = memory_objs w1 key)"
    "\<forall>k. (\<forall>name. k \<noteq> join_root ''db'' (''commits/'' @ name) \<and> k \<noteq> join_root ''db'' (''segments/'' @ name)) \<and>
       k \<noteq> join_root ''db'' ''lease.json'' \<longrightarrow> memory_objs w2 k = memory_objs w1 k"
    using gc_sweep_safe [OF mem.object_store_laws_axioms d(2,3,4) n named d(5,6), of "''db/commits/c1.json''" ?e memory_capabilities None 0]
    by auto
  have "memory_objs w2 ''db/commits/c1.json'' = memory_objs w1 ''db/commits/c1.json''" using s(2) by (simp add: cov demo_manifest_fields)
  moreover have "memory_objs w2 ''db/HEAD.json'' = memory_objs w1 ''db/HEAD.json''" using s(3) by (simp add: join_root_def)
  ultimately show ?thesis using d(1) s(1) by blast
qed

text \<open>
  (C2) Checkpoint, garbage collection and restore together keep the database.  Let a database be published
  as the writers leave it, with a checksum in its newest manifest, at most 524288 pages and a root of at most 900
  characters, and let a restore give an image with the size that HEAD declares.  In a store that answers
  reads and accepts writes, building a checkpoint then succeeds, the sweep after it ends, and the restore
  from what the sweep has left gives the same image again; the segments below the checkpoint are not needed.
\<close>

theorem checkpoint_sweep_restores:
  assumes store: "accepting_store store objs valid" and w: "valid w" and sha: "\<forall>x. length (re_sha env x) = 32"
    and pub: "published_chain (re_sha env) (objs w) root meta h m es" and root: "length root \<le> 900"
    and m: "cm_page_size m \<noteq> 0" "cm_database_size_pages m \<noteq> 0" "unat (cm_database_size_pages m) \<le> 2 ^ 19" "cm_post_apply_checksum m \<noteq> []"
    and img: "otsardb_recovery_restore_store_ex env store w root cipher old = (True, Some f, w0)"
      "length f = unat (cm_database_size_pages m) * unat (cm_page_size m)"
  shows "\<exists>w1 n w2 w3. otsardb_checkpoint_build env cipher store w root old = (BUILD_OK, Some f, w1) \<and>
    otsardb_gc_sweep (re_sha env) store root options now w1 = Some (n, w2) \<and>
    otsardb_recovery_restore_store_ex env store w2 root cipher fresh = (True, Some f, w3)"
proof -
  have ans: "answering_store store objs valid" using store by (simp add: accepting_store_def)
  obtain enc where hm: "head_manifest (re_sha env) (objs w) meta h m enc" using pub by (auto simp: published_chain_def)
  obtain ob where ob: "objs w (hd_commit_key h) = Some ob" "otsardb_commit_manifest_decode_json (so_data ob) = Some m"
    using head_manifest_digest [OF hm] by blast
  have ps: "dm_page_size meta \<noteq> 0" using hm m(1) by (simp add: head_manifest_def chain_manifest_ok_def)
  obtain w1 where build: "otsardb_checkpoint_build env cipher store w root old = (BUILD_OK, Some f, w1)"
    using accepting_store.checkpoint_build_live [OF store img(1) w sha root _ _ _ _ _ _ _ ob m(2,3) ps] pub hm
    by (auto simp: published_chain_def head_manifest_def)
  then show ?thesis
    using answering_store.checkpoint_sweep_restore [OF ans pub w sha build img(2) m(4), of options now fresh] by blast
qed

theorem checkpoint_sweep_restores_witness:
  "\<exists>w1 n w2 w3. otsardb_checkpoint_build demo_recovery None (memory_object_store memory_capabilities) demo_memory ''db'' None =
       (BUILD_OK, Some (replicate 512 7), w1) \<and>
     otsardb_gc_sweep (re_sha demo_recovery) (memory_object_store memory_capabilities) ''db'' None 0 w1 = Some (n, w2) \<and>
     otsardb_recovery_restore_store_ex demo_recovery (memory_object_store memory_capabilities) w2 ''db'' None None =
       (True, Some (replicate 512 7), w3)"
proof -
  obtain w0 where r: "otsardb_recovery_restore_store_ex demo_recovery (memory_object_store memory_capabilities) demo_memory ''db'' None None =
     (True, Some (replicate 512 7), w0)" using demo_restored by blast
  have sha: "\<forall>x. length (re_sha demo_recovery x) = 32" by (simp add: demo_recovery_def sample_env_def)
  show ?thesis
    by (rule checkpoint_sweep_restores [OF mem_accepting.accepting_store_axioms demo_memory_valid sha demo_published _ _ _ _ _ r])
      (simp_all add: demo_manifest_fields demo_checksum_ok)
qed

end
