(* ===== verification/Lease.thy ===== *)
theory Lease
  imports Commit_Publish
begin

text \<open>
  The writer lease, \<open>src/ha/lease.c\<close>: one object \<open>lease.json\<close> names the instance that may publish.  It is
  created, re-stamped and taken over with conditional writes only.  The clock is read from the world that the
  calls of the store pass on; the mutex is left out, but a renewal is split where the source unlocks it.
\<close>

section \<open>Operations\<close>

definition LEASE_TTL_DEFAULT_SECS :: u64 where "LEASE_TTL_DEFAULT_SECS = 30"
definition LEASE_SKEW_MARGIN_SECS :: int where "LEASE_SKEW_MARGIN_SECS = 5"
definition LEASE_OWNER_MAX :: nat where "LEASE_OWNER_MAX = 63"
definition LEASE_ADDRESS_MAX :: nat where "LEASE_ADDRESS_MAX = 255"
definition LEASE_KEY_MAX :: nat where "LEASE_KEY_MAX = 1024"
definition LEASE_JSON_MAX :: nat where "LEASE_JSON_MAX = 512"

record lease =
  ls_key :: string
  ls_owner :: string
  ls_address :: string
  ls_generation :: u64
  ls_etag :: string
  ls_ttl_secs :: u64
  ls_claimed_at :: int
  ls_lost :: bool

datatype claim_state = LEASE_CLAIMED | LEASE_HELD | LEASE_ERROR

definition age_is_expired :: "int \<Rightarrow> u64 \<Rightarrow> bool" where
  "age_is_expired age_secs ttl_secs =
     (let window = sint ttl_secs - LEASE_SKEW_MARGIN_SECS;
          window = (if window < 0 then 0 else window) in
      age_secs \<ge> window)"

definition otsardb_lease_age_is_expired :: "u64 \<Rightarrow> int \<Rightarrow> bool" where
  "otsardb_lease_age_is_expired ttl_secs age_secs = age_is_expired age_secs ttl_secs"

text \<open>The text is cut off at the end of the buffer.\<close>

definition lease_document :: "string \<Rightarrow> u64 \<Rightarrow> string option \<Rightarrow> string" where
  "lease_document owner generation address =
     (if address \<noteq> None \<and> address \<noteq> Some []
      then ''{'' @ json_str ''owner'' owner @ '','' @ json_u64 ''generation'' (unat generation) @ '','' @
             json_str ''address'' (the address) @ ''}''
      else ''{'' @ json_str ''owner'' owner @ '','' @ json_u64 ''generation'' (unat generation) @ ''}'')"

definition encode_lease_json :: "nat \<Rightarrow> string \<Rightarrow> u64 \<Rightarrow> string option \<Rightarrow> string option" where
  "encode_lease_json cap owner generation address =
     (if length (lease_document owner generation address) > int_max then None
      else Some (take (cap - 1) (lease_document owner generation address)))"

text \<open>A string field; the searches start behind the key and may run past its own value.\<close>

definition parse_lease_string_field :: "string \<Rightarrow> nat \<Rightarrow> string \<Rightarrow> nat \<Rightarrow> string option" where
  "parse_lease_string_field json size_bytes key out_cap =
     (case strstr json key of
        None \<Rightarrow> None
      | Some found \<Rightarrow>
          (case strchr (drop (length key) found) quote of
             None \<Rightarrow> None
           | Some value_open \<Rightarrow>
               let value_start = tl value_open in
               (case strchr value_start quote of
                  None \<Rightarrow> None
                | Some value_close \<Rightarrow>
                    let value_len = length value_start - length value_close in
                    if length json - length value_close \<ge> size_bytes then None
                    else if value_len \<ge> out_cap then None
                    else Some (take value_len value_start))))"

definition quoted :: "string \<Rightarrow> string" where
  "quoted name = quote # name @ [quote]"

definition lease_blank :: "char \<Rightarrow> bool" where
  "lease_blank c \<longleftrightarrow> c \<in> {CHR '' '', CHR 0x09, CHR 0x0D, CHR 0x0A}"

definition parse_lease_json :: "bytes \<Rightarrow> nat \<Rightarrow> nat \<Rightarrow> (string \<times> u64 \<times> string) option" where
  "parse_lease_json data owner_cap address_cap =
     (let json = c_str (string_of_bytes data) in
      do { owner \<leftarrow> parse_lease_string_field json (length data) (quoted ''owner'') owner_cap;
           require (owner \<noteq> []);
           gen_key \<leftarrow> strstr json (quoted ''generation'');
           let number = dropWhile (\<lambda>c. c = CHR '':'' \<or> lease_blank c) (drop (length (quoted ''generation'')) gen_key);
           (parsed, end_ptr, _) \<leftarrow> strtoull number;
           let tail = dropWhile lease_blank end_ptr;
           require (tail = [] \<or> hd tail = CHR ''}'' \<or> hd tail = CHR '','');
           Some (owner, parsed,
             case parse_lease_string_field json (length data) (quoted ''address'') address_cap of None \<Rightarrow> [] | Some a \<Rightarrow> a) })"

definition lease_address_valid :: "string option \<Rightarrow> bool" where
  "lease_address_valid address =
     (case address of None \<Rightarrow> True | Some a \<Rightarrow> strchr a quote = None \<and> strchr a (CHR 0x5C) = None)"

definition lease_set :: "lease \<Rightarrow> string \<Rightarrow> u64 \<Rightarrow> string option \<Rightarrow> string option \<Rightarrow> int \<Rightarrow> lease" where
  "lease_set lease owner generation address etag now =
     lease\<lparr>ls_owner := take LEASE_OWNER_MAX owner, ls_generation := generation,
       ls_address := take LEASE_ADDRESS_MAX (if address \<noteq> None \<and> lease_address_valid address then the address else []),
       ls_etag := take 127 (case etag of None \<Rightarrow> [] | Some e \<Rightarrow> e),
       ls_claimed_at := now, ls_lost := False\<rparr>"

text \<open>One attempt of a claim claims the lease, is repeated, or ends the call.\<close>

datatype claim_step = STEP_CLAIMED lease u64 | STEP_RETRY | STEP_STOP claim_state

definition claim_write ::
  "('w \<Rightarrow> int) \<Rightarrow> 'w object_store \<Rightarrow> lease \<Rightarrow> string \<Rightarrow> u64 \<Rightarrow> string option \<Rightarrow> put_options \<Rightarrow> 'w \<Rightarrow> claim_step \<times> 'w" where
  "claim_write clock store lease instance_id generation address options w =
     (case encode_lease_json LEASE_JSON_MAX instance_id generation address of
        None \<Rightarrow> (STEP_STOP LEASE_ERROR, w)
      | Some json \<Rightarrow>
          (case otsardb_store_put store w (ls_key lease) (bytes_of_string json) options of (rc, etag, w') \<Rightarrow>
             if rc = STORE_OK then (STEP_CLAIMED (lease_set lease instance_id generation address etag (clock w')) generation, w')
             else if rc = STORE_PRECONDITION_FAILED then (STEP_RETRY, w')
             else (STEP_STOP LEASE_ERROR, w')))"

text \<open>What an attempt has seen of the holder, where it has read a lease.\<close>

definition claim_attempt ::
  "('w \<Rightarrow> int) \<Rightarrow> 'w object_store \<Rightarrow> lease \<Rightarrow> string \<Rightarrow> string option \<Rightarrow> 'w \<Rightarrow> claim_step \<times> (string \<times> string) option \<times> 'w" where
  "claim_attempt clock store lease instance_id address w =
     (case otsardb_store_get store w (ls_key lease) of (rc, ob, w1) \<Rightarrow>
        if rc = STORE_NOT_FOUND then
          (case claim_write clock store lease instance_id 1 address (no_options\<lparr>po_if_none_match := True\<rparr>) w1 of
             (step, w2) \<Rightarrow> (step, None, w2))
        else if rc \<noteq> STORE_OK then (STEP_STOP LEASE_ERROR, None, w1)
        else case parse_lease_json (so_data ob) (LEASE_OWNER_MAX + 1) (LEASE_ADDRESS_MAX + 1) of
          None \<Rightarrow> (STEP_STOP LEASE_ERROR, None, w1)
        | Some (current_owner, generation, current_address) \<Rightarrow>
            let seen = Some (current_owner, current_address) in
            if current_owner = instance_id then
              (case claim_write clock store lease instance_id generation address (no_options\<lparr>po_if_match_etag := so_etag ob\<rparr>) w1 of
                 (step, w2) \<Rightarrow> (step, seen, w2))
            else let expired =
                (if so_last_modified_secs ob > 0 then
                   (let age = clock w1 - so_last_modified_secs ob; age = (if age < 0 then 0 else age) in
                    age_is_expired age (ls_ttl_secs lease))
                 else False) in
              if \<not> expired then (STEP_STOP LEASE_HELD, seen, w1)
              else (case claim_write clock store lease instance_id (generation + 1) address
                           (no_options\<lparr>po_if_match_etag := so_etag ob\<rparr>) w1 of
                      (step, w2) \<Rightarrow> (step, seen, w2)))"

text \<open>
  The result of a claim: the state, the lease, the epoch, and what was seen of the holder in buffers of the
  given sizes.
\<close>

record claim_result =
  cr_state :: claim_state
  cr_lease :: "lease option"
  cr_epoch :: u64
  cr_holder :: string
  cr_address :: string

primrec claim_loop ::
  "nat \<Rightarrow> ('w \<Rightarrow> int) \<Rightarrow> 'w object_store \<Rightarrow> lease \<Rightarrow> string \<Rightarrow> string option \<Rightarrow> nat \<Rightarrow> nat \<Rightarrow> claim_result \<Rightarrow> 'w \<Rightarrow>
   claim_result \<times> 'w" where
  "claim_loop 0 clock store lease instance_id address holder_cap address_cap r w = (r, w)"
| "claim_loop (Suc n) clock store lease instance_id address holder_cap address_cap r w =
     (case claim_attempt clock store lease instance_id address w of (step, seen, w') \<Rightarrow>
        let r' = (case seen of
                    None \<Rightarrow> r
                  | Some (holder, current_address) \<Rightarrow>
                      r\<lparr>cr_holder := take (holder_cap - 1) holder, cr_address := take (address_cap - 1) current_address\<rparr>) in
        (case step of
           STEP_CLAIMED claimed epoch \<Rightarrow> (r'\<lparr>cr_state := LEASE_CLAIMED, cr_lease := Some claimed, cr_epoch := epoch\<rparr>, w')
         | STEP_RETRY \<Rightarrow> claim_loop n clock store lease instance_id address holder_cap address_cap r' w'
         | STEP_STOP state \<Rightarrow> (r'\<lparr>cr_state := state\<rparr>, w')))"

definition lease_key :: "string \<Rightarrow> string" where
  "lease_key root = take LEASE_KEY_MAX (root @ ''/lease.json'')"

definition otsardb_lease_claim ::
  "('w \<Rightarrow> int) \<Rightarrow> 'w object_store \<Rightarrow> string \<Rightarrow> string \<Rightarrow> string option \<Rightarrow> u64 \<Rightarrow> nat \<Rightarrow> nat \<Rightarrow> 'w \<Rightarrow> claim_result \<times> 'w" where
  "otsardb_lease_claim clock store root instance_id address ttl_secs holder_cap address_cap w =
     (let r = \<lparr>cr_state = LEASE_ERROR, cr_lease = None, cr_epoch = 0, cr_holder = [], cr_address = []\<rparr> in
      if root = [] \<or> instance_id = [] \<or> length root \<ge> LEASE_KEY_MAX then (r, w)
      else if strchr instance_id quote \<noteq> None \<or> strchr instance_id (CHR 0x5C) \<noteq> None \<or> \<not> lease_address_valid address then (r, w)
      else let lease = \<lparr>ls_key = lease_key root, ls_owner = [], ls_address = [], ls_generation = 0, ls_etag = [],
                        ls_ttl_secs = (if ttl_secs = 0 then LEASE_TTL_DEFAULT_SECS else ttl_secs),
                        ls_claimed_at = 0, ls_lost = False\<rparr> in
        claim_loop 3 clock store lease instance_id address holder_cap address_cap (r\<lparr>cr_state := LEASE_HELD\<rparr>) w)"

text \<open>
  A renewal: the inputs are read under the lock, the write runs without it, and the outcome is recorded in
  the lease as it is then.
\<close>

datatype renew_result = RENEWED | RENEW_LOST | RENEW_ERROR

definition renew_commit :: "store_result \<Rightarrow> string option \<Rightarrow> int \<Rightarrow> lease \<Rightarrow> renew_result \<times> lease" where
  "renew_commit rc out_etag now lease =
     (if rc = STORE_OK then
        (RENEWED, if ls_lost lease then lease
                  else lease\<lparr>ls_etag := take 127 (case out_etag of None \<Rightarrow> [] | Some e \<Rightarrow> e), ls_claimed_at := now\<rparr>)
      else if rc = STORE_PRECONDITION_FAILED then (RENEW_LOST, lease\<lparr>ls_lost := True\<rparr>)
      else (RENEW_ERROR, lease))"

definition otsardb_lease_renew :: "('w \<Rightarrow> int) \<Rightarrow> 'w object_store \<Rightarrow> lease \<Rightarrow> 'w \<Rightarrow> renew_result \<times> lease \<times> 'w" where
  "otsardb_lease_renew clock store lease w =
     (if ls_lost lease then (RENEW_LOST, lease, w)
      else case encode_lease_json LEASE_JSON_MAX (ls_owner lease) (ls_generation lease) (Some (ls_address lease)) of
        None \<Rightarrow> (RENEW_ERROR, lease, w)
      | Some json \<Rightarrow>
          (case otsardb_store_put store w (ls_key lease) (bytes_of_string json) (no_options\<lparr>po_if_match_etag := Some (ls_etag lease)\<rparr>) of
             (rc, out_etag, w') \<Rightarrow>
               (case renew_commit rc out_etag (clock w') lease of (r, lease') \<Rightarrow> (r, lease', w'))))"

definition lease_unexpired :: "lease \<Rightarrow> int \<Rightarrow> bool" where
  "lease_unexpired lease now =
     (let age = now - ls_claimed_at lease; age = (if age < 0 then 0 else age) in
      \<not> age_is_expired age (ls_ttl_secs lease))"

definition otsardb_lease_is_live :: "('w \<Rightarrow> int) \<Rightarrow> lease \<Rightarrow> 'w \<Rightarrow> bool" where
  "otsardb_lease_is_live clock lease w \<longleftrightarrow> \<not> ls_lost lease \<and> lease_unexpired lease (clock w)"

definition otsardb_lease_address :: "lease \<Rightarrow> nat \<Rightarrow> bool \<times> string" where
  "otsardb_lease_address lease out_cap =
     (let out = take (out_cap - 1) (ls_address lease) in (out_cap > 0 \<and> out \<noteq> [], out))"

definition otsardb_lease_release :: "('w \<Rightarrow> int) \<Rightarrow> 'w object_store \<Rightarrow> lease \<Rightarrow> 'w \<Rightarrow> lease \<times> 'w" where
  "otsardb_lease_release clock store lease w =
     (if ls_lost lease \<or> \<not> lease_unexpired lease (clock w) then (lease, w)
      else (case otsardb_store_delete store w (ls_key lease) of (rc, w') \<Rightarrow> (lease\<lparr>ls_lost := True\<rparr>, w')))"

section \<open>Reading a lease back\<close>

definition lease_owner_ok :: "string \<Rightarrow> bool" where
  "lease_owner_ok owner \<longleftrightarrow> owner \<noteq> [] \<and> plain_string owner \<and> length owner \<le> LEASE_OWNER_MAX \<and>
     owner \<noteq> ''generation'' \<and> owner \<noteq> ''address''"

definition lease_address_ok :: "string option \<Rightarrow> bool" where
  "lease_address_ok address = (case address of None \<Rightarrow> True | Some a \<Rightarrow> plain_string a \<and> length a \<le> LEASE_ADDRESS_MAX)"

lemma strstr_quoted_skip:
  assumes "json_name n" "quote \<notin> set k" "k \<noteq> n" "quote \<notin> set v" "v \<noteq> n" "c \<in> {CHR '','', CHR ''}'', CHR '']''}"
  shows "strstr (json_str k v @ c # rest) (quoted n) = strstr rest (quoted n)"
proof -
  have "\<not> prefix (quote # n @ [quote]) (quote # k @ quote # CHR '':'' # quote # v @ quote # c # rest)"
    using assms prefix_quoted [of n k "[]"] by (auto simp: json_name_def)
  then have "strstr (json_str k v @ c # rest) (quoted n) = strstr (k @ quote # CHR '':'' # quote # v @ quote # c # rest) (quote # n @ [quote])"
    by (simp add: json_str_def quoted_def strstr.simps)
  also have "\<dots> = strstr (quote # CHR '':'' # quote # v @ quote # c # rest) (quote # n @ [quote])"
    using assms(2) by (rule strstr_skip_noquote)
  also have "\<dots> = strstr (quote # v @ quote # c # rest) (quote # n @ [quote])"
    using assms(1) by (rule strstr_skip_quote) simp
  also have "\<dots> = strstr (v @ quote # c # rest) (quote # n @ [quote])"
  proof -
    have "\<not> prefix (quote # n @ [quote]) (quote # v @ quote # c # rest)"
      using assms prefix_quoted [of n v "[]"] by (auto simp: json_name_def)
    then show ?thesis by (simp add: strstr.simps)
  qed
  also have "\<dots> = strstr (quote # c # rest) (quote # n @ [quote])" using assms(4) by (rule strstr_skip_noquote)
  also have "\<dots> = strstr rest (quote # n @ [quote])" using assms(1) by (rule strstr_skip_quote) (use assms(6) in auto)
  finally show ?thesis by (simp add: quoted_def)
qed

lemma strstr_quoted:
  "strstr (json_str n v @ rest) (quoted n) = Some (json_str n v @ rest)"
  "strstr (json_u64 n g @ rest) (quoted n) = Some (json_u64 n g @ rest)"
  "json_name n \<Longrightarrow> quote \<notin> set k \<Longrightarrow> k \<noteq> n \<Longrightarrow> strstr (json_u64 k g @ rest) (quoted n) = strstr rest (quoted n)"
  "c \<noteq> quote \<Longrightarrow> strstr (c # rest) (quoted n) = strstr rest (quoted n)"
  "strstr [] (quoted n) = None"
  using strstr_hit [of "quoted n" "CHR '':'' # quote # v @ quote # rest"] strstr_hit [of "quoted n" "CHR '':'' # dec g @ rest"]
    strstr_skip_u64 [of n k g rest "[]"]
  by (simp_all add: json_str_def json_u64_def quoted_def strstr.simps)

text \<open>The value of a field that is found in the printed lease.\<close>

lemma parse_field_found:
  assumes "strstr json (quoted n) = Some (json_str n v @ rest)" "json = pre @ json_str n v @ rest" "quote \<notin> set v" "length v < cap" "length json \<le> k"
  shows "parse_lease_string_field json k (quoted n) cap = Some v"
proof -
  have o: "strchr (drop (length (quoted n)) (json_str n v @ rest)) quote = Some (quote # v @ quote # rest)"
    by (simp add: json_str_def quoted_def)
  have c: "strchr (v @ quote # rest) quote = Some (quote # rest)" using assms(3) by (rule strchr_hit)
  have p: "\<not> length json - length (quote # rest) \<ge> k" using assms(2,5) by (simp add: json_str_def)
  show ?thesis using assms(1,4) o c p by (simp add: parse_lease_string_field_def)
qed

lemma lease_document_parse:
  assumes "lease_owner_ok owner" "lease_address_ok address"
  shows "parse_lease_json (bytes_of_string (lease_document owner g address)) (LEASE_OWNER_MAX + 1) (LEASE_ADDRESS_MAX + 1) =
    Some (owner, g, case address of None \<Rightarrow> [] | Some a \<Rightarrow> a)" (is "?parse = _")
proof -
  let ?gen = "json_u64 ''generation'' (unat g)"
  define rest where "rest = (if address \<noteq> None \<and> address \<noteq> Some [] then '','' @ json_str ''address'' (the address) @ ''}'' else ''}'')"
  define doc where "doc = lease_document owner g address"
  have doc: "doc = ''{'' @ json_str ''owner'' owner @ '','' @ ?gen @ rest"
    by (simp add: doc_def lease_document_def rest_def)
  have q: "quote \<notin> set owner" "owner \<noteq> ''generation''" "owner \<noteq> ''address''" "length owner < LEASE_OWNER_MAX + 1"
    using assms(1) by (auto simp: lease_owner_ok_def plain_string_def)
  have nul: "c_str doc = doc"
    by (rule c_str_id) (use assms in \<open>auto simp: doc rest_def json lease_owner_ok_def lease_address_ok_def plain_string_def\<close>)
  have names: "json_name ''generation''" "json_name ''owner''" "json_name ''address''" by (simp_all add: json_name_def)
  have owner: "parse_lease_string_field doc (length doc) (quoted ''owner'') (LEASE_OWNER_MAX + 1) = Some owner"
    by (rule parse_field_found [where pre = "''{''" and rest = "'','' @ ?gen @ rest"]) (use q in \<open>simp_all add: doc strstr_quoted\<close>)
  have gen: "strstr doc (quoted ''generation'') = Some (?gen @ rest)"
    using q by (simp add: doc strstr_quoted strstr_quoted_skip [OF names(1)])
  have num: "dropWhile (\<lambda>c. c = CHR '':'' \<or> lease_blank c) (drop (length (quoted ''generation'')) (?gen @ rest)) = dec (unat g) @ rest"
  proof -
    obtain c r where c: "dec (unat g) = c # r" by (cases "dec (unat g)") auto
    then have "isdigit c" using dec_digits [of "unat g"] by simp
    then have "\<not> (c = CHR '':'' \<or> lease_blank c)" by (auto simp: isdigit_def lease_blank_def)
    then show ?thesis by (simp add: json_u64_def quoted_def c)
  qed
  have rst: "rest \<noteq> [] \<and> hd rest \<in> {CHR ''}'', CHR '',''}" "\<not> isdigit (hd rest)" by (simp_all add: rest_def)
  have tail: "strtoull (dec (unat g) @ rest) = Some (g, rest, False)"
    using strtoull_dec [of "unat g" rest] rst unsigned_less [where ?'a = nat, of g] by (simp add: size_max_def)
  have blank: "dropWhile lease_blank rest = rest" using rst(1) by (cases rest) (auto simp: lease_blank_def)
  have addr: "(case parse_lease_string_field doc (length doc) (quoted ''address'') (LEASE_ADDRESS_MAX + 1) of None \<Rightarrow> [] | Some a \<Rightarrow> a) =
      (case address of None \<Rightarrow> [] | Some a \<Rightarrow> a)"
  proof -
    have skip: "strstr doc (quoted ''address'') = strstr rest (quoted ''address'')"
      using q by (simp add: doc strstr_quoted strstr_quoted_skip [OF names(3)] names)
    show ?thesis
    proof (cases "address \<noteq> None \<and> address \<noteq> Some []")
      case True
      then obtain a where a: "address = Some a" "a \<noteq> []" by auto
      have "parse_lease_string_field doc (length doc) (quoted ''address'') (LEASE_ADDRESS_MAX + 1) = Some a"
      proof (rule parse_field_found [where rest = "''}''" and pre = "''{'' @ json_str ''owner'' owner @ '','' @ ?gen @ '',''"])
        show "strstr doc (quoted ''address'') = Some (json_str ''address'' a @ ''}'')"
          unfolding skip by (simp add: rest_def a strstr_quoted)
        show "doc = (''{'' @ json_str ''owner'' owner @ '','' @ ?gen @ '','') @ json_str ''address'' a @ ''}''"
          by (simp add: doc rest_def a)
      qed (use assms(2) a in \<open>auto simp: lease_address_ok_def plain_string_def\<close>)
      then show ?thesis using a by simp
    next
      case False
      then have "strstr rest (quoted ''address'') = None" by (simp add: rest_def strstr_quoted)
      then have "parse_lease_string_field doc (length doc) (quoted ''address'') (LEASE_ADDRESS_MAX + 1) = None"
        by (simp add: parse_lease_string_field_def skip)
      then show ?thesis using False by (auto split: option.splits)
    qed
  qed
  have ne: "owner \<noteq> []" using assms(1) by (simp add: lease_owner_ok_def)
  have "?parse = parse_lease_json (bytes_of_string doc) (LEASE_OWNER_MAX + 1) (LEASE_ADDRESS_MAX + 1)" by (simp add: doc_def)
  also have "\<dots> = Some (owner, g, case address of None \<Rightarrow> [] | Some a \<Rightarrow> a)"
    unfolding parse_lease_json_def string_of_bytes_of_string nul
    using owner ne gen num tail blank rst(1) addr by (simp add: require_def)
  finally show ?thesis .
qed

lemma lease_document_length:
  assumes "lease_owner_ok owner" "lease_address_ok address"
  shows "encode_lease_json LEASE_JSON_MAX owner g address = Some (lease_document owner g address)"
proof -
  have "length (lease_document owner g address) \<le> 511"
    using assms length_dec_word(2) [of g]
    by (auto simp: lease_document_def json_str_def json_u64_def lease_owner_ok_def lease_address_ok_def LEASE_OWNER_MAX_def LEASE_ADDRESS_MAX_def)
  then show ?thesis by (simp add: encode_lease_json_def LEASE_JSON_MAX_def int_max_def)
qed

section \<open>What a claim does\<close>

text \<open>
  When an instance may become the holder, and the epoch it then has: the lease is free, its own, or proven
  to be expired.
\<close>

definition may_claim :: "store_object option \<Rightarrow> string \<Rightarrow> u64 \<Rightarrow> int \<Rightarrow> u64 \<Rightarrow> bool" where
  "may_claim current instance_id ttl_secs now epoch =
     (case current of
        None \<Rightarrow> epoch = 1
      | Some ob \<Rightarrow>
          (case parse_lease_json (so_data ob) (LEASE_OWNER_MAX + 1) (LEASE_ADDRESS_MAX + 1) of
             None \<Rightarrow> False
           | Some (owner, generation, _) \<Rightarrow>
               if owner = instance_id then epoch = generation
               else epoch = generation + 1 \<and> so_last_modified_secs ob > 0 \<and>
                 age_is_expired (max 0 (now - so_last_modified_secs ob)) ttl_secs))"

text \<open>The lease that a call has just written.\<close>

definition lease_written :: "(string \<rightharpoonup> store_object) \<Rightarrow> lease \<Rightarrow> string \<Rightarrow> u64 \<Rightarrow> string option \<Rightarrow> bool" where
  "lease_written contents l owner epoch address \<longleftrightarrow>
     (\<exists>json ob etag now lease0. encode_lease_json LEASE_JSON_MAX owner epoch address = Some json \<and>
        contents (ls_key l) = Some ob \<and> so_data ob = bytes_of_string json \<and>
        l = lease_set lease0 owner epoch address etag now \<and> (\<forall>e. etag = Some e \<longrightarrow> so_etag ob = Some e))"

lemma lease_set_fields [simp]: "ls_key (lease_set l o' g a e n) = ls_key l" "ls_ttl_secs (lease_set l o' g a e n) = ls_ttl_secs l"
  "ls_lost (lease_set l o' g a e n) = False" "ls_generation (lease_set l o' g a e n) = g" "ls_owner (lease_set l o' g a e n) = take LEASE_OWNER_MAX o'"
  "ls_etag (lease_set l o' g a e n) = take 127 (case e of None \<Rightarrow> [] | Some e \<Rightarrow> e)"
  by (simp_all add: lease_set_def)

context object_store_laws
begin

lemma claim_write_law:
  assumes "claim_write clock store lease instance_id g address options w = (step, w')" "valid w"
  shows "valid w' \<and> (\<forall>k. k \<noteq> ls_key lease \<longrightarrow> objs w' k = objs w k) \<and> (step = STEP_RETRY \<longrightarrow> objs w' = objs w) \<and>
    (\<forall>state. step = STEP_STOP state \<longrightarrow> state = LEASE_ERROR) \<and>
    (\<forall>l epoch. step = STEP_CLAIMED l epoch \<longrightarrow> epoch = g \<and> ls_key l = ls_key lease \<and> ls_ttl_secs l = ls_ttl_secs lease \<and>
       put_allowed options (objs w (ls_key lease)) \<and> lease_written (objs w') l instance_id g address)"
proof (cases "encode_lease_json LEASE_JSON_MAX instance_id g address")
  case None
  then show ?thesis using assms by (auto simp: claim_write_def)
next
  case (Some json)
  obtain rc etag w1 where put: "otsardb_store_put store w (ls_key lease) (bytes_of_string json) options = (rc, etag, w1)"
    by (cases "otsardb_store_put store w (ls_key lease) (bytes_of_string json) options")
  note law = put_law [OF put assms(2)]
  have res: "w' = w1" "step = (if rc = STORE_OK then STEP_CLAIMED (lease_set lease instance_id g address etag (clock w1)) g
      else if rc = STORE_PRECONDITION_FAILED then STEP_RETRY else STEP_STOP LEASE_ERROR)"
    using assms(1) Some put by (auto simp: claim_write_def split: if_splits)
  have "lease_written (objs w1) (lease_set lease instance_id g address etag (clock w1)) instance_id g address" if "rc = STORE_OK"
  proof -
    have st: "put_stored (objs w) (ls_key lease) (bytes_of_string json) (objs w1)" using law that by blast
    then obtain ob where new: "objs w1 = (objs w)(ls_key lease \<mapsto> ob)" and ob: "so_data ob = bytes_of_string json"
      unfolding put_stored_def by blast
    from new have at: "objs w1 (ls_key lease) = Some ob" by simp
    moreover have "\<forall>e. etag = Some e \<longrightarrow> so_etag ob = Some e" using law that at by auto
    moreover note ob
    ultimately show ?thesis unfolding lease_written_def lease_set_fields using Some by blast
  qed
  then show ?thesis using law res put_other [OF put assms(2)] by (auto split: if_splits)
qed

lemma claim_attempt_law:
  assumes "claim_attempt clock store lease instance_id address w = (step, seen, w')" "valid w"
  shows "valid w' \<and> (\<forall>k. k \<noteq> ls_key lease \<longrightarrow> objs w' k = objs w k) \<and> (step = STEP_RETRY \<or> step = STEP_STOP LEASE_HELD \<longrightarrow> objs w' = objs w) \<and>
    step \<noteq> STEP_STOP LEASE_CLAIMED \<and>
    (\<forall>l epoch. step = STEP_CLAIMED l epoch \<longrightarrow> ls_key l = ls_key lease \<and> ls_ttl_secs l = ls_ttl_secs lease \<and>
       (\<exists>w1. objs w1 = objs w \<and> may_claim (objs w (ls_key lease)) instance_id (ls_ttl_secs lease) (clock w1) epoch) \<and>
       lease_written (objs w') l instance_id epoch address)"
proof -
  obtain rc ob w1 where get: "otsardb_store_get store w (ls_key lease) = (rc, ob, w1)" by (cases "otsardb_store_get store w (ls_key lease)")
  note law1 = get_law [OF get assms(2)]
  show ?thesis
  proof (cases "rc = STORE_NOT_FOUND")
    case True
    then obtain w2 where "claim_write clock store lease instance_id 1 address (no_options\<lparr>po_if_none_match := True\<rparr>) w1 = (step, w2)" "w' = w2"
      using assms(1) get by (auto simp: claim_attempt_def split: prod.splits)
    then show ?thesis using claim_write_law [of clock lease instance_id 1 address _ w1 step w2] law1 True by (auto simp: may_claim_def)
  next
    case False
    show ?thesis
    proof (cases "rc = STORE_OK \<and> parse_lease_json (so_data ob) (LEASE_OWNER_MAX + 1) (LEASE_ADDRESS_MAX + 1) \<noteq> None")
      case bad: False
      then have "step = STEP_STOP LEASE_ERROR \<and> w' = w1"
        using assms(1) get False by (auto simp: claim_attempt_def split: option.splits if_splits)
      then show ?thesis using law1 by auto
    next
      case True
      then obtain owner g a where p: "parse_lease_json (so_data ob) (LEASE_OWNER_MAX + 1) (LEASE_ADDRESS_MAX + 1) = Some (owner, g, a)" by auto
      have ob: "objs w (ls_key lease) = Some ob" using law1 True by blast
      let ?expired = "so_last_modified_secs ob > 0 \<and> age_is_expired (max 0 (clock w1 - so_last_modified_secs ob)) (ls_ttl_secs lease)"
      have age: "(if so_last_modified_secs ob > 0 then
           (let age = clock w1 - so_last_modified_secs ob; age = (if age < 0 then 0 else age) in age_is_expired age (ls_ttl_secs lease))
         else False) = ?expired" by (simp add: Let_def max_def)
      show ?thesis
      proof (cases "owner \<noteq> instance_id \<and> \<not> ?expired")
        case held: True
        then have "step = STEP_STOP LEASE_HELD \<and> w' = w1"
          using assms(1) get True False p unfolding claim_attempt_def Let_def [of "Some (owner, a)"] by (auto simp: age Let_def max_def split: if_splits)
        then show ?thesis using law1 by auto
      next
        case free: False
        let ?g = "if owner = instance_id then g else g + 1"
        have "\<exists>w2. claim_write clock store lease instance_id ?g address (no_options\<lparr>po_if_match_etag := so_etag ob\<rparr>) w1 = (step, w2) \<and> w' = w2"
          using assms(1) get True False p free unfolding claim_attempt_def Let_def [of "Some (owner, a)"]
          by (auto simp: Let_def max_def split: prod.splits if_splits)
        then obtain w2 where cw: "claim_write clock store lease instance_id ?g address (no_options\<lparr>po_if_match_etag := so_etag ob\<rparr>) w1 = (step, w2)" "w' = w2"
          by blast
        note law2 = claim_write_law [OF cw(1) conjunct1 [OF law1]]
        have same: "objs w1 = objs w" using law1 by blast
        have mc: "may_claim (objs w (ls_key lease)) instance_id (ls_ttl_secs lease) (clock w1) ?g"
          using free unfolding may_claim_def ob option.case p prod.case by presburger
        show ?thesis
          unfolding cw(2)
          by (intro conjI allI impI) (use law2 mc same in \<open>auto intro: exI [of _ w1]\<close>)
      qed
    qed
  qed
qed

lemma claim_loop_law:
  assumes "claim_loop n clock store lease instance_id address hc ac r w = (r', w')" "valid w" "cr_state r = LEASE_HELD" "cr_lease r = None"
  shows "valid w' \<and> (\<forall>k. k \<noteq> ls_key lease \<longrightarrow> objs w' k = objs w k) \<and> (cr_state r' = LEASE_CLAIMED \<longleftrightarrow> cr_lease r' \<noteq> None) \<and>
    (cr_state r' = LEASE_HELD \<longrightarrow> objs w' = objs w) \<and>
    (\<forall>l. cr_lease r' = Some l \<longrightarrow> ls_key l = ls_key lease \<and> ls_ttl_secs l = ls_ttl_secs lease \<and>
       (\<exists>w1. objs w1 = objs w \<and> may_claim (objs w (ls_key lease)) instance_id (ls_ttl_secs lease) (clock w1) (cr_epoch r')) \<and>
       lease_written (objs w') l instance_id (cr_epoch r') address)"
  using assms
proof (induction n arbitrary: r w)
  case 0
  then show ?case by auto
next
  case (Suc n)
  obtain step seen w1 where at: "claim_attempt clock store lease instance_id address w = (step, seen, w1)"
    by (cases "claim_attempt clock store lease instance_id address w")
  note law = claim_attempt_law [OF at Suc.prems(2)]
  define r1 where "r1 = (case seen of None \<Rightarrow> r | Some (h, a) \<Rightarrow> r\<lparr>cr_holder := take (hc - 1) h, cr_address := take (ac - 1) a\<rparr>)"
  have r1: "cr_state r1 = LEASE_HELD" "cr_lease r1 = None" using Suc.prems(3,4) by (auto simp: r1_def split: option.splits)
  show ?case
  proof (cases step)
    case (STEP_CLAIMED l e)
    then have "r' = r1\<lparr>cr_state := LEASE_CLAIMED, cr_lease := Some l, cr_epoch := e\<rparr>" "w' = w1"
      using Suc.prems(1) at by (auto simp: r1_def Let_def)
    then show ?thesis using law STEP_CLAIMED by auto
  next
    case STEP_RETRY
    then have loop: "claim_loop n clock store lease instance_id address hc ac r1 w1 = (r', w')" using Suc.prems(1) at by (simp add: r1_def Let_def)
    have same: "objs w1 = objs w" using law STEP_RETRY by blast
    show ?thesis by (rule Suc.IH [OF loop conjunct1 [OF law] r1, unfolded same])
  next
    case (STEP_STOP state)
    then have "r' = r1\<lparr>cr_state := state\<rparr>" "w' = w1" using Suc.prems(1) at by (auto simp: r1_def Let_def)
    then show ?thesis using law STEP_STOP r1 by auto
  qed
qed

lemma lease_claim_law:
  assumes "otsardb_lease_claim clock store root instance_id address ttl_secs hc ac w = (r, w')" "valid w"
  shows "valid w' \<and> (\<forall>k. k \<noteq> lease_key root \<longrightarrow> objs w' k = objs w k) \<and> (cr_state r = LEASE_CLAIMED \<longleftrightarrow> cr_lease r \<noteq> None) \<and>
    (cr_state r = LEASE_HELD \<longrightarrow> objs w' = objs w) \<and>
    (\<forall>l. cr_lease r = Some l \<longrightarrow> ls_key l = lease_key root \<and>
       (\<exists>w1. objs w1 = objs w \<and> may_claim (objs w (lease_key root)) instance_id (ls_ttl_secs l) (clock w1) (cr_epoch r)) \<and>
       lease_written (objs w') l instance_id (cr_epoch r) address)"
proof (cases "root = [] \<or> instance_id = [] \<or> length root \<ge> LEASE_KEY_MAX \<or> strchr instance_id quote \<noteq> None \<or>
    strchr instance_id (CHR 0x5C) \<noteq> None \<or> \<not> lease_address_valid address")
  case True
  then have "r = \<lparr>cr_state = LEASE_ERROR, cr_lease = None, cr_epoch = 0, cr_holder = [], cr_address = []\<rparr> \<and> w' = w"
    using assms(1) by (auto simp: otsardb_lease_claim_def Let_def split: if_splits)
  then show ?thesis using assms(2) by simp
next
  case False
  then show ?thesis
    using assms(1) claim_loop_law [OF _ assms(2), of 3 clock _ instance_id address hc ac _ r w']
    by (fastforce simp: otsardb_lease_claim_def Let_def)
qed

end

section \<open>Several instances\<close>

text \<open>An etag stands for one content of the lease, is not empty and fits the buffer.\<close>

definition lease_versioned :: "(string \<Rightarrow> bytes) \<Rightarrow> string \<Rightarrow> (string \<rightharpoonup> store_object) \<Rightarrow> bool" where
  "lease_versioned content root contents \<longleftrightarrow>
     (\<forall>ob. contents (lease_key root) = Some ob \<longrightarrow>
        (\<exists>e. so_etag ob = Some e \<and> e \<noteq> [] \<and> length e \<le> 127 \<and> so_data ob = content e))"

text \<open>
  The instances claim, renew and release in any order; in between the clock moves, other objects change, and
  the lease may be deleted.
\<close>

inductive lease_run ::
  "'w object_store \<Rightarrow> ('w \<Rightarrow> string \<rightharpoonup> store_object) \<Rightarrow> ('w \<Rightarrow> bool) \<Rightarrow> ('w \<Rightarrow> int) \<Rightarrow> (string \<Rightarrow> bytes) \<Rightarrow> string \<Rightarrow> 'w \<Rightarrow>
   (string \<rightharpoonup> lease) \<Rightarrow> bool"
  for store objs valid clock content root where
  lease_start: "valid w \<Longrightarrow> lease_versioned content root (objs w) \<Longrightarrow> lease_run store objs valid clock content root w Map.empty"
| lease_other: "\<lbrakk>lease_run store objs valid clock content root w ls; valid w';
     objs w' (lease_key root) = objs w (lease_key root) \<or> objs w' (lease_key root) = None\<rbrakk> \<Longrightarrow>
   lease_run store objs valid clock content root w' ls"
| lease_claims: "\<lbrakk>lease_run store objs valid clock content root w ls; lease_owner_ok i; lease_address_ok address;
     otsardb_lease_claim clock store root i address ttl_secs hc ac w = (r, w'); lease_versioned content root (objs w')\<rbrakk> \<Longrightarrow>
   lease_run store objs valid clock content root w' (case cr_lease r of None \<Rightarrow> ls | Some l \<Rightarrow> ls(i \<mapsto> l))"
| lease_renews: "\<lbrakk>lease_run store objs valid clock content root w ls; ls i = Some l;
     otsardb_lease_renew clock store l w = (r, l', w'); lease_versioned content root (objs w')\<rbrakk> \<Longrightarrow>
   lease_run store objs valid clock content root w' (ls(i \<mapsto> l'))"
| lease_releases: "\<lbrakk>lease_run store objs valid clock content root w ls; ls i = Some l;
     otsardb_lease_release clock store l w = (l', w'); lease_versioned content root (objs w')\<rbrakk> \<Longrightarrow>
   lease_run store objs valid clock content root w' (ls(i \<mapsto> l'))"

text \<open>The lease of an instance is the one in the store.\<close>

definition lease_current :: "(string \<rightharpoonup> store_object) \<Rightarrow> lease \<Rightarrow> bool" where
  "lease_current contents l \<longleftrightarrow> (\<exists>ob. contents (ls_key l) = Some ob \<and> so_etag ob = Some (ls_etag l))"

text \<open>What an instance knows of its lease.\<close>

definition lease_known :: "(string \<Rightarrow> bytes) \<Rightarrow> string \<Rightarrow> string \<Rightarrow> lease \<Rightarrow> bool" where
  "lease_known content root i l \<longleftrightarrow>
     lease_owner_ok i \<and> ls_key l = lease_key root \<and> ls_owner l = i \<and> lease_address_ok (Some (ls_address l)) \<and>
     (ls_etag l = [] \<or>
      (\<exists>a. lease_address_ok a \<and> content (ls_etag l) = bytes_of_string (lease_document i (ls_generation l) a)))"

lemma lease_known_lost [simp]: "lease_known content root i (l\<lparr>ls_lost := b\<rparr>) = lease_known content root i l"
  by (simp add: lease_known_def)

lemma lease_written_known:
  assumes "lease_written contents l i g address" "lease_owner_ok i" "lease_address_ok address" "ls_key l = lease_key root"
    "lease_versioned content root contents"
  shows "lease_known content root i l"
proof -
  obtain json ob etag now lease0 where w: "encode_lease_json LEASE_JSON_MAX i g address = Some json" "contents (lease_key root) = Some ob"
    "so_data ob = bytes_of_string json" "l = lease_set lease0 i g address etag now" "\<forall>e. etag = Some e \<longrightarrow> so_etag ob = Some e"
    using assms(1,4) by (auto simp: lease_written_def)
  obtain e where e: "so_etag ob = Some e" "e \<noteq> []" "length e \<le> 127" "so_data ob = content e"
    using assms(5) w(2) by (auto simp: lease_versioned_def)
  have json: "json = lease_document i g address" using w(1) lease_document_length [OF assms(2,3)] by simp
  have "ls_owner l = i" using assms(2) by (simp add: w(4) lease_owner_ok_def)
  moreover have "lease_address_ok (Some (ls_address l))"
    using assms(3) by (auto simp: w(4) lease_set_def lease_address_ok_def plain_string_def split: option.splits dest: in_set_takeD)
  moreover have "ls_etag l = [] \<or> content (ls_etag l) = bytes_of_string (lease_document i (ls_generation l) address)"
    using w(3-5) e json by (cases etag) auto
  ultimately show ?thesis using assms by (auto simp: lease_known_def)
qed

context object_store_laws
begin

lemma renew_law:
  assumes "otsardb_lease_renew clock store l w = (r, l', w')" "valid w" "lease_known content root i l" "lease_versioned content root (objs w')"
  shows "valid w' \<and> lease_known content root i l' \<and> (r = RENEWED \<longrightarrow> lease_current (objs w) l)"
proof (cases "ls_lost l")
  case True
  then show ?thesis using assms by (auto simp: otsardb_lease_renew_def)
next
  case False
  have known: "lease_owner_ok i" "ls_owner l = i" "lease_address_ok (Some (ls_address l))" "ls_key l = lease_key root"
    using assms(3) by (auto simp: lease_known_def)
  let ?doc = "lease_document i (ls_generation l) (Some (ls_address l))"
  obtain rc etag w1 where put: "otsardb_store_put store w (lease_key root) (bytes_of_string ?doc) (no_options\<lparr>po_if_match_etag := Some (ls_etag l)\<rparr>) = (rc, etag, w1)"
    by (cases "otsardb_store_put store w (lease_key root) (bytes_of_string ?doc) (no_options\<lparr>po_if_match_etag := Some (ls_etag l)\<rparr>)")
  note law = put_law [OF put assms(2)]
  have res: "w' = w1" "(r, l') = renew_commit rc etag (clock w1) l"
    using assms(1) False put lease_document_length [OF known(1,3)] known by (auto simp: otsardb_lease_renew_def split: prod.splits)
  show ?thesis
  proof (cases "rc = STORE_OK")
    case ok: True
    then have l': "r = RENEWED" "l' = l\<lparr>ls_etag := take 127 (case etag of None \<Rightarrow> [] | Some e \<Rightarrow> e), ls_claimed_at := clock w1\<rparr>"
      using res False by (auto simp: renew_commit_def)
    have "put_allowed (no_options\<lparr>po_if_match_etag := Some (ls_etag l)\<rparr>) (objs w (lease_key root))" using law ok by blast
    then have current: "lease_current (objs w) l" using known by (auto simp: lease_current_def put_allowed_def)
    obtain ob where ob: "objs w1 (lease_key root) = Some ob" "so_data ob = bytes_of_string ?doc"
    proof -
      have "put_stored (objs w) (lease_key root) (bytes_of_string ?doc) (objs w1)" using law ok by blast
      then show thesis using that by (auto simp: put_stored_def)
    qed
    obtain e where e: "so_etag ob = Some e" "length e \<le> 127" "so_data ob = content e"
      using assms(4) ob(1) res by (auto simp: lease_versioned_def)
    have "\<forall>x. etag = Some x \<longrightarrow> x = e" using law ok ob(1) e(1) by auto
    then have "lease_known content root i l'"
      using known e ob(2) l'(2) by (cases etag) (auto simp: lease_known_def intro!: exI [of _ "Some (ls_address l)"])
    then show ?thesis using current law res by simp
  next
    case no: False
    then have "r \<noteq> RENEWED" "l' = l \<or> l' = l\<lparr>ls_lost := True\<rparr>" using res by (auto simp: renew_commit_def split: if_splits)
    then show ?thesis using assms(3) law res by auto
  qed
qed

lemma lease_run_known:
  assumes "lease_run store objs valid clock content root w ls"
  shows "valid w \<and> lease_versioned content root (objs w) \<and> (\<forall>i l. ls i = Some l \<longrightarrow> lease_known content root i l)"
  using assms
proof induction
  case (lease_other w ls w')
  then show ?case by (auto simp: lease_versioned_def)
next
  case (lease_claims w ls i address ttl_secs hc ac r w')
  then have law: "valid w' \<and> (\<forall>l. cr_lease r = Some l \<longrightarrow> ls_key l = lease_key root \<and> lease_written (objs w') l i (cr_epoch r) address)"
    using lease_claim_law [OF lease_claims.hyps(4)] by blast
  have "lease_known content root i l" if "cr_lease r = Some l" for l
    using lease_written_known [of "objs w'" l i "cr_epoch r" address root content] law lease_claims.hyps that by blast
  then show ?case using law lease_claims by (auto split: option.splits)
next
  case (lease_renews w ls i l r l' w')
  then show ?case using renew_law [OF lease_renews.hyps(3) _ _ lease_renews.hyps(4)] by auto
next
  case (lease_releases w ls i l l' w')
  have "valid w' \<and> (l' = l \<or> l' = l\<lparr>ls_lost := True\<rparr>)"
    using lease_releases delete_law by (auto simp: otsardb_lease_release_def split: prod.splits if_splits)
  then show ?case using lease_releases by auto
qed simp

lemma lease_current_unique:
  assumes "lease_run store objs valid clock content root w ls" "ls i = Some l" "ls j = Some l'"
    "lease_current (objs w) l" "lease_current (objs w) l'"
  shows "i = j \<and> ls_generation l = ls_generation l'"
proof -
  note known = lease_run_known [OF assms(1)]
  have k: "lease_known content root i l" "lease_known content root j l'" using known assms(2,3) by auto
  obtain ob where ob: "objs w (lease_key root) = Some ob" "so_etag ob = Some (ls_etag l)" "so_etag ob = Some (ls_etag l')"
    using assms(4,5) k by (auto simp: lease_current_def lease_known_def)
  then have e: "ls_etag l = ls_etag l'" "ls_etag l \<noteq> []" using known by (auto simp: lease_versioned_def)
  obtain a where a: "lease_address_ok a" "content (ls_etag l) = bytes_of_string (lease_document i (ls_generation l) a)"
    using k(1) e(2) by (auto simp: lease_known_def)
  obtain b where b: "lease_address_ok b" "content (ls_etag l) = bytes_of_string (lease_document j (ls_generation l') b)"
    using k(2) e by (auto simp: lease_known_def)
  have "lease_owner_ok i" "lease_owner_ok j" using k by (auto simp: lease_known_def)
  then show ?thesis
    using lease_document_parse [of i a "ls_generation l"] lease_document_parse [of j b "ls_generation l'"] a b by simp
qed

end

context object_store_laws
begin

lemma renew_current:
  assumes "otsardb_lease_renew clock store l w = (RENEWED, l', w')" "valid w"
  shows "lease_current (objs w) l"
proof -
  obtain json rc etag w1 where put: "otsardb_store_put store w (ls_key l) (bytes_of_string json) (no_options\<lparr>po_if_match_etag := Some (ls_etag l)\<rparr>) = (rc, etag, w1)"
    "fst (renew_commit rc etag (clock w1) l) = RENEWED"
    using assms(1) by (auto simp: otsardb_lease_renew_def split: if_splits option.splits prod.splits)
  then have "rc = STORE_OK" by (auto simp: renew_commit_def split: if_splits)
  then show ?thesis using put_law [OF put(1) assms(2)] by (auto simp: lease_current_def put_allowed_def)
qed

end

section \<open>A takeover\<close>

text \<open>One instance claims a lease, and another one takes it over when it has expired.\<close>

definition takeover_entry :: "string \<Rightarrow> u64 \<Rightarrow> int \<Rightarrow> memory_entry" where
  "takeover_entry i g t =
     \<lparr>me_key = ''db/lease.json'', me_data = bytes_of_string (lease_document i g None), me_version = g, me_last_modified = t\<rparr>"

definition takeover_memory :: "memory_entry list \<Rightarrow> u64 \<Rightarrow> int \<Rightarrow> memory_store" where
  "takeover_memory es version t = \<lparr>ms_entries = es, ms_next_version = version, ms_supported = memory_capabilities, ms_clock = t\<rparr>"

definition takeover_lease :: "string \<Rightarrow> u64 \<Rightarrow> int \<Rightarrow> lease" where
  "takeover_lease i g t = \<lparr>ls_key = ''db/lease.json'', ls_owner = i, ls_address = [], ls_generation = g, ls_etag = make_etag g,
     ls_ttl_secs = 30, ls_claimed_at = t, ls_lost = False\<rparr>"

lemma takeover_claims:
  "otsardb_lease_claim ms_clock (memory_object_store memory_capabilities) ''db'' ''a'' None 0 64 256 (takeover_memory [] 0 100) =
     (\<lparr>cr_state = LEASE_CLAIMED, cr_lease = Some (takeover_lease ''a'' 1 100), cr_epoch = 1, cr_holder = [], cr_address = []\<rparr>,
      takeover_memory [takeover_entry ''a'' 1 100] 1 100)"
  "otsardb_lease_claim ms_clock (memory_object_store memory_capabilities) ''db'' ''b'' None 0 64 256 (takeover_memory [takeover_entry ''a'' 1 100] 1 200) =
     (\<lparr>cr_state = LEASE_CLAIMED, cr_lease = Some (takeover_lease ''b'' 2 200), cr_epoch = 2, cr_holder = ''a'', cr_address = []\<rparr>,
      takeover_memory [takeover_entry ''b'' 2 200] 2 200)"
proof -
  have ok: "lease_owner_ok ''a''" "lease_owner_ok ''b''" "lease_address_ok None"
    by (simp_all add: lease_owner_ok_def lease_address_ok_def plain_string_def LEASE_OWNER_MAX_def)
  have doc: "encode_lease_json LEASE_JSON_MAX ''a'' 1 None = Some (lease_document ''a'' 1 None)"
    "encode_lease_json LEASE_JSON_MAX ''b'' 2 None = Some (lease_document ''b'' 2 None)" using lease_document_length ok by auto
  have parse: "parse_lease_json (bytes_of_string (lease_document ''a'' 1 None)) (Suc LEASE_OWNER_MAX) (Suc LEASE_ADDRESS_MAX) = Some (''a'', 1, [])"
    using lease_document_parse [of "''a''" None 1] ok by simp
  have len: "length (make_etag 1) \<le> 127" "length (make_etag 2) \<le> 127"
    using length_dec_le [of 1 19] length_dec_le [of 2 19] by (simp_all add: make_etag_def)
  let ?store = "memory_object_store memory_capabilities"
  define l0 where "l0 = \<lparr>ls_key = ''db/lease.json'', ls_owner = [], ls_address = [], ls_generation = 0, ls_etag = [],
      ls_ttl_secs = 30, ls_claimed_at = 0, ls_lost = False\<rparr>"
  have start: "otsardb_lease_claim ms_clock ?store ''db'' i None 0 64 256 w = claim_loop (Suc 2) ms_clock ?store l0 i None 64 256
      \<lparr>cr_state = LEASE_HELD, cr_lease = None, cr_epoch = 0, cr_holder = [], cr_address = []\<rparr> w" if "i = ''a'' \<or> i = ''b''" for i w
    using that by (auto simp: otsardb_lease_claim_def LEASE_KEY_MAX_def lease_address_valid_def LEASE_TTL_DEFAULT_SECS_def lease_key_def l0_def
        Let_def numeral_3_eq_3 numeral_2_eq_2)
  have set: "lease_set l0 i g None (Some (make_etag g)) t = takeover_lease i g t" if "i = ''a'' \<or> i = ''b''" "g = 1 \<or> g = 2" for i g t
    using that len by (auto simp: lease_set_def l0_def takeover_lease_def LEASE_OWNER_MAX_def)
  have get: "otsardb_store_get ?store (takeover_memory [] v t) ''db/lease.json'' = (STORE_NOT_FOUND, empty_object, takeover_memory [] v t)"
    "otsardb_store_get ?store (takeover_memory [takeover_entry i g s] v t) ''db/lease.json'' =
       (STORE_OK, \<lparr>so_data = bytes_of_string (lease_document i g None), so_etag = Some (make_etag g), so_last_modified_secs = s\<rparr>,
        takeover_memory [takeover_entry i g s] v t)" for i g s v t
    by (simp_all add: memory_eval takeover_memory_def takeover_entry_def)
  have put: "otsardb_store_put ?store (takeover_memory [] 0 t) ''db/lease.json'' (bytes_of_string (lease_document ''a'' 1 None)) (no_options\<lparr>po_if_none_match := True\<rparr>) =
       (STORE_OK, Some (make_etag 1), takeover_memory [takeover_entry ''a'' 1 t] 1 t)"
    "otsardb_store_put ?store (takeover_memory [takeover_entry ''a'' 1 s] 1 t) ''db/lease.json'' (bytes_of_string (lease_document ''b'' 2 None))
         (no_options\<lparr>po_if_match_etag := Some (make_etag 1)\<rparr>) =
       (STORE_OK, Some (make_etag 2), takeover_memory [takeover_entry ''b'' 2 t] 2 t)" for s t
    by (simp_all add: memory_eval takeover_memory_def takeover_entry_def Let_def)
  have key: "ls_key l0 = ''db/lease.json''" "ls_ttl_secs l0 = 30" by (simp_all add: l0_def)
  have clock: "ms_clock (takeover_memory es v t) = t" for es v t by (simp add: takeover_memory_def)
  have "claim_attempt ms_clock ?store l0 ''a'' None (takeover_memory [] 0 100) =
      (STEP_CLAIMED (takeover_lease ''a'' 1 100) 1, None, takeover_memory [takeover_entry ''a'' 1 100] 1 100)"
    by (simp add: claim_attempt_def key get claim_write_def doc put set clock)
  then show "otsardb_lease_claim ms_clock ?store ''db'' ''a'' None 0 64 256 (takeover_memory [] 0 100) =
     (\<lparr>cr_state = LEASE_CLAIMED, cr_lease = Some (takeover_lease ''a'' 1 100), cr_epoch = 1, cr_holder = [], cr_address = []\<rparr>,
      takeover_memory [takeover_entry ''a'' 1 100] 1 100)"
    by (simp add: start numeral_3_eq_3 numeral_2_eq_2)
  have "claim_attempt ms_clock ?store l0 ''b'' None (takeover_memory [takeover_entry ''a'' 1 100] 1 200) =
      (STEP_CLAIMED (takeover_lease ''b'' 2 200) 2, Some (''a'', []), takeover_memory [takeover_entry ''b'' 2 200] 2 200)"
    by (simp add: claim_attempt_def key get claim_write_def doc put set clock parse Let_def age_is_expired_def LEASE_SKEW_MARGIN_SECS_def)
  then show "otsardb_lease_claim ms_clock ?store ''db'' ''b'' None 0 64 256 (takeover_memory [takeover_entry ''a'' 1 100] 1 200) =
     (\<lparr>cr_state = LEASE_CLAIMED, cr_lease = Some (takeover_lease ''b'' 2 200), cr_epoch = 2, cr_holder = ''a'', cr_address = []\<rparr>,
      takeover_memory [takeover_entry ''b'' 2 200] 2 200)"
    by (simp add: start numeral_3_eq_3 numeral_2_eq_2)
qed

section \<open>Properties\<close>

text \<open>
  (C13) A claim of the writer lease, whatever calls of the store fail: nothing but the lease object changes; a
  refused claim changes nothing at all; and a lease is handed out exactly when the call reports it as
  claimed.  Then the lease was free, belonged to the claimant already (its epoch is kept), or the
  store's time of its last change proved that it had expired (the epoch is the next one); and the store now
  holds the claimant's document under the etag that the lease remembers.
\<close>

theorem lease_claim_sound:
  assumes "object_store_laws store objs valid" "valid w"
    "otsardb_lease_claim clock store root instance_id address ttl_secs holder_cap address_cap w = (r, w')"
  shows "(\<forall>k. k \<noteq> lease_key root \<longrightarrow> objs w' k = objs w k) \<and> (cr_state r = LEASE_CLAIMED \<longleftrightarrow> cr_lease r \<noteq> None) \<and>
    (cr_state r = LEASE_HELD \<longrightarrow> objs w' = objs w) \<and>
    (\<forall>l. cr_lease r = Some l \<longrightarrow>
       (\<exists>w1. objs w1 = objs w \<and> may_claim (objs w (lease_key root)) instance_id (ls_ttl_secs l) (clock w1) (cr_epoch r)) \<and>
       ls_key l = lease_key root \<and> lease_written (objs w') l instance_id (cr_epoch r) address)"
  using object_store_laws.lease_claim_law [OF assms(1,3,2)] by blast

theorem lease_claim_sound_witness:
  "memory_objs (takeover_memory [takeover_entry ''b'' 2 200] 2 200) ''db/HEAD.json'' =
     memory_objs (takeover_memory [takeover_entry ''a'' 1 100] 1 200) ''db/HEAD.json'' \<and>
   lease_written (memory_objs (takeover_memory [takeover_entry ''b'' 2 200] 2 200)) (takeover_lease ''b'' 2 200) ''b'' 2 None"
proof -
  have v: "memory_valid (takeover_memory [takeover_entry ''a'' 1 100] 1 200)" by (simp add: memory_valid_def takeover_memory_def)
  show ?thesis
    using lease_claim_sound [OF mem.object_store_laws_axioms v takeover_claims(2)] by (simp add: lease_key_def LEASE_KEY_MAX_def)
qed



end
