(* ===== verification/S3_Target.thy ===== *)
theory S3_Target
  imports Commit_Publish
begin

text \<open>
  The logical target of a database, \<open>src/storage/s3_target.c\<close>: a URI is split into a bucket and a root, and
  the identity of the database is derived from the two.
\<close>

section \<open>Operations\<close>

definition S3_BUCKET_MAX :: nat where "S3_BUCKET_MAX = 255"

record s3_target =
  tg_bucket :: string
  tg_database_root :: string

definition has_forbidden_uri_suffix :: "string \<Rightarrow> bool" where
  "has_forbidden_uri_suffix s = list_ex (\<lambda>c. c = CHR ''?'' \<or> c = CHR ''#'') s"

text \<open>The part behind the scheme.\<close>

definition target_cursor :: "string \<Rightarrow> string option" where
  "target_cursor s =
     (if prefix ''s3://'' s then Some (drop 5 s)
      else if prefix ''otsardb+s3://'' s then Some (drop 13 s)
      else None)"

definition is_slash :: "char \<Rightarrow> bool" where
  "is_slash c \<longleftrightarrow> c = CHR ''/''"

text \<open>Slashes at both ends of the root are dropped.\<close>

definition trim_root :: "string \<Rightarrow> string" where
  "trim_root s = rev (dropWhile is_slash (rev (dropWhile is_slash s)))"

definition otsardb_s3_target_parse :: "string \<Rightarrow> s3_target option" where
  "otsardb_s3_target_parse s =
     do { cursor \<leftarrow> target_cursor s;
          slash \<leftarrow> strchr cursor (CHR ''/'');
          let bucket_size = length cursor - length slash;
          let bucket = take bucket_size cursor;
          require (\<not> (bucket_size = 0 \<or> bucket_size > S3_BUCKET_MAX \<or> has_forbidden_uri_suffix bucket));
          let root = trim_root (tl slash);
          require (\<not> (root = [] \<or> length root > KEY_MAX \<or> has_forbidden_uri_suffix root));
          Some \<lparr>tg_bucket = bucket, tg_database_root = root\<rparr> }"

definition target_identity :: "s3_target \<Rightarrow> string" where
  "target_identity t = ''s3://'' @ tg_bucket t @ ''/'' @ tg_database_root t"

definition otsardb_s3_target_database_id :: "(bytes \<Rightarrow> bytes) \<Rightarrow> s3_target \<Rightarrow> string option" where
  "otsardb_s3_target_database_id sha t =
     (if tg_bucket t = [] \<or> tg_database_root t = [] then None
      else if length (tg_bucket t) > S3_BUCKET_MAX \<or> length (tg_database_root t) > KEY_MAX then None
      else if COMMIT_ID_MAX < 51 then None
      else Some (''db-'' @ take 48 (otsardb_sha256_hex_data sha (bytes_of_string (target_identity t)))))"

section \<open>Normal form\<close>

definition target_wf :: "s3_target \<Rightarrow> bool" where
  "target_wf t \<longleftrightarrow>
     tg_bucket t \<noteq> [] \<and> length (tg_bucket t) \<le> S3_BUCKET_MAX \<and> CHR ''/'' \<notin> set (tg_bucket t) \<and> \<not> has_forbidden_uri_suffix (tg_bucket t) \<and>
     tg_database_root t \<noteq> [] \<and> length (tg_database_root t) \<le> KEY_MAX \<and> hd (tg_database_root t) \<noteq> CHR ''/'' \<and>
     last (tg_database_root t) \<noteq> CHR ''/'' \<and> \<not> has_forbidden_uri_suffix (tg_database_root t)"

lemma strchr_split: "strchr s c = Some r \<Longrightarrow> \<exists>u v. s = u @ c # v \<and> r = c # v \<and> c \<notin> set u"
proof (induction s)
  case (Cons x s)
  show ?case
  proof (cases "x = c")
    case True
    then show ?thesis using Cons.prems by (intro exI [of _ "[]"] exI [of _ s]) simp
  next
    case False
    then obtain u v where "s = u @ c # v" "r = c # v" "c \<notin> set u" using Cons by auto
    then show ?thesis using False by (intro exI [of _ "x # u"] exI [of _ v]) auto
  qed
qed simp

lemma trim_root_ends:
  assumes "trim_root s \<noteq> []"
  shows "hd (trim_root s) \<noteq> CHR ''/''" "last (trim_root s) \<noteq> CHR ''/''"
proof -
  let ?a = "dropWhile is_slash s"
  have ne: "dropWhile is_slash (rev ?a) \<noteq> []" using assms by (simp add: trim_root_def)
  then have "\<not> is_slash (hd (dropWhile is_slash (rev ?a)))" by (rule hd_dropWhile)
  then show "last (trim_root s) \<noteq> CHR ''/''" using ne by (simp add: trim_root_def last_rev is_slash_def)
  have "?a \<noteq> []" using ne by (metis dropWhile.simps(1) rev.simps(1))
  then have h: "\<not> is_slash (hd ?a)" by (rule hd_dropWhile)
  obtain z where z: "rev ?a = z @ dropWhile is_slash (rev ?a)" by (metis takeWhile_dropWhile_id)
  then have "?a = rev (dropWhile is_slash (rev ?a)) @ rev z" by (metis rev_append rev_rev_ident)
  then have "hd ?a = hd (trim_root s)" using ne by (metis hd_append2 rev_is_Nil_conv trim_root_def)
  then show "hd (trim_root s) \<noteq> CHR ''/''" using h by (auto simp: is_slash_def)
qed

lemma trim_root_id: "hd r \<noteq> CHR ''/'' \<Longrightarrow> last r \<noteq> CHR ''/'' \<Longrightarrow> trim_root r = r"
proof -
  assume h: "hd r \<noteq> CHR ''/''" "last r \<noteq> CHR ''/''"
  have d: "dropWhile is_slash xs = xs" if "hd xs \<noteq> CHR ''/''" for xs using that by (cases xs) (auto simp: is_slash_def)
  show ?thesis
  proof (cases "r = []")
    case False
    then have "hd (rev r) \<noteq> CHR ''/''" using h(2) by (simp add: hd_rev)
    then show ?thesis using d [OF h(1)] d [of "rev r"] by (simp add: trim_root_def)
  qed (simp add: trim_root_def)
qed

lemma target_parse_wf:
  assumes "otsardb_s3_target_parse s = Some t"
  shows "target_wf t"
proof -
  obtain cursor slash where c: "strchr cursor (CHR ''/'') = Some slash"
    "tg_bucket t = take (length cursor - length slash) cursor" "tg_database_root t = trim_root (tl slash)"
    "length cursor - length slash \<noteq> 0" "length cursor - length slash \<le> S3_BUCKET_MAX" "\<not> has_forbidden_uri_suffix (tg_bucket t)"
    "tg_database_root t \<noteq> []" "length (tg_database_root t) \<le> KEY_MAX" "\<not> has_forbidden_uri_suffix (tg_database_root t)"
    using assms by (auto simp: otsardb_s3_target_parse_def bind_eq_Some_conv require_Some Let_def not_less)
  obtain u v where u: "cursor = u @ CHR ''/'' # v" "slash = CHR ''/'' # v" "CHR ''/'' \<notin> set u" using strchr_split [OF c(1)] by blast
  then show ?thesis using c trim_root_ends [of "tl slash"] by (auto simp: target_wf_def)
qed

lemma target_parse_print:
  assumes "target_wf t" "pre = ''s3://'' \<or> pre = ''otsardb+s3://''"
  shows "otsardb_s3_target_parse (pre @ tg_bucket t @ ''/'' @ tg_database_root t) = Some t"
proof -
  have cur: "target_cursor (pre @ tg_bucket t @ ''/'' @ tg_database_root t) = Some (tg_bucket t @ ''/'' @ tg_database_root t)"
    using assms(2) by (auto simp: target_cursor_def)
  have sl: "strchr (tg_bucket t @ ''/'' @ tg_database_root t) (CHR ''/'') = Some (''/'' @ tg_database_root t)"
    using assms(1) by (simp add: target_wf_def strchr_hit)
  have "trim_root (tg_database_root t) = tg_database_root t" using assms(1) by (intro trim_root_id) (auto simp: target_wf_def)
  then show ?thesis using assms(1) cur sl by (simp add: otsardb_s3_target_parse_def target_wf_def require_def)
qed

section \<open>Properties\<close>

text \<open>
  (C39) Parsing a target gives a normal form: the bucket is not empty and has no slash, the root does not begin or end
  with one, neither has a query or a fragment, and both fit their buffers.  Printed with either of the schemes the
  target is parsed to itself, and its identity, the same for both schemes, fits the identifier of a database.
\<close>

theorem s3_target_normal_form:
  assumes "otsardb_s3_target_parse s = Some t" "\<forall>x. length (sha x) = 32"
  shows "target_wf t \<and> otsardb_s3_target_parse (target_identity t) = Some t \<and>
    otsardb_s3_target_parse (''otsardb+'' @ target_identity t) = Some t \<and>
    (\<exists>d. otsardb_s3_target_database_id sha t = Some d \<and> length d = 51 \<and> length d \<le> COMMIT_ID_MAX)"
proof -
  have wf: "target_wf t" by (rule target_parse_wf [OF assms(1)])
  have "length (otsardb_sha256_hex_data sha d) = 64" for d
    using sha256_provider.hex_length [of sha] assms(2) by (simp add: sha256_provider_def)
  then show ?thesis
    using wf target_parse_print [OF wf, of "''s3://''"] target_parse_print [OF wf, of "''otsardb+s3://''"]
    by (simp add: target_identity_def otsardb_s3_target_database_id_def target_wf_def COMMIT_ID_MAX_def)
qed

theorem s3_target_normal_form_witness:
  "otsardb_s3_target_parse ''s3://b//x/y//'' = Some \<lparr>tg_bucket = ''b'', tg_database_root = ''x/y''\<rparr> \<and>
   otsardb_s3_target_parse (target_identity \<lparr>tg_bucket = ''b'', tg_database_root = ''x/y''\<rparr>) = Some \<lparr>tg_bucket = ''b'', tg_database_root = ''x/y''\<rparr>"
proof -
  have p: "otsardb_s3_target_parse ''s3://b//x/y//'' = Some \<lparr>tg_bucket = ''b'', tg_database_root = ''x/y''\<rparr>"
    by (simp add: otsardb_s3_target_parse_def target_cursor_def trim_root_def is_slash_def has_forbidden_uri_suffix_def S3_BUCKET_MAX_def KEY_MAX_def require_def)
  show ?thesis using s3_target_normal_form [OF p, of "\<lambda>_. replicate 32 0"] p by simp
qed

end
