(* ===== verification/Capability_Probe.thy ===== *)
theory Capability_Probe
  imports Commit_Publish
begin

text \<open>
  The probe of a store, \<open>src/storage/capability_probe.c\<close>: it finds out by trying which of the optional
  behaviours a store has.  The streamed write, which nothing else uses here, is an argument; the pauses
  between the attempts are left out.
\<close>

section \<open>Operations\<close>

definition PROBE_MAX_ATTEMPTS :: nat where "PROBE_MAX_ATTEMPTS = 3"

definition probe_rc_transient :: "store_result \<Rightarrow> bool" where
  "probe_rc_transient rc \<longleftrightarrow> rc = STORE_ERROR \<or> rc = STORE_TIMEOUT \<or> rc = STORE_UNSUPPORTED"

text \<open>An operation and how many more attempts it has.\<close>

primrec probe_retry :: "nat \<Rightarrow> ('w \<Rightarrow> store_result \<times> 'a \<times> 'w) \<Rightarrow> 'w \<Rightarrow> store_result \<times> 'a \<times> 'w" where
  "probe_retry 0 op w = op w"
| "probe_retry (Suc n) op w =
     (case op w of (rc, x, w') \<Rightarrow> if probe_rc_transient rc then probe_retry n op w' else (rc, x, w'))"

definition retry :: "('w \<Rightarrow> store_result \<times> 'a \<times> 'w) \<Rightarrow> 'w \<Rightarrow> store_result \<times> 'a \<times> 'w" where
  "retry op w = probe_retry (PROBE_MAX_ATTEMPTS - 1) op w"

definition object_equals :: "store_object \<Rightarrow> bytes \<Rightarrow> bool" where
  "object_equals object data \<longleftrightarrow> so_data object = data"

record mp_source =
  mp_parts :: "bytes list"
  mp_index :: nat

definition mp_read :: "mp_source \<Rightarrow> nat \<Rightarrow> bytes \<times> mp_source" where
  "mp_read src max_size =
     (if mp_index src \<ge> 2 then ([], src)
      else let part = mp_parts src ! mp_index src; avail = min (length part) max_size in
        if avail = 0 then ([], src) else (take avail part, src\<lparr>mp_index := mp_index src + 1\<rparr>))"

text \<open>A streamed write gets the source, its state, the expected size and the options.\<close>

type_synonym ('w, 's) stream_op =
  "'w \<Rightarrow> string \<Rightarrow> ('s \<Rightarrow> nat \<Rightarrow> bytes \<times> 's) \<Rightarrow> 's \<Rightarrow> nat \<Rightarrow> put_options \<Rightarrow> store_result \<times> string option \<times> 'w"

definition otsardb_store_put_stream :: "('w, 's) stream_op option \<Rightarrow> ('w, 's) stream_op" where
  "otsardb_store_put_stream put_stream w key source_read source_ctx expected_size options =
     (case put_stream of None \<Rightarrow> (STORE_UNSUPPORTED, None, w) | Some f \<Rightarrow> f w key source_read source_ctx expected_size options)"

record probe_report =
  pr_capabilities :: store_capabilities
  pr_s3_core_ok :: bool
  pr_s3_cas_ok :: bool

definition probe_base :: bytes where "probe_base = bytes_of_string ''otsardb-s3-probe-0123456789''"
definition probe_next :: bytes where "probe_next = bytes_of_string ''otsardb-s3-probe-next''"
definition probe_bad :: bytes where "probe_bad = bytes_of_string ''otsardb-s3-probe-bad''"
definition probe_stale_etag :: string where "probe_stale_etag = ''otsardb-stale-etag-that-must-not-match''"
definition probe_parts :: "bytes list" where
  "probe_parts = [bytes_of_string ''otsardb-multipart-probe-'', bytes_of_string ''0123456789abcdef'']"

definition has_etag :: "store_object \<Rightarrow> bool" where
  "has_etag object \<longleftrightarrow> so_etag object \<noteq> None \<and> so_etag object \<noteq> Some []"

abbreviation with_caps :: "bool \<Rightarrow> store_capabilities \<Rightarrow> store_capabilities \<Rightarrow> store_capabilities" where
  "with_caps b caps cap \<equiv> if b then caps OR cap else caps"

text \<open>The four parts of the probe, each with the capabilities found so far.\<close>

definition probe_read_back :: "'w object_store \<Rightarrow> string \<Rightarrow> 'w \<Rightarrow> store_result \<times> store_capabilities \<times> 'w" where
  "probe_read_back store probe_key w =
     (case retry (\<lambda>w. otsardb_store_put store w probe_key probe_base no_options) w of (rc, _, w1) \<Rightarrow>
        if rc \<noteq> STORE_OK then (rc, 0, w1)
        else case retry (\<lambda>w. otsardb_store_get store w probe_key) w1 of (rc, current, w2) \<Rightarrow>
          if rc \<noteq> STORE_OK then (rc, 0, w2)
          else if \<not> object_equals current probe_base then (STORE_ERROR, 0, w2)
          else let caps = with_caps (has_etag current) (0 OR STORE_CAP_READ_AFTER_WRITE) STORE_CAP_ETAG in
            (case retry (\<lambda>w. otsardb_store_get_range store w probe_key 8 8) w2 of (rc, rnge, w3) \<Rightarrow>
               (STORE_OK, with_caps (rc = STORE_OK \<and> object_equals rnge (bytes_of_string ''s3-probe'')) caps STORE_CAP_RANGE_GET, w3)))"

definition probe_create :: "'w object_store \<Rightarrow> string \<Rightarrow> store_capabilities \<Rightarrow> 'w \<Rightarrow> store_result \<times> store_capabilities \<times> 'w" where
  "probe_create store probe_key caps w =
     (case retry (\<lambda>w. otsardb_store_put store w probe_key probe_bad (no_options\<lparr>po_if_none_match := True\<rparr>)) w of (rc, _, w1) \<Rightarrow>
        if rc = STORE_PRECONDITION_FAILED then (STORE_OK, caps OR STORE_CAP_CONDITIONAL_CREATE, w1)
        else if rc = STORE_OK then
          (case retry (\<lambda>w. otsardb_store_put store w probe_key probe_base no_options) w1 of (rc, _, w2) \<Rightarrow> (rc, caps, w2))
        else (STORE_OK, caps, w1))"

definition probe_update :: "'w object_store \<Rightarrow> string \<Rightarrow> store_capabilities \<Rightarrow> 'w \<Rightarrow> store_result \<times> store_capabilities \<times> 'w" where
  "probe_update store probe_key caps w =
     (case retry (\<lambda>w. otsardb_store_get store w probe_key) w of (rc, current, w1) \<Rightarrow>
        if rc \<noteq> STORE_OK then (rc, caps, w1)
        else if \<not> has_etag current then (STORE_OK, caps, w1)
        else case retry (\<lambda>w. otsardb_store_put store w probe_key probe_bad (no_options\<lparr>po_if_match_etag := Some probe_stale_etag\<rparr>)) w1 of
          (rc, _, w2) \<Rightarrow>
            if rc \<noteq> STORE_PRECONDITION_FAILED then (STORE_OK, caps, w2)
            else (case retry (\<lambda>w. otsardb_store_put store w probe_key probe_next (no_options\<lparr>po_if_match_etag := so_etag current\<rparr>)) w2 of
                    (rc, _, w3) \<Rightarrow> (STORE_OK, with_caps (rc = STORE_OK) caps STORE_CAP_CONDITIONAL_UPDATE, w3)))"

definition probe_multipart ::
  "'w object_store \<Rightarrow> ('w, mp_source) stream_op option \<Rightarrow> string \<Rightarrow> store_capabilities \<Rightarrow> 'w \<Rightarrow> store_capabilities \<times> 'w" where
  "probe_multipart store put_stream probe_key caps w =
     (case retry (\<lambda>w. otsardb_store_put_stream put_stream w probe_key mp_read \<lparr>mp_parts = probe_parts, mp_index = 0\<rparr>
                    (length (concat probe_parts)) no_options) w of
        (rc, mp_etag, w1) \<Rightarrow>
          if rc \<noteq> STORE_OK then (caps, w1)
          else (case retry (\<lambda>w. otsardb_store_get store w probe_key) w1 of (rc, mp_obj, w2) \<Rightarrow>
                  (with_caps (rc = STORE_OK \<and> object_equals mp_obj (concat probe_parts) \<and> mp_etag \<noteq> None \<and> mp_etag \<noteq> Some [])
                     caps STORE_CAP_MULTIPART, w2)))"

definition probe_core_required :: store_capabilities where
  "probe_core_required = STORE_CAP_ETAG OR STORE_CAP_RANGE_GET OR STORE_CAP_READ_AFTER_WRITE"

definition probe_cas_required :: store_capabilities where
  "probe_cas_required = STORE_CAP_CONDITIONAL_CREATE OR STORE_CAP_CONDITIONAL_UPDATE"

definition probe_conclude :: "store_capabilities \<Rightarrow> probe_report" where
  "probe_conclude caps =
     (let core = (caps AND probe_core_required = probe_core_required) in
      \<lparr>pr_capabilities = caps, pr_s3_core_ok = core,
       pr_s3_cas_ok = (core \<and> caps AND probe_cas_required = probe_cas_required)\<rparr>)"

text \<open>A failed probe leaves what it has found so far in the report and the store as it was.\<close>

definition otsardb_store_probe_capabilities ::
  "'w object_store \<Rightarrow> ('w, mp_source) stream_op option \<Rightarrow> string \<Rightarrow> 'w \<Rightarrow> store_result \<times> probe_report \<times> 'w object_store \<times> 'w" where
  "otsardb_store_probe_capabilities store put_stream probe_key w =
     (let failed = (\<lambda>caps. \<lparr>pr_capabilities = caps, pr_s3_core_ok = False, pr_s3_cas_ok = False\<rparr>) in
      if probe_key = [] then (STORE_ERROR, failed 0, store, w)
      else case probe_read_back store probe_key w of (rc, caps, w1) \<Rightarrow>
        if rc \<noteq> STORE_OK then (rc, failed caps, store, w1)
        else case probe_create store probe_key caps w1 of (rc, caps, w2) \<Rightarrow>
          if rc \<noteq> STORE_OK then (rc, failed caps, store, w2)
          else case probe_update store probe_key caps w2 of (rc, caps, w3) \<Rightarrow>
            if rc \<noteq> STORE_OK then (rc, failed caps, store, w3)
            else (case probe_multipart store put_stream probe_key caps w3 of (caps, w4) \<Rightarrow>
                    (STORE_OK, probe_conclude caps, store\<lparr>st_capabilities := caps\<rparr>, w4)))"

section \<open>The probe of the in-memory store\<close>

text \<open>The streamed write of the in-memory store pulls until it has enough or the source ends.\<close>

function pull_source :: "('s \<Rightarrow> nat \<Rightarrow> bytes \<times> 's) \<Rightarrow> nat \<Rightarrow> bytes \<Rightarrow> 's \<Rightarrow> bytes" where
  "pull_source source_read want acc src =
     (if length acc < want then
        (case source_read src (want - length acc) of (chunk, src') \<Rightarrow>
           if chunk = [] then acc else pull_source source_read want (acc @ chunk) src')
      else acc)"
  by pat_completeness auto
termination
  by (relation "measure (\<lambda>(source_read, want, acc, src). want - length acc)") (auto intro: diff_less_mono2)

declare pull_source.simps [simp del]

definition memory_put_stream :: "(memory_store, 's) stream_op" where
  "memory_put_stream m key source_read source_ctx expected_size options =
     (if key = [] \<or> expected_size > size_max then (STORE_ERROR, None, m)
      else let buffer = pull_source source_read expected_size [] source_ctx in
        if length buffer \<noteq> expected_size then (STORE_ERROR, None, m) else memory_put m key buffer options)"

definition stored_at :: "memory_store \<Rightarrow> string \<Rightarrow> bytes \<Rightarrow> memory_store" where
  "stored_at m key data = snd (snd (memory_store_bytes m key data))"

lemma stored_at:
  "memory_store_bytes m key data = (STORE_OK, Some (make_etag (ms_next_version m + 1)), stored_at m key data)"
  "find_entry (stored_at m key data) k =
     (if k = key then Some \<lparr>me_key = key, me_data = data, me_version = ms_next_version m + 1, me_last_modified = ms_clock m\<rparr> else find_entry m k)"
  "ms_supported (stored_at m key data) = ms_supported m"
  by (simp_all add: stored_at_def memory_store_bytes_def Let_def find_entry_def find_set_entry)

lemma retry_simp: "retry op w = (case op w of (rc, x, w') \<Rightarrow> if probe_rc_transient rc then
    (case op w' of (rc, x, w') \<Rightarrow> if probe_rc_transient rc then op w' else (rc, x, w')) else (rc, x, w'))"
  by (simp add: retry_def PROBE_MAX_ATTEMPTS_def numeral_2_eq_2 split: prod.splits)

lemma make_etag_probe: "make_etag v \<noteq> probe_stale_etag" "make_etag v \<noteq> []"
  by (simp_all add: make_etag_def probe_stale_etag_def)

lemmas probe_memory_simps = stored_at memory_get_def copy_object_def memory_put_def memory_object_store_def otsardb_store_get_def
  otsardb_store_put_def otsardb_store_get_range_def memory_get_range_def no_options_def probe_rc_transient_def mem_slice_def Let_def

lemma probe_read_back_memory:
  "probe_read_back (memory_object_store c) key m =
     (STORE_OK, with_caps (ms_supported m AND STORE_CAP_RANGE_GET \<noteq> 0) (STORE_CAP_READ_AFTER_WRITE OR STORE_CAP_ETAG) STORE_CAP_RANGE_GET,
      stored_at m key probe_base)"
proof -
  have "take 8 (drop 8 probe_base) = bytes_of_string ''s3-probe''" "length probe_base = 27"
    by (simp_all add: probe_base_def bytes_of_string_def)
  then show ?thesis
    by (simp add: probe_read_back_def retry_simp probe_memory_simps object_equals_def has_etag_def make_etag_probe)
qed

lemma probe_create_memory:
  assumes "find_entry m key = Some e"
  shows "probe_create (memory_object_store c) key caps m = (STORE_OK, with_caps (ms_supported m AND STORE_CAP_CONDITIONAL_CREATE \<noteq> 0) caps STORE_CAP_CONDITIONAL_CREATE, m)"
  using assms by (simp add: probe_create_def retry_simp probe_memory_simps)

lemma probe_update_memory:
  assumes "find_entry m key = Some e"
  shows "probe_update (memory_object_store c) key caps m =
    (STORE_OK, with_caps (ms_supported m AND STORE_CAP_CONDITIONAL_UPDATE \<noteq> 0) caps STORE_CAP_CONDITIONAL_UPDATE,
     if ms_supported m AND STORE_CAP_CONDITIONAL_UPDATE \<noteq> 0 then stored_at m key probe_next else m)"
  using assms by (simp add: probe_update_def retry_simp probe_memory_simps has_etag_def make_etag_probe)

lemma pull_probe:
  "pull_source mp_read (length (concat probe_parts)) [] \<lparr>mp_parts = probe_parts, mp_index = 0\<rparr> = concat probe_parts"
proof -
  have l: "length (probe_parts ! 0) = 24" "length (probe_parts ! 1) = 16" "probe_parts = [probe_parts ! 0, probe_parts ! 1]"
    by (simp_all add: probe_parts_def bytes_of_string_def)
  then have c: "concat probe_parts = probe_parts ! 0 @ probe_parts ! 1" by (metis append.right_neutral concat.simps)
  have r: "mp_read \<lparr>mp_parts = probe_parts, mp_index = 0\<rparr> 40 = (probe_parts ! 0, \<lparr>mp_parts = probe_parts, mp_index = 1\<rparr>)"
    "mp_read \<lparr>mp_parts = probe_parts, mp_index = 1\<rparr> 16 = (probe_parts ! 1, \<lparr>mp_parts = probe_parts, mp_index = 2\<rparr>)"
    using l by (simp_all add: mp_read_def Let_def)
  have ne: "probe_parts ! 0 \<noteq> []" "probe_parts ! 1 \<noteq> []" using l by auto
  show ?thesis
    unfolding c using l ne
    by (simp add: pull_source.simps [of _ _ "[]"] r) (simp add: pull_source.simps r [unfolded One_nat_def])
qed

lemma probe_multipart_memory:
  assumes "key \<noteq> []"
  shows "probe_multipart (memory_object_store c) (Some memory_put_stream) key caps m =
    (caps OR STORE_CAP_MULTIPART, stored_at m key (concat probe_parts))"
proof -
  have "length (concat probe_parts) \<le> size_max" by (simp add: probe_parts_def bytes_of_string_def size_max_def)
  then show ?thesis
    using assms pull_probe
    by (simp add: probe_multipart_def retry_simp otsardb_store_put_stream_def memory_put_stream_def probe_memory_simps object_equals_def make_etag_probe
        del: concat.simps length_concat)
qed

section \<open>Properties\<close>

text \<open>
  (C38) The probe finds exactly what the store can do.  On the in-memory store with any set of optional
  behaviours and any contents it succeeds, the report and the store say that reads follow writes, objects have etags
  and multipart writes work, and that ranges, conditional creation and conditional replacement work
  exactly when they do; no object but the probed one is touched.
\<close>

theorem probe_finds_capabilities:
  assumes "key \<noteq> []" "memory_valid m"
  shows "\<exists>caps m'. otsardb_store_probe_capabilities (memory_object_store c) (Some memory_put_stream) key m =
      (STORE_OK, probe_conclude caps, (memory_object_store c)\<lparr>st_capabilities := caps\<rparr>, m') \<and>
    caps = with_caps (ms_supported m AND STORE_CAP_CONDITIONAL_UPDATE \<noteq> 0)
        (with_caps (ms_supported m AND STORE_CAP_CONDITIONAL_CREATE \<noteq> 0)
          (with_caps (ms_supported m AND STORE_CAP_RANGE_GET \<noteq> 0) (STORE_CAP_READ_AFTER_WRITE OR STORE_CAP_ETAG) STORE_CAP_RANGE_GET)
          STORE_CAP_CONDITIONAL_CREATE) STORE_CAP_CONDITIONAL_UPDATE OR STORE_CAP_MULTIPART \<and>
    (\<forall>k. k \<noteq> key \<longrightarrow> memory_objs m' k = memory_objs m k)"
proof -
  let ?m1 = "stored_at m key probe_base"
  define m3 where "m3 = (if ms_supported m AND STORE_CAP_CONDITIONAL_UPDATE \<noteq> 0 then stored_at ?m1 key probe_next else ?m1)"
  have e: "find_entry ?m1 key = Some \<lparr>me_key = key, me_data = probe_base, me_version = ms_next_version m + 1, me_last_modified = ms_clock m\<rparr>"
    "ms_supported ?m1 = ms_supported m" by (simp_all add: stored_at)
  have other: "memory_objs (stored_at m3 key (concat probe_parts)) k = memory_objs m k" if "k \<noteq> key" for k
    using that by (simp add: memory_objs_def m3_def stored_at)
  show ?thesis
    unfolding otsardb_store_probe_capabilities_def Let_def probe_read_back_memory prod.case
      probe_create_memory [OF e(1)] probe_update_memory [OF e(1)] probe_multipart_memory [OF assms(1)] e(2) m3_def [symmetric]
    by (rule exI, rule exI [of _ "stored_at m3 key (concat probe_parts)"]) (use assms(1) in \<open>simp add: other split del: if_split\<close>)
qed

theorem probe_finds_capabilities_witness:
  "\<exists>m'. otsardb_store_probe_capabilities (memory_object_store memory_capabilities) (Some memory_put_stream) ''probe''
     (otsardb_test_memory_store_create_with_capabilities 0) =
   (STORE_OK, probe_conclude (STORE_CAP_READ_AFTER_WRITE OR STORE_CAP_ETAG OR STORE_CAP_MULTIPART),
    (memory_object_store memory_capabilities)\<lparr>st_capabilities := STORE_CAP_READ_AFTER_WRITE OR STORE_CAP_ETAG OR STORE_CAP_MULTIPART\<rparr>, m')"
  using probe_finds_capabilities [of "''probe''" "otsardb_test_memory_store_create_with_capabilities 0" memory_capabilities]
  by (auto simp: otsardb_test_memory_store_create_with_capabilities_def memory_valid_def or.assoc)

end
