(* ===== verification/Publish_Retry.thy ===== *)
theory Publish_Retry
  imports Commit_Resolve
begin

text \<open>
  The bounded retry of \<open>src/storage/wal_publisher.c\<close>, which the replica module shares: its settings from
  the environment, the classification of results, the cycle, and one attempt to publish a commit.  The
  environment is a function, \<open>long\<close> has 64 bits, and an attempt is a function on a state.  The pauses
  of a cycle are part of its result.
\<close>

section \<open>Settings\<close>

definition long_max :: int where "long_max = 2 ^ 63 - 1"

text \<open>\<open>strtol\<close> in base 10: \<open>None\<close> when there is nothing to convert; the value is cut to the range of \<open>long\<close>.\<close>

definition strtol :: "string \<Rightarrow> (int \<times> string) option" where
  "strtol p =
     (let q = dropWhile isspace p;
          (neg, q) = (case q of
             [] \<Rightarrow> (False, [])
           | c # r \<Rightarrow> if c = CHR ''-'' then (True, r) else if c = CHR ''+'' then (False, r) else (False, q));
          ds = takeWhile isdigit q;
          v = int (digits_value ds) in
      if ds = [] then None
      else Some (if neg then max (- v) (- long_max - 1) else min v long_max, dropWhile isdigit q))"

type_synonym environment = "string \<Rightarrow> string option"

text \<open>A number that fills a whole, nonempty variable.\<close>

definition env_long :: "environment \<Rightarrow> string \<Rightarrow> int option" where
  "env_long getenv name =
     (case getenv name of
        None \<Rightarrow> None
      | Some v \<Rightarrow> if v = [] then None
                  else case strtol v of None \<Rightarrow> None | Some (n, rest) \<Rightarrow> if rest = [] then Some n else None)"

definition publish_retries_limit :: "environment \<Rightarrow> nat" where
  "publish_retries_limit getenv =
     (case env_long getenv ''OTSARDB_PUBLISH_RETRIES'' of
        None \<Rightarrow> 3
      | Some n \<Rightarrow> if n < 1 then 1 else if n > 10 then 10 else nat n)"

definition publish_retry_base_ms :: "environment \<Rightarrow> int" where
  "publish_retry_base_ms getenv =
     (case env_long getenv ''OTSARDB_PUBLISH_RETRY_BASE_MS'' of
        None \<Rightarrow> 250
      | Some n \<Rightarrow> if n < 0 then 0 else if n > 60000 then 60000 else n)"

section \<open>The cycle\<close>

definition publish_rc_retryable :: "journal_result \<Rightarrow> bool" where
  "publish_rc_retryable rc \<longleftrightarrow> rc = JOURNAL_ERROR \<or> rc = JOURNAL_AMBIGUOUS"

text \<open>
  Attempt \<open>i\<close> of \<open>attempts\<close>, with the delay before the next one and the first result; the result has
  whether an attempt succeeded, its code, the pauses and the state.
\<close>

function publish_retry_loop ::
  "('s \<Rightarrow> bool \<times> journal_result \<times> 's) \<Rightarrow> nat \<Rightarrow> nat \<Rightarrow> int \<Rightarrow> journal_result \<Rightarrow> 's \<Rightarrow> bool \<times> journal_result \<times> int list \<times> 's" where
  "publish_retry_loop attempt attempts i delay_ms first_rc s =
     (if i > attempts then (False, first_rc, [], s)
      else case attempt s of (ok, rc, s') \<Rightarrow>
        if ok then (True, rc, [], s')
        else let first_rc = (if i = 1 then rc else first_rc) in
          if \<not> publish_rc_retryable rc then (False, rc, [], s')
          else (case publish_retry_loop attempt attempts (i + 1) (delay_ms * 2) first_rc s' of
                  (ok, rc, pauses, s'') \<Rightarrow> (ok, rc, if i < attempts then delay_ms # pauses else pauses, s'')))"
  by pat_completeness auto
termination by (relation "measure (\<lambda>(_, attempts, i, _). Suc attempts - i)") auto

declare publish_retry_loop.simps [simp del]

definition publish_retry_cycle ::
  "environment \<Rightarrow> ('s \<Rightarrow> bool \<times> journal_result \<times> 's) \<Rightarrow> 's \<Rightarrow> bool \<times> journal_result \<times> 's" where
  "publish_retry_cycle getenv attempt s =
     (case publish_retry_loop attempt (publish_retries_limit getenv) 1 (publish_retry_base_ms getenv) JOURNAL_ERROR s of
        (ok, rc, _, s') \<Rightarrow> (ok, rc, s'))"

text \<open>One attempt to publish: it succeeds also when an ambiguous outcome is resolved to a published commit.\<close>

record publish_attempt =
  at_result :: "commit_result option"
  at_identity_resolved :: bool

definition publish_attempt_once ::
  "publish_env \<Rightarrow> 'w object_store \<Rightarrow> string \<Rightarrow> commit_request \<Rightarrow> publish_attempt \<times> 'w \<Rightarrow>
   bool \<times> journal_result \<times> publish_attempt \<times> 'w" where
  "publish_attempt_once env store root rq s =
     (case otsardb_publish_commit env store (snd s) rq of (rc, res, w') \<Rightarrow>
        if rc = JOURNAL_OK then (True, rc, \<lparr>at_result = res, at_identity_resolved = False\<rparr>, w')
        else if rc = JOURNAL_AMBIGUOUS then
          (case otsardb_resolve_commit (pe_sha env) store w' root (rq_commit_id rq) (rq_parent_generation rq) of
             (resolved, state, w'') \<Rightarrow>
               if resolved = JOURNAL_OK \<and> state = STATE_COMMITTED
               then (True, rc, \<lparr>at_result = None, at_identity_resolved = True\<rparr>, w'')
               else (False, rc, \<lparr>at_result = None, at_identity_resolved = False\<rparr>, w''))
        else (False, rc, \<lparr>at_result = None, at_identity_resolved = False\<rparr>, w'))"

section \<open>What a cycle does\<close>

definition attempt_next :: "('s \<Rightarrow> bool \<times> journal_result \<times> 's) \<Rightarrow> 's \<Rightarrow> 's" where
  "attempt_next attempt s = snd (snd (attempt s))"

definition attempt_ok :: "('s \<Rightarrow> bool \<times> journal_result \<times> 's) \<Rightarrow> 's \<Rightarrow> nat \<Rightarrow> bool" where
  "attempt_ok attempt s k = fst (attempt ((attempt_next attempt ^^ k) s))"

definition attempt_rc :: "('s \<Rightarrow> bool \<times> journal_result \<times> 's) \<Rightarrow> 's \<Rightarrow> nat \<Rightarrow> journal_result" where
  "attempt_rc attempt s k = fst (snd (attempt ((attempt_next attempt ^^ k) s)))"

text \<open>
  A run of attempts that ends with number \<open>k\<close>: the ones before it failed and could be retried.  The last
  one succeeded, or failed for good, or was the last that is allowed; then the first result counts.
\<close>

definition retry_outcome ::
  "('s \<Rightarrow> bool \<times> journal_result \<times> 's) \<Rightarrow> nat \<Rightarrow> 's \<Rightarrow> nat \<Rightarrow> bool \<Rightarrow> journal_result \<Rightarrow> bool" where
  "retry_outcome attempt attempts s k ok rc \<longleftrightarrow>
     k < attempts \<and> (\<forall>j<k. \<not> attempt_ok attempt s j \<and> publish_rc_retryable (attempt_rc attempt s j)) \<and>
     ok = attempt_ok attempt s k \<and>
     (if ok \<or> \<not> publish_rc_retryable (attempt_rc attempt s k) then rc = attempt_rc attempt s k
      else k = attempts - 1 \<and> rc = attempt_rc attempt s 0)"

lemma publish_retry_loop_from:
  assumes "publish_retry_loop attempt attempts (Suc i) (delay_ms * 2 ^ i) first_rc ((attempt_next attempt ^^ i) s) = (ok, rc, pauses, s')"
    "i < attempts" "\<forall>j<i. \<not> attempt_ok attempt s j \<and> publish_rc_retryable (attempt_rc attempt s j)"
    "0 < i \<Longrightarrow> first_rc = attempt_rc attempt s 0"
  shows "\<exists>k\<ge>i. retry_outcome attempt attempts s k ok rc \<and> s' = (attempt_next attempt ^^ Suc k) s \<and>
    pauses = map (\<lambda>j. delay_ms * 2 ^ j) [i..<k]"
  using assms
proof (induction "attempts - i" arbitrary: i first_rc pauses)
  case 0
  then show ?case by simp
next
  case (Suc n)
  let ?s = "(attempt_next attempt ^^ i) s"
  obtain o1 r1 s1 where at: "attempt ?s = (o1, r1, s1)" by (cases "attempt ?s")
  then have o1: "o1 = attempt_ok attempt s i" and r1: "r1 = attempt_rc attempt s i" and s1: "s1 = (attempt_next attempt ^^ Suc i) s"
    by (simp_all add: attempt_ok_def attempt_rc_def attempt_next_def)
  show ?case
  proof (cases "o1 \<or> \<not> publish_rc_retryable r1")
    case True
    then have "ok = o1" "rc = r1" "pauses = []" "s' = s1"
      using Suc.prems(1,2) at by (auto simp: publish_retry_loop.simps [of _ _ "Suc i"] Let_def split: if_splits)
    with True o1 r1 s1 Suc.prems(2,3) show ?thesis
      by (intro exI [of _ i]) (auto simp: retry_outcome_def)
  next
    case False
    define f where "f = (if i = 0 then r1 else first_rc)"
    have f: "f = attempt_rc attempt s 0" using Suc.prems(4) r1 by (cases i) (auto simp: f_def)
    obtain p2 where rest: "publish_retry_loop attempt attempts (Suc (Suc i)) (delay_ms * 2 ^ Suc i) f s1 = (ok, rc, p2, s')"
      and pauses: "pauses = (if Suc i < attempts then delay_ms * 2 ^ i # p2 else p2)"
      using Suc.prems(1,2) at False
      by (auto simp: publish_retry_loop.simps [of _ _ "Suc i"] Let_def f_def mult_ac split: if_splits prod.splits)
    show ?thesis
    proof (cases "Suc i < attempts")
      case last: False
      then have "attempts = Suc i" using Suc.prems(2) by simp
      with rest have "ok = False" "rc = f" "s' = s1" "p2 = []" by (auto simp: publish_retry_loop.simps)
      with last False o1 r1 s1 f Suc.prems(2,3) pauses show ?thesis
        by (intro exI [of _ i]) (auto simp: retry_outcome_def)
    next
      case more: True
      have prev: "\<forall>j<Suc i. \<not> attempt_ok attempt s j \<and> publish_rc_retryable (attempt_rc attempt s j)"
        using Suc.prems(3) False o1 r1 by (auto simp: less_Suc_eq)
      have n: "n = attempts - Suc i" using Suc.hyps(2) by simp
      obtain k where k: "k \<ge> Suc i" "retry_outcome attempt attempts s k ok rc" "s' = (attempt_next attempt ^^ Suc k) s"
        "p2 = map (\<lambda>j. delay_ms * 2 ^ j) [Suc i..<k]"
        using Suc.hyps(1) [of "Suc i" f p2, OF _ rest [unfolded s1] more prev f] n by blast
      then show ?thesis using pauses more by (intro exI [of _ k]) (auto simp: upt_conv_Cons)
    qed
  qed
qed

lemma publish_retries_limit_bounds: "0 < publish_retries_limit getenv" "publish_retries_limit getenv \<le> 10"
  by (auto simp: publish_retries_limit_def split: option.splits)

lemma publish_retry_base_bounds: "0 \<le> publish_retry_base_ms getenv" "publish_retry_base_ms getenv \<le> 60000"
  by (auto simp: publish_retry_base_ms_def split: option.splits)

lemma publish_retry_loop_outcome:
  assumes "publish_retry_loop attempt (publish_retries_limit getenv) 1 (publish_retry_base_ms getenv) JOURNAL_ERROR s = (ok, rc, pauses, s')"
  shows "\<exists>k. retry_outcome attempt (publish_retries_limit getenv) s k ok rc \<and> s' = (attempt_next attempt ^^ Suc k) s \<and>
    pauses = map (\<lambda>j. publish_retry_base_ms getenv * 2 ^ j) [0..<k]"
  using publish_retry_loop_from [of attempt "publish_retries_limit getenv" 0 "publish_retry_base_ms getenv" JOURNAL_ERROR s ok rc pauses s']
    assms publish_retries_limit_bounds [of getenv] by auto

text \<open>What every attempt keeps, a cycle keeps; what a successful attempt gives, a successful cycle gives.\<close>

lemma publish_retry_cycle_rule:
  assumes "publish_retry_cycle getenv attempt s = (ok, rc, s')" "I s"
    "\<And>s ok rc s'. attempt s = (ok, rc, s') \<Longrightarrow> I s \<Longrightarrow> I s' \<and> (ok \<longrightarrow> Q rc s')"
  shows "I s' \<and> (ok \<longrightarrow> Q rc s')"
proof -
  obtain pauses where "publish_retry_loop attempt (publish_retries_limit getenv) 1 (publish_retry_base_ms getenv) JOURNAL_ERROR s = (ok, rc, pauses, s')"
    using assms(1) by (auto simp: publish_retry_cycle_def split: prod.splits)
  from publish_retry_loop_outcome [OF this] obtain k where k: "retry_outcome attempt (publish_retries_limit getenv) s k ok rc"
    "s' = (attempt_next attempt ^^ Suc k) s" by blast
  have I: "I ((attempt_next attempt ^^ j) s)" for j
  proof (induction j)
    case (Suc j)
    obtain a b c where at: "attempt ((attempt_next attempt ^^ j) s) = (a, b, c)" by (metis prod_cases3)
    then have "attempt_next attempt ((attempt_next attempt ^^ j) s) = c" by (simp add: attempt_next_def [of attempt "(attempt_next attempt ^^ j) s"])
    then show ?case using assms(3) [OF at Suc.IH] by simp
  qed (simp add: assms(2))
  obtain a b c where at: "attempt ((attempt_next attempt ^^ k) s) = (a, b, c)" by (metis prod_cases3)
  then have "s' = c" using k(2) by (simp add: attempt_next_def [of attempt "(attempt_next attempt ^^ k) s"])
  then have "ok \<longrightarrow> Q rc s'"
    using k(1) at assms(3) [OF at I] by (auto simp: retry_outcome_def attempt_ok_def attempt_rc_def)
  then show ?thesis using I k(2) by blast
qed

section \<open>Publishing with retries\<close>

text \<open>What a commit may have done to a store: HEAD is as it was, or was replaced under the condition of the request.\<close>

definition publish_effect ::
  "publish_env \<Rightarrow> commit_request \<Rightarrow> (string \<rightharpoonup> store_object) \<Rightarrow> (string \<rightharpoonup> store_object) \<Rightarrow> bool" where
  "publish_effect env rq old new \<longleftrightarrow>
     (\<forall>k ob. k \<noteq> head_key (rq_database_root rq) \<longrightarrow> old k = Some ob \<longrightarrow> new k = Some ob) \<and>
     (new (head_key (rq_database_root rq)) = old (head_key (rq_database_root rq)) \<or>
        head_condition rq old \<and> (\<exists>h. head_moved env rq new h))"

text \<open>The commit is in the history of HEAD, above its parent.\<close>

definition commit_resolved :: "(bytes \<Rightarrow> bytes) \<Rightarrow> (string \<rightharpoonup> store_object) \<Rightarrow> commit_request \<Rightarrow> bool" where
  "commit_resolved sha contents rq \<longleftrightarrow>
     (\<exists>h. stored_head contents (rq_database_root rq) = Some h \<and>
        (hd_commit_id h = rq_commit_id rq \<or>
         committed_above sha contents (rq_database_root rq) (rq_commit_id rq) (rq_parent_generation rq) (head_pos h)))"

definition publish_acknowledged ::
  "publish_env \<Rightarrow> commit_request \<Rightarrow> (string \<rightharpoonup> store_object) \<Rightarrow> (string \<rightharpoonup> store_object) \<Rightarrow> publish_attempt \<Rightarrow> bool" where
  "publish_acknowledged env rq old new a \<longleftrightarrow>
     (if at_identity_resolved a then commit_resolved (pe_sha env) new rq
      else head_condition rq old \<and> (\<exists>r. at_result a = Some r \<and> head_moved env rq new (cr_head r)))"

lemma head_moved_keep:
  assumes "head_moved env rq m h" "m' (head_key (rq_database_root rq)) = m (head_key (rq_database_root rq))"
    "\<forall>k ob. k \<noteq> head_key (rq_database_root rq) \<longrightarrow> m k = Some ob \<longrightarrow> m' k = Some ob"
  shows "head_moved env rq m' h"
proof -
  have "m \<subseteq>\<^sub>m m'" using assms(2,3) unfolding map_le_def by (metis domD)
  note mono = holds_data_mono [OF _ this] segment_durable_mono [OF _ this]
  have "manifest_durable env m' rq key hash" if "manifest_durable env m rq key hash" for key hash
    using that mono unfolding manifest_durable_def list_all_iff by blast
  then show ?thesis using assms(1) mono unfolding head_moved_def by blast
qed

lemma publish_effect_refl: "publish_effect env rq m m"
  by (simp add: publish_effect_def)

lemma publish_effect_trans:
  assumes "publish_effect env rq a b" "publish_effect env rq b c"
  shows "publish_effect env rq a c"
proof -
  let ?hk = "head_key (rq_database_root rq)"
  have keep: "\<forall>k ob. k \<noteq> ?hk \<longrightarrow> a k = Some ob \<longrightarrow> c k = Some ob" using assms by (auto simp: publish_effect_def)
  consider "c ?hk = b ?hk" "b ?hk = a ?hk" | "c ?hk = b ?hk" "head_condition rq a" "\<exists>h. head_moved env rq b h"
    | "head_condition rq b" "\<exists>h. head_moved env rq c h" "head_condition rq a \<or> b ?hk = a ?hk"
    using assms by (auto simp: publish_effect_def)
  then show ?thesis
  proof cases
    case 2
    then obtain h where "head_moved env rq b h" by blast
    from head_moved_keep [OF this, of c] 2(1) assms(2) have "head_moved env rq c h" by (simp add: publish_effect_def)
    with 2 keep show ?thesis by (auto simp: publish_effect_def)
  next
    case 3
    then have "head_condition rq a" using head_condition_cong [of b rq a] by auto
    with 3 keep show ?thesis by (simp add: publish_effect_def)
  qed (use keep in \<open>auto simp: publish_effect_def\<close>)
qed

context object_store_laws
begin

lemma resolve_commit_same:
  assumes "otsardb_resolve_commit sha store w root cid parent = (rc, st, w')" "valid w"
  shows "valid w' \<and> objs w' = objs w"
proof -
  obtain r ho w1 where rd: "otsardb_journal_read_head store w root = (r, ho, w1)" by (cases "otsardb_journal_read_head store w root")
  note law = read_head_law [OF rd assms(2)]
  have "w' = w \<or> w' = w1 \<or> (\<exists>h. resolve_walk sha store root cid parent (hd_generation h) (RECOVERY_MAX_COMMITS - 1) w1 (head_pos h) = (rc, st, w'))"
    using assms(1) rd by (auto simp: otsardb_resolve_commit_def split: if_splits option.splits)
  then show ?thesis using law assms(2) resolve_walk_law [of sha root cid parent _ _ w1 _ rc st w'] by metis
qed

lemma publish_attempt_law:
  assumes at: "publish_attempt_once env store (rq_database_root rq) rq (a, w) = (ok, rc, a', w')" and w: "valid w"
  shows "valid w' \<and> publish_effect env rq (objs w) (objs w') \<and> (ok \<longrightarrow> publish_acknowledged env rq (objs w) (objs w') a')"
proof -
  obtain r res w1 where pub: "otsardb_publish_commit env store w rq = (r, res, w1)" by (cases "otsardb_publish_commit env store w rq")
  obtain r2 st w2 where rs: "otsardb_resolve_commit (pe_sha env) store w1 (rq_database_root rq) (rq_commit_id rq) (rq_parent_generation rq) = (r2, st, w2)"
    by (cases "otsardb_resolve_commit (pe_sha env) store w1 (rq_database_root rq) (rq_commit_id rq) (rq_parent_generation rq)")
  note law = publish_commit_law [OF pub w]
  have eff: "publish_effect env rq (objs w) (objs w1)" using law by (auto simp: publish_effect_def)
  note same = resolve_commit_same [OF rs conjunct1 [OF law]]
  consider "r = JOURNAL_OK" "w' = w1" "a' = \<lparr>at_result = res, at_identity_resolved = False\<rparr>"
    | "r2 = JOURNAL_OK" "st = STATE_COMMITTED" "w' = w2" "at_identity_resolved a'"
    | "\<not> ok" "w' = w1 \<or> w' = w2"
    using at pub rs by (auto simp: publish_attempt_once_def split: if_splits)
  then show ?thesis
  proof cases
    case 2
    then have "commit_resolved (pe_sha env) (objs w1) rq"
      using resolve_commit_law [OF conjunct1 [OF law], of "pe_sha env" "rq_database_root rq" "rq_commit_id rq" "rq_parent_generation rq" st w2]
        rs by (auto simp: commit_resolved_def)
    then show ?thesis using 2 eff same by (simp add: publish_acknowledged_def)
  qed (use law eff same in \<open>auto simp: publish_acknowledged_def\<close>)
qed

lemma publish_retry_law:
  assumes "publish_retry_cycle getenv (publish_attempt_once env store (rq_database_root rq) rq) (a, w) = (ok, rc, a', w')" "valid w"
  shows "valid w' \<and> publish_effect env rq (objs w) (objs w') \<and> (ok \<longrightarrow> publish_acknowledged env rq (objs w) (objs w') a')"
proof -
  have step: "(valid w2 \<and> publish_effect env rq (objs w) (objs w2)) \<and>
      (ok2 \<longrightarrow> publish_acknowledged env rq (objs w) (objs w2) a2)"
    if at: "publish_attempt_once env store (rq_database_root rq) rq (a1, w1) = (ok2, rc2, a2, w2)"
      and I: "valid w1 \<and> publish_effect env rq (objs w) (objs w1)" for a1 w1 ok2 rc2 a2 w2
  proof -
    note law = publish_attempt_law [OF at conjunct1 [OF I]]
    have "head_condition rq (objs w)" if "head_condition rq (objs w1)"
      using that I head_condition_cong [of "objs w1" rq "objs w"] by (auto simp: publish_effect_def)
    then show ?thesis using law I publish_effect_trans by (auto simp: publish_acknowledged_def split: if_splits)
  qed
  show ?thesis
    using publish_retry_cycle_rule [OF assms(1), where I = "\<lambda>s. valid (snd s) \<and> publish_effect env rq (objs w) (objs (snd s))"
        and Q = "\<lambda>_ s. publish_acknowledged env rq (objs w) (objs (snd s)) (fst s)"] step publish_effect_refl assms(2)
    by auto
qed

end

section \<open>Properties\<close>

lemma sum_doubling: "(\<Sum>j\<leftarrow>[0..<k]. (b :: int) * 2 ^ j) = b * (2 ^ k - 1)"
  by (induction k) (simp_all add: algebra_simps)

text \<open>
  (C40) The retry cycle is bounded and keeps the first error.  Whatever the environment says there are at
  most ten attempts; attempts that fail are repeated only when the result is an error of the transport
  or ambiguous; the cycle ends with the first success, with the first result that must not be retried, or
  after the last attempt with the result of the first one.  The pauses double from the configured
  base and add up to less than nine hours.
\<close>

theorem retry_cycle_bounded:
  "case publish_retry_loop attempt (publish_retries_limit getenv) 1 (publish_retry_base_ms getenv) JOURNAL_ERROR s of
     (ok, rc, pauses, s') \<Rightarrow>
       \<exists>k. retry_outcome attempt (publish_retries_limit getenv) s k ok rc \<and> k < 10 \<and>
         s' = (attempt_next attempt ^^ Suc k) s \<and>
         pauses = map (\<lambda>j. publish_retry_base_ms getenv * 2 ^ j) [0..<k] \<and> sum_list pauses \<le> 60000 * 511"
proof -
  let ?b = "publish_retry_base_ms getenv"
  have "\<exists>k. retry_outcome attempt (publish_retries_limit getenv) s k ok rc \<and> k < 10 \<and>
      s' = (attempt_next attempt ^^ Suc k) s \<and> pauses = map (\<lambda>j. ?b * 2 ^ j) [0..<k] \<and> sum_list pauses \<le> 60000 * 511"
    if "publish_retry_loop attempt (publish_retries_limit getenv) 1 ?b JOURNAL_ERROR s = (ok, rc, pauses, s')" for ok rc pauses s'
  proof -
    from publish_retry_loop_outcome [OF that] obtain k where k: "retry_outcome attempt (publish_retries_limit getenv) s k ok rc"
      "s' = (attempt_next attempt ^^ Suc k) s" "pauses = map (\<lambda>j. ?b * 2 ^ j) [0..<k]" by blast
    have less: "k < 10" using k(1) publish_retries_limit_bounds(2) [of getenv] by (auto simp: retry_outcome_def)
    then have "(2 :: int) ^ k \<le> 2 ^ 9" by (intro power_increasing) auto
    then have "?b * (2 ^ k - 1) \<le> 60000 * 511"
      using publish_retry_base_bounds [of getenv] mult_mono [of ?b 60000 "2 ^ k - 1" 511] by auto
    then show ?thesis using k less by (auto simp: sum_doubling)
  qed
  then show ?thesis by (auto split: prod.split)
qed

text \<open>
  (C8) Publishing with retries is safe on every store that keeps the laws, whatever the store reports and
  however many attempts are made.  No object but HEAD is changed; HEAD is as it was, or the condition of
  the request held at the start and HEAD, its manifest and all its segments are those of the request.
  When the cycle reports success the commit was published, or it is found in the history of HEAD.
\<close>

theorem publish_retry_safe:
  assumes laws: "object_store_laws store objs valid" and w: "valid w"
    and cycle: "publish_retry_cycle getenv (publish_attempt_once env store (rq_database_root rq) rq) (a, w) = (ok, rc, a', w')"
  shows "publish_effect env rq (objs w) (objs w') \<and> (ok \<longrightarrow> publish_acknowledged env rq (objs w) (objs w') a')"
  using object_store_laws.publish_retry_law [OF laws cycle w] by blast

definition sample_attempt :: publish_attempt where
  "sample_attempt = \<lparr>at_result = None, at_identity_resolved = False\<rparr>"

lemma sample_cycle:
  "\<exists>a'. publish_retry_cycle (\<lambda>_. None)
       (publish_attempt_once sample_env (memory_object_store memory_capabilities) (rq_database_root sample_request) sample_request)
       (sample_attempt, empty_memory) = (True, JOURNAL_OK, a', sample_committed)"
proof -
  have "publish_retries_limit (\<lambda>_. None) = 3" by (simp add: publish_retries_limit_def env_long_def)
  moreover obtain r where "otsardb_publish_commit sample_env (memory_object_store memory_capabilities) empty_memory sample_request =
     (JOURNAL_OK, Some r, sample_committed)" using sample_publish_ok by blast
  ultimately show ?thesis
    by (simp add: publish_retry_cycle_def publish_retry_loop.simps publish_attempt_once_def)
qed

theorem publish_retry_safe_witness:
  "\<exists>a'. publish_effect sample_env sample_request (memory_objs empty_memory) (memory_objs sample_committed) \<and>
     publish_acknowledged sample_env sample_request (memory_objs empty_memory) (memory_objs sample_committed) a'"
  using sample_cycle publish_retry_safe [OF mem.object_store_laws_axioms empty_memory_valid] by blast

end
