(* ===== verification/Spec2Isabelle.thy ===== *)
theory Spec2Isabelle
  imports Checksum Wal_Batch Sqlite_Wal Sha256 Segment Journal Db_Metadata Commit_Resolve Checkpoint_Manifest Retention Lease S3_Target Capability_Probe Publish_Retry
begin

text \<open>
  Verification development for otsardb, an SQLite-compatible database whose durable state lives in an S3
  object store.

  \<^bold>\<open>The program.\<close>  SQLite writes its write-ahead log; the scanner finds the committed transactions in it; each
  becomes one or more batches of pages, a batch becomes a segment object, and a commit is a manifest that
  names its segments and its parent.  One small object, HEAD, names the newest manifest and is replaced by
  compare-and-swap.  Recovery reads HEAD, walks the manifests down to the first commit or to a
  checkpoint, and replays the segments into a local file.  Checkpoints bound the replay, garbage collection
  removes what lies below a checkpoint, and a lease object says which instance may write.

  \<^bold>\<open>Conventions.\<close>  Every call on the store takes and returns a world \<open>'w\<close>; a store is a record of operations
  (\<open>object_store\<close>, after \<open>object_store.h\<close>).  What the code may rely on is the locale \<open>object_store_laws\<close>: an
  accepted write stores its bytes under its condition, a refused one changes nothing, and a write of
  unknown outcome happened or did not.  \<open>answering_store\<close> and \<open>accepting_store\<close> add that reads and writes
  succeed, for the theorems that say something completes.  All three are interpreted by the in-memory
  store of \<open>tests/memory_store.c\<close>.  Fallible functions return an option or a result code; integers that can
  wrap are words; buffers are lists of bytes; C strings are lists of characters without the final NUL.
  LZ4, OpenSSL, the system's random source and the clock are arguments.  Null pointers and failed
  allocations are not modelled.

  \<^bold>\<open>Formats.\<close>  \<open>Otsar_Prelude\<close> has the byte-order helpers and \<open>C_String\<close> the string functions and the
  printed JSON that the sources search with \<open>strstr\<close>.  \<open>Checksum\<close> (\<open>storage/checksum.c\<close>): the rolling checksum
  is updated page by page without rereading the database, and sees every changed byte.  \<open>Wal_Batch\<close>,
  \<open>Segment\<close> with \<open>Crc32\<close>, \<open>Checkpoint_Page\<close>, \<open>Checkpoint_Manifest\<close>, \<open>Commit_Manifest\<close>, \<open>Journal\<close>, \<open>Db_Metadata\<close>
  (the files of these names under \<open>storage/\<close>): decoding inverts encoding, what a decoder accepts is well
  formed, and every access to a decoded object stays inside its buffer.  \<open>Sqlite_Wal\<close> (\<open>storage/sqlite_wal.c\<close>):
  a scan resumed from its cursor continues as if it had never stopped.  \<open>Sha256\<close> and \<open>Aes_Gcm\<close>
  (\<open>crypto/sha256_pure.c\<close>, \<open>crypto/aes_gcm_pure.c\<close>) compute the streaming digest and the authenticated
  cipher; \<open>Cipher\<close> (\<open>crypto/cipher.c\<close>) is the envelope of a segment, and the locale \<open>aead\<close> its interface.
  \<open>S3_Target\<close> (\<open>storage/s3_target.c\<close>) is the target URI in normal form.

  \<^bold>\<open>Publishing.\<close>  \<open>Journal\<close> has HEAD and its compare-and-swap.  \<open>Commit_Publish\<close> and \<open>Commit_Resolve\<close>
  (\<open>storage/commit_publish.c\<close>): a commit is atomic, since HEAD moves only to a manifest whose segments are
  all stored and only under the condition of the request; the outcome of a commit is resolved exactly,
  and so are conflicts of pages.  \<open>Publish_Retry\<close> (\<open>storage/wal_publisher.c\<close>) repeats this a bounded number
  of times and stays safe.  \<open>Writers\<close>: any number of writers on a failing store produce one line of commits.

  \<^bold>\<open>Recovery.\<close>  \<open>Recovery\<close> and \<open>Recovery_Image\<close> (\<open>storage/recovery.c\<close>) restore a database from its chain or from
  a checkpoint and a delta; \<open>Recovery_Safety\<close> proves that a restore gives the authentic image and, on
  an intact database, succeeds.  \<open>Database_History\<close> joins publishing and recovery: what was published
  is what a restore gives.  \<open>Sample_Database\<close> is the small database of the witnesses.

  \<^bold>\<open>Retention.\<close>  \<open>Checkpoint_Build\<close> and \<open>Checkpoint_Live\<close> (\<open>storage/checkpoint_build.c\<close>), \<open>Gc\<close> (\<open>storage/gc.c\<close>)
  and \<open>Retention\<close>: a sweep deletes only what no restore needs, and after building a checkpoint and sweeping
  a restore still gives the database.

  \<^bold>\<open>Availability.\<close>  \<open>Lease\<close> (\<open>ha/lease.c\<close>): in every interleaving of claims, renewals and releases at most
  one instance holds the current lease.  \<open>Capability_Probe\<close> (\<open>storage/capability_probe.c\<close>) finds exactly the
  optional behaviours a store has.

  \<^bold>\<open>Bounds.\<close>  The walks of a chain carry the source's own limit of 1000000 commits as fuel; a walk needs no more
  steps than HEAD has generations (\<open>chain_walk_terminates\<close>), so a larger bound changes nothing.  The sweep
  of \<open>gc.c\<close> has no limit and is a \<open>partial_function\<close>; it is proved to return on every chain in which
  generations decrease.  A retry has at most ten attempts.

  \<^bold>\<open>Not modelled.\<close>  The rest of the session (\<open>wal_publisher.c\<close> beyond its retries, \<open>replica.c\<close>, \<open>s3_database.cpp\<close>),
  the on-demand reader (\<open>lazy_hydration.c\<close>) and the VFS shim (\<open>local_vfs.c\<close>), which are written against
  SQLite's own interfaces and threads; the S3 adapter and the local cache, which are C++ around the AWS SDK
  and the file system; HTTP forwarding, the command line and the studio, which are input and output.
  Timing of comparisons, threads and file-system failures are not modelled anywhere.
\<close>

end
